(* ===== verification/Prelude.thy ===== *)
theory Prelude
  imports
    Main
    "HOL-Library.Word"
    "HOL-Library.List_Lexorder"
    "HOL-Library.Char_ord"
    "HOL-Library.AList"
begin

text \<open>
  Shared vocabulary of the development: machine integers, the C-locale character
  classes, decimal rendering and parsing of integers, the two dictionaries of the C++
  library (the ordered \<open>std::map\<close> as a sorted association list, the unordered
  \<open>std::unordered_map\<close> as an association list with distinct keys), the interface
  both satisfy, and the notion of a self-delimiting encoding that the renderers of the
  services share.
\<close>

section \<open>Machine integers\<close>

type_synonym u8 = "8 word"
type_synonym u16 = "16 word"
type_synonym u64 = "64 word"
type_synonym i64 = int

abbreviation i64_min :: int where "i64_min \<equiv> - 9223372036854775808"
abbreviation i64_max :: int where "i64_max \<equiv> 9223372036854775807"

definition in_i64 :: "int \<Rightarrow> bool" where
  "in_i64 i \<longleftrightarrow> i64_min \<le> i \<and> i \<le> i64_max"

named_theorems clock_simps \<open>unsigned clock arithmetic\<close>

lemma unat_sub_u64 [clock_simps]:
  "unat ((a :: u64) - b) = (if b \<le> a then unat a - unat b else 2 ^ 64 + unat a - unat b)"
proof (cases "b \<le> a")
  case True
  then show ?thesis by (simp add: unat_sub)
next
  case False
  then have "a < b" by simp
  have "uint (a - b) = (uint a - uint b) mod 2 ^ 64"
    by (simp add: uint_word_ariths)
  also have "\<dots> = uint a - uint b + 2 ^ 64"
  proof -
    have lt: "uint a < uint b" using \<open>a < b\<close> by (simp add: word_less_def)
    have bd: "0 \<le> uint a" "uint b < 2 ^ 64"
      using uint_bounded [of b] by simp_all
    have "(uint a - uint b) mod 2 ^ 64 = (uint a - uint b + 2 ^ 64) mod 2 ^ 64" by simp
    also have "\<dots> = uint a - uint b + 2 ^ 64"
      by (rule mod_pos_pos_trivial) (use lt bd in linarith)+
    finally show ?thesis .
  qed
  finally have "int (unat (a - b)) = int (unat a) - int (unat b) + 2 ^ 64"
    by simp
  moreover have "unat b < 2 ^ LENGTH(64)" by (rule unsigned_less)
  ultimately have "unat (a - b) + unat b = 2 ^ 64 + unat a" by (simp flip: of_nat_eq_iff [where 'a = int])
  then have "unat (a - b) = 2 ^ 64 + unat a - unat b" by linarith
  with False show ?thesis by (simp only: if_False)
qed

lemma unat_succ_u64 [clock_simps]:
  "unat (w :: u64) < 2 ^ 64 - 1 \<Longrightarrow> unat (w + 1) = Suc (unat w)"
  by (simp add: unat_word_ariths)

lemma unat_u64_less: "unat (x :: u64) < 2 ^ 64"
  using unsigned_less [of x] by simp

lemma unat_u8_less: "unat (x :: u8) < 256"
  using unsigned_less [of x] by simp

lemma of_nat_u64_inj:
  assumes "m < 2 ^ 64" and "n < 2 ^ 64" and "(of_nat m :: u64) = of_nat n"
  shows "m = n"
proof -
  have "unat (of_nat m :: u64) = m" "unat (of_nat n :: u64) = n"
    using assms(1,2) by (simp_all add: unat_of_nat)
  then show ?thesis using assms(3) by metis
qed

section \<open>Characters of the C locale\<close>

definition char_code :: "char \<Rightarrow> nat" where
  "char_code c = of_char c"

definition c_isspace :: "char \<Rightarrow> bool" where
  "c_isspace c = (let n = char_code c in n = 32 \<or> (9 \<le> n \<and> n \<le> 13))"

definition c_toupper :: "char \<Rightarrow> char" where
  "c_toupper c = (let n = char_code c in if 97 \<le> n \<and> n \<le> 122 then char_of (n - 32) else c)"

definition c_tolower :: "char \<Rightarrow> char" where
  "c_tolower c = (let n = char_code c in if 65 \<le> n \<and> n \<le> 90 then char_of (n + 32) else c)"

lemma char_code_less [simp]: "char_code c < 256"
  unfolding char_code_def by (cases c) simp

text \<open>Evaluates the code of a character literal only.\<close>

lemma char_code_Char [simp]:
  "char_code (Char b0 b1 b2 b3 b4 b5 b6 b7) = of_char (Char b0 b1 b2 b3 b4 b5 b6 b7)"
  by (simp add: char_code_def)

text \<open>What a C string holds of a \<open>std::string\<close>: the bytes before the first NUL.\<close>

definition c_str :: "string \<Rightarrow> string" where
  "c_str s = takeWhile (\<lambda>c. char_code c \<noteq> 0) s"

text \<open>\<open>std::string::find\<close> of one character.\<close>

fun find_char :: "char \<Rightarrow> string \<Rightarrow> nat option" where
  "find_char c [] = None"
| "find_char c (x # xs) = (if x = c then Some 0 else map_option Suc (find_char c xs))"

definition substr :: "nat \<Rightarrow> nat \<Rightarrow> string \<Rightarrow> string" where
  "substr pos n s = take n (drop pos s)"

lemma find_char_None [simp]: "find_char c s = None \<longleftrightarrow> c \<notin> set s"
  by (induction s) auto

lemma find_char_append: "c \<notin> set s \<Longrightarrow> find_char c (s @ c # r) = Some (length s)"
  by (induction s) auto

lemma find_char_Some:
  "find_char c s = Some n \<longleftrightarrow> n < length s \<and> s ! n = c \<and> c \<notin> set (take n s)"
proof (induction s arbitrary: n)
  case Nil
  then show ?case by simp
next
  case (Cons x s)
  then show ?case by (cases n) auto
qed

lemma split_at_unique:
  "c \<notin> set a \<Longrightarrow> c \<notin> set b \<Longrightarrow> a @ c # r = b @ c # r' \<longleftrightarrow> a = b \<and> r = r'"
  by (induction a arbitrary: b; case_tac b) auto

section \<open>Decimal integers\<close>

text \<open>
  \<open>dec_nat\<close> is what \<open>std::to_string\<close> and \<open>operator<<\<close> print for an unsigned integer,
  \<open>dec_int\<close> for a signed one.
\<close>

definition digit_char :: "nat \<Rightarrow> char" where
  "digit_char d = char_of (48 + d)"

definition is_digit :: "char \<Rightarrow> bool" where
  "is_digit c = (48 \<le> char_code c \<and> char_code c \<le> 57)"

definition digit_val :: "char \<Rightarrow> nat" where
  "digit_val c = char_code c - 48"

fun dec_nat :: "nat \<Rightarrow> string" where
  "dec_nat n = (if n < 10 then [digit_char n] else dec_nat (n div 10) @ [digit_char (n mod 10)])"

declare dec_nat.simps [simp del]

definition dec_int :: "int \<Rightarrow> string" where
  "dec_int i = (if i < 0 then CHR ''-'' # dec_nat (nat (- i)) else dec_nat (nat i))"

definition digits_val :: "string \<Rightarrow> nat" where
  "digits_val s = foldl (\<lambda>a c. 10 * a + digit_val c) 0 s"

lemma char_code_digit_char: "d < 10 \<Longrightarrow> char_code (digit_char d) = 48 + d"
  by (simp add: digit_char_def char_code_def)

lemma digit_val_char [simp]: "d < 10 \<Longrightarrow> digit_val (digit_char d) = d"
  by (simp add: digit_val_def char_code_digit_char)

lemma is_digit_char [simp]: "d < 10 \<Longrightarrow> is_digit (digit_char d)"
  by (simp add: is_digit_def char_code_digit_char)

lemma dec_nat_nonempty [simp]: "dec_nat n \<noteq> []"
  by (subst dec_nat.simps) simp

lemma dec_nat_digits: "c \<in> set (dec_nat n) \<Longrightarrow> is_digit c"
proof (induction n rule: dec_nat.induct)
  case (1 n)
  then show ?case by (cases "n < 10") (auto simp: dec_nat.simps [of n])
qed

lemma digits_val_snoc [simp]: "digits_val (s @ [c]) = 10 * digits_val s + digit_val c"
  by (simp add: digits_val_def)

lemma digits_val_dec_nat [simp]: "digits_val (dec_nat n) = n"
proof (induction n rule: dec_nat.induct)
  case (1 n)
  then show ?case
    by (cases "n < 10") (simp_all add: dec_nat.simps [of n] digits_val_def)
qed

lemma dec_nat_inj: "dec_nat m = dec_nat n \<Longrightarrow> m = n"
  by (metis digits_val_dec_nat)

section \<open>Dictionaries\<close>

lemma map_of_keys_ext:
  "distinct (map fst xs) \<Longrightarrow> map fst xs = map fst ys \<Longrightarrow> map_of xs = map_of ys \<Longrightarrow> xs = ys"
proof (rule nth_equalityI)
  assume keys: "map fst xs = map fst ys" and dist: "distinct (map fst xs)"
    and maps: "map_of xs = map_of ys"
  show len: "length xs = length ys" using keys by (rule map_eq_imp_length_eq)
  fix i assume i: "i < length xs"
  have fsts: "fst (xs ! i) = fst (ys ! i)"
    using keys i len by (metis nth_map)
  have "map_of xs (fst (xs ! i)) = Some (snd (xs ! i))"
    using dist i by simp
  moreover have "map_of ys (fst (ys ! i)) = Some (snd (ys ! i))"
    using dist keys i len by simp
  ultimately have "snd (xs ! i) = snd (ys ! i)"
    using maps fsts by simp
  with fsts show "xs ! i = ys ! i" by (rule prod_eqI)
qed

text \<open>
  The contract of a dictionary as the components use it: what a lookup returns after a
  store, and an invariant every store keeps.
\<close>

locale dictionary =
  fixes empty :: "'m"
    and put :: "'k \<Rightarrow> 'v \<Rightarrow> 'm \<Rightarrow> 'm"
    and find :: "'m \<Rightarrow> 'k \<Rightarrow> 'v option"
    and ok :: "'m \<Rightarrow> bool"
  assumes find_empty: "find empty k = None"
    and ok_empty: "ok empty"
    and find_put: "ok m \<Longrightarrow> find (put k v m) k' = (if k' = k then Some v else find m k')"
    and ok_put: "ok m \<Longrightarrow> ok (put k v m)"
begin

lemma ok_put_all: "ok m \<Longrightarrow> ok (fold (\<lambda>(k, v). put k v) kvs m)"
  by (induction kvs arbitrary: m) (auto simp: ok_put)

text \<open>The last store under a key wins; keys that are not stored keep their value.\<close>

lemma find_put_all:
  "ok m \<Longrightarrow>
   find (fold (\<lambda>(k, v). put k v) kvs m) k =
   (case map_of (rev kvs) k of None \<Rightarrow> find m k | Some v \<Rightarrow> Some v)"
proof (induction kvs arbitrary: m)
  case Nil
  then show ?case by simp
next
  case (Cons kv kvs)
  obtain k' v' where kv: "kv = (k', v')" by (cases kv)
  from Cons show ?case
    by (auto simp: kv find_put ok_put map_add_def split: option.splits)
qed

lemma find_put_all_untouched:
  "ok m \<Longrightarrow> k \<notin> fst ` set kvs \<Longrightarrow>
   find (fold (\<lambda>(k, v). put k v) kvs m) k = find m k"
  by (simp add: find_put_all map_of_eq_None_iff split: option.splits)
     (metis (no_types, lifting) image_iff map_of_eq_None_iff option.distinct(1) set_rev)

end

subsection \<open>The ordered map\<close>

text \<open>
  \<open>std::map\<close> iterates in key order: a sorted association list is the whole observable
  state, so two maps with the same contents are the same list.
\<close>

fun om_put :: "'k::linorder \<Rightarrow> 'v \<Rightarrow> ('k \<times> 'v) list \<Rightarrow> ('k \<times> 'v) list" where
  "om_put k v [] = [(k, v)]"
| "om_put k v ((a, b) # xs) =
     (if k < a then (k, v) # (a, b) # xs
      else if k = a then (k, v) # xs
      else (a, b) # om_put k v xs)"

definition om_sorted :: "('k::linorder \<times> 'v) list \<Rightarrow> bool" where
  "om_sorted xs \<longleftrightarrow> sorted_wrt (<) (map fst xs)"

lemma om_sorted_Nil [simp]: "om_sorted []"
  by (simp add: om_sorted_def)

lemma om_sorted_Cons [simp]:
  "om_sorted ((k, v) # xs) \<longleftrightarrow> (\<forall>a \<in> fst ` set xs. k < a) \<and> om_sorted xs"
  by (simp add: om_sorted_def)

lemma fst_set_om_put [simp]: "fst ` set (om_put k v xs) = insert k (fst ` set xs)"
  by (induction k v xs rule: om_put.induct) auto

lemma om_sorted_put [intro]: "om_sorted xs \<Longrightarrow> om_sorted (om_put k v xs)"
proof (induction k v xs rule: om_put.induct)
  case (1 k v)
  then show ?case by simp
next
  case (2 k v a b xs)
  then show ?case by (auto intro: less_trans)
qed

lemma map_of_om_put [simp]: "map_of (om_put k v xs) = (map_of xs)(k \<mapsto> v)" if "om_sorted xs" for xs
  using that by (induction k v xs rule: om_put.induct) (auto simp: fun_eq_iff)

lemma om_sorted_distinct: "om_sorted xs \<Longrightarrow> distinct (map fst xs)"
  by (simp add: om_sorted_def strict_sorted_iff)

text \<open>The representation is canonical.\<close>

lemma om_ext:
  assumes "om_sorted xs" and "om_sorted ys" and "map_of xs = map_of ys"
  shows "xs = ys"
proof -
  have "set (map fst xs) = set (map fst ys)"
    using assms(3) by (metis dom_map_of_conv_image_fst list.set_map)
  with assms have "map fst xs = map fst ys"
    by (simp add: om_sorted_def strict_sorted_equal)
  with assms show ?thesis
    by (intro map_of_keys_ext om_sorted_distinct)
qed

interpretation om: dictionary "[]" om_put map_of om_sorted
  by unfold_locales auto

subsection \<open>The unordered map\<close>

text \<open>
  \<open>std::unordered_map\<close> iterates in an order the language leaves open; the association
  list stands for one such order, and what depends on it is stated for every list.
\<close>

abbreviation um_ok :: "('k \<times> 'v) list \<Rightarrow> bool" where
  "um_ok xs \<equiv> distinct (map fst xs)"

interpretation um: dictionary "[]" AList.update map_of um_ok
  by unfold_locales (auto simp: update_conv' distinct_update)

end
