(* ===== verification/Result_Error.thy ===== *)
theory Result_Error
  imports Prelude
begin

text \<open>
  \<open>Result<T, E>\<close> (include/uaop/common/result.h) and \<open>Error\<close> (include/uaop/common/error.h):
  errors as values. \<open>value()\<close> and \<open>error()\<close> are \<open>noexcept\<close> and read the variant with
  \<open>std::get\<close>, so reading the wrong alternative ends the process: \<open>None\<close> here.
\<close>

section \<open>Error classes\<close>

datatype error_class = KTransient | KInvalid | KFatal

fun error_class_code :: "error_class \<Rightarrow> int" where
  "error_class_code KTransient = 0"
| "error_class_code KInvalid = 1"
| "error_class_code KFatal = 2"

record error =
  err_class :: error_class
  err_code :: string
  err_message :: string

definition mk_error :: "error_class \<Rightarrow> string \<Rightarrow> string \<Rightarrow> error" where
  "mk_error cls code message = \<lparr>err_class = cls, err_code = code, err_message = message\<rparr>"

definition Transient :: "string \<Rightarrow> string \<Rightarrow> error" where
  "Transient code message = mk_error KTransient code message"

definition Invalid :: "string \<Rightarrow> string \<Rightarrow> error" where
  "Invalid code message = mk_error KInvalid code message"

definition Fatal :: "string \<Rightarrow> string \<Rightarrow> error" where
  "Fatal code message = mk_error KFatal code message"

definition retryable :: "error \<Rightarrow> bool" where
  "retryable e \<longleftrightarrow> err_class e = KTransient"

lemma retryable_simps [simp]:
  "retryable (Transient c m)" "\<not> retryable (Invalid c m)" "\<not> retryable (Fatal c m)"
  by (simp_all add: retryable_def Transient_def Invalid_def Fatal_def mk_error_def)

lemma err_fields [simp]:
  "err_class (Transient c m) = KTransient" "err_class (Invalid c m) = KInvalid"
  "err_class (Fatal c m) = KFatal"
  "err_code (Transient c m) = c" "err_code (Invalid c m) = c" "err_code (Fatal c m) = c"
  "err_message (Transient c m) = m" "err_message (Invalid c m) = m" "err_message (Fatal c m) = m"
  by (simp_all add: Transient_def Invalid_def Fatal_def mk_error_def)

section \<open>Results\<close>

datatype ('t, 'e) result = Ok 't | Err 'e

fun result_ok :: "('t, 'e) result \<Rightarrow> bool" where
  "result_ok (Ok _) = True"
| "result_ok (Err _) = False"

fun result_value :: "('t, 'e) result \<Rightarrow> 't option" where
  "result_value (Ok v) = Some v"
| "result_value (Err _) = None"

fun result_error :: "('t, 'e) result \<Rightarrow> 'e option" where
  "result_error (Ok _) = None"
| "result_error (Err e) = Some e"

fun value_or :: "('t, 'e) result \<Rightarrow> 't \<Rightarrow> 't" where
  "value_or (Ok v) fallback = v"
| "value_or (Err _) fallback = fallback"

fun result_map :: "('t \<Rightarrow> 'u) \<Rightarrow> ('t, 'e) result \<Rightarrow> ('u, 'e) result" where
  "result_map fn (Ok v) = Ok (fn v)"
| "result_map fn (Err e) = Err e"

fun and_then :: "('t, 'e) result \<Rightarrow> ('t \<Rightarrow> ('u, 'e) result) \<Rightarrow> ('u, 'e) result" where
  "and_then (Ok v) fn = fn v"
| "and_then (Err e) fn = Err e"

text \<open>The guards \<open>ok()\<close> make the accessors safe, and exactly one of them is.\<close>

lemma result_value_iff: "result_value r \<noteq> None \<longleftrightarrow> result_ok r"
  by (cases r) auto

lemma result_error_iff: "result_error r \<noteq> None \<longleftrightarrow> \<not> result_ok r"
  by (cases r) auto

lemma result_ok_cases: "result_ok r \<longleftrightarrow> (\<exists>v. r = Ok v)"
  by (cases r) auto

section \<open>The composition laws\<close>

lemma and_then_ok_right [simp]: "and_then r Ok = r"
  by (cases r) auto

lemma and_then_assoc: "and_then (and_then r f) g = and_then r (\<lambda>x. and_then (f x) g)"
  by (cases r) auto

lemma result_map_and_then: "result_map f r = and_then r (\<lambda>x. Ok (f x))"
  by (cases r) auto

lemma and_then_split:
  "P (and_then r f) \<longleftrightarrow> (\<forall>v. r = Ok v \<longrightarrow> P (f v)) \<and> (\<forall>e. r = Err e \<longrightarrow> P (Err e))"
  by (cases r) auto

text \<open>A chain of steps that may fail, as a caller of \<open>and_then\<close> writes it.\<close>

fun and_then_all :: "('t \<Rightarrow> ('t, 'e) result) list \<Rightarrow> ('t, 'e) result \<Rightarrow> ('t, 'e) result" where
  "and_then_all [] r = r"
| "and_then_all (f # fs) r = and_then_all fs (and_then r f)"

lemma and_then_all_err [simp]: "and_then_all fs (Err e) = Err e"
  by (induction fs) auto

lemma and_then_all_append: "and_then_all (fs @ gs) r = and_then_all gs (and_then_all fs r)"
  by (induction fs arbitrary: r) auto

end
