(* ===== verification/Link_Monitor.thy ===== *)
theory Link_Monitor
  imports Result_Error
begin

text \<open>
  The service template (tools/service-template/src): the domain object \<open>LinkMonitor\<close>
  (domain/link_monitor.h), the port \<open>EventPublisher\<close> (ports/event_publisher.h) as a
  locale, the use case \<open>SuperviseLink\<close> (app/supervise_link.h) over any publisher, the
  adapter \<open>StdoutPublisher\<close> (adapters/stdout_publisher.h) that provides the port, and
  \<open>main\<close> (main.cpp).
\<close>

section \<open>Domain: the link monitor\<close>

datatype link_state = KNeverSeen | KAlive | KLost

fun link_code :: "link_state \<Rightarrow> int" where
  "link_code KNeverSeen = 0"
| "link_code KAlive = 1"
| "link_code KLost = 2"

record transition =
  t_from :: link_state
  t_to :: link_state
  t_changed :: bool

record link_monitor =
  timeout_ms :: u64
  last_seen_ms :: u64
  lm_state :: link_state

definition new_link_monitor :: "u64 \<Rightarrow> link_monitor" where
  "new_link_monitor timeout =
     \<lparr>timeout_ms = timeout, last_seen_ms = 0, lm_state = KNeverSeen\<rparr>"

definition transition_to :: "link_monitor \<Rightarrow> link_state \<Rightarrow> transition \<times> link_monitor" where
  "transition_to m next =
     (\<lparr>t_from = lm_state m, t_to = next, t_changed = (lm_state m \<noteq> next)\<rparr>,
      m\<lparr>lm_state := next\<rparr>)"

definition on_heartbeat ::
  "link_monitor \<Rightarrow> u64 \<Rightarrow> (transition, error) result \<times> link_monitor" where
  "on_heartbeat m now_ms =
     (if lm_state m \<noteq> KNeverSeen \<and> now_ms < last_seen_ms m
      then (Err (Invalid ''E_TIME_REGRESSION'' ''heartbeat timestamp precedes last seen''), m)
      else let m1 = m\<lparr>last_seen_ms := now_ms\<rparr>;
               (t, m2) = transition_to m1 KAlive
           in (Ok t, m2))"

definition on_tick :: "link_monitor \<Rightarrow> u64 \<Rightarrow> transition \<times> link_monitor" where
  "on_tick m now_ms =
     (if lm_state m = KAlive \<and> now_ms - last_seen_ms m > timeout_ms m
      then transition_to m KLost
      else (\<lparr>t_from = lm_state m, t_to = lm_state m, t_changed = False\<rparr>, m))"

lemmas monitor_defs = on_heartbeat_def on_tick_def transition_to_def Let_def

lemma on_heartbeat_frame [simp]: "timeout_ms (snd (on_heartbeat m now)) = timeout_ms m"
  by (simp add: monitor_defs)

lemma on_tick_frame [simp]:
  "timeout_ms (snd (on_tick m now)) = timeout_ms m"
  "last_seen_ms (snd (on_tick m now)) = last_seen_ms m"
  by (simp_all add: monitor_defs)

subsection \<open>Inputs, runs and the events they produce\<close>

datatype lm_input = Heartbeat u64 | Tick u64

fun lm_step :: "link_monitor \<Rightarrow> lm_input \<Rightarrow> (transition, error) result \<times> link_monitor" where
  "lm_step m (Heartbeat now) = on_heartbeat m now"
| "lm_step m (Tick now) = (let (t, m') = on_tick m now in (Ok t, m'))"

fun event_of :: "(transition, error) result \<Rightarrow> (link_state \<times> link_state) list" where
  "event_of (Ok t) = (if t_changed t then [(t_from t, t_to t)] else [])"
| "event_of (Err _) = []"

fun lm_run :: "link_monitor \<Rightarrow> lm_input list \<Rightarrow> (link_state \<times> link_state) list \<times> link_monitor" where
  "lm_run m [] = ([], m)"
| "lm_run m (i # is) =
     (let (r, m1) = lm_step m i; (evs, m2) = lm_run m1 is in (event_of r @ evs, m2))"

text \<open>The legal changes of the link, and the event logs that chain them.\<close>

inductive link_step :: "link_state \<Rightarrow> link_state \<Rightarrow> bool" where
  first_contact: "link_step KNeverSeen KAlive"
| timed_out: "link_step KAlive KLost"
| recovered: "link_step KLost KAlive"

inductive link_path :: "link_state \<Rightarrow> (link_state \<times> link_state) list \<Rightarrow> link_state \<Rightarrow> bool" where
  path_done: "link_path s [] s"
| path_step: "link_step s t \<Longrightarrow> link_path t evs u \<Longrightarrow> link_path s ((s, t) # evs) u"

declare link_step.intros [intro] link_path.intros [intro]
inductive_simps link_step_iff: "link_step s t"
inductive_simps link_path_Nil [simp]: "link_path s [] u"
inductive_simps link_path_Cons [simp]: "link_path s (e # evs) u"

lemma link_path_append:
  "link_path s xs t \<Longrightarrow> link_path t ys u \<Longrightarrow> link_path s (xs @ ys) u"
  by (induction rule: link_path.induct) auto

lemma lm_step_path:
  "lm_step m i = (r, m') \<Longrightarrow> link_path (lm_state m) (event_of r) (lm_state m')"
  by (cases i; cases "lm_state m") (auto simp: monitor_defs link_step_iff split: if_splits)

lemma lm_run_path: "lm_run m is = (evs, m') \<Longrightarrow> link_path (lm_state m) evs (lm_state m')"
  by (induction "is" arbitrary: m evs m')
     (auto split: prod.splits intro: link_path_append dest: lm_step_path)

lemma lm_run_append:
  "lm_run m (is @ js) =
     (let (e1, m1) = lm_run m is; (e2, m2) = lm_run m1 js in (e1 @ e2, m2))"
  by (induction "is" arbitrary: m) (auto split: prod.splits)

subsection \<open>Unsigned clock arithmetic\<close>

lemma elapsed_exact:
  "seen \<le> (now :: u64) \<Longrightarrow> now - seen > t \<longleftrightarrow> unat seen + unat t < unat now"
  by (auto simp: word_less_nat_alt word_le_nat_alt clock_simps)

lemma elapsed_wrapped:
  "(now :: u64) < seen \<Longrightarrow> now - seen > t \<longleftrightarrow> unat t + (unat seen - unat now) < 2 ^ 64"
  by (auto simp: word_less_nat_alt word_le_nat_alt clock_simps)

section \<open>Specification over ideal time\<close>

text \<open>
  What the monitor promises, over natural-number timestamps: never seen, alive since the
  last heartbeat, or lost. \<open>lm_abs\<close> reads the code's state as a state of it.
\<close>

datatype ideal_link = Never | Alive nat | Lost nat

fun ideal_heartbeat :: "ideal_link \<Rightarrow> nat \<Rightarrow> (link_state \<times> link_state) list option \<times> ideal_link" where
  "ideal_heartbeat Never now = (Some [(KNeverSeen, KAlive)], Alive now)"
| "ideal_heartbeat (Alive seen) now =
     (if now < seen then (None, Alive seen) else (Some [], Alive now))"
| "ideal_heartbeat (Lost seen) now =
     (if now < seen then (None, Lost seen) else (Some [(KLost, KAlive)], Alive now))"

fun ideal_tick :: "nat \<Rightarrow> ideal_link \<Rightarrow> nat \<Rightarrow> (link_state \<times> link_state) list \<times> ideal_link" where
  "ideal_tick timeout (Alive seen) now =
     (if seen + timeout < now then ([(KAlive, KLost)], Lost seen) else ([], Alive seen))"
| "ideal_tick timeout s now = ([], s)"

definition lm_abs :: "link_monitor \<Rightarrow> ideal_link" where
  "lm_abs m = (case lm_state m of
       KNeverSeen \<Rightarrow> Never
     | KAlive \<Rightarrow> Alive (unat (last_seen_ms m))
     | KLost \<Rightarrow> Lost (unat (last_seen_ms m)))"

lemma on_heartbeat_refines:
  "(case on_heartbeat m now of (r, m') \<Rightarrow>
      (case r of Ok t \<Rightarrow> Some (event_of r) | Err _ \<Rightarrow> None, lm_abs m')) =
   ideal_heartbeat (lm_abs m) (unat now)"
  by (cases "lm_state m") (auto simp: monitor_defs lm_abs_def word_less_nat_alt)

lemma on_tick_refines:
  "lm_state m = KAlive \<longrightarrow> last_seen_ms m \<le> now \<Longrightarrow>
   (case on_tick m now of (t, m') \<Rightarrow> (event_of (Ok t :: (transition, error) result), lm_abs m')) =
   ideal_tick (unat (timeout_ms m)) (lm_abs m) (unat now)"
  by (cases "lm_state m") (auto simp: monitor_defs lm_abs_def elapsed_exact)

fun input_time :: "lm_input \<Rightarrow> u64" where
  "input_time (Heartbeat now) = now"
| "input_time (Tick now) = now"

fun ideal_step :: "nat \<Rightarrow> ideal_link \<Rightarrow> lm_input \<Rightarrow> (link_state \<times> link_state) list \<times> ideal_link" where
  "ideal_step timeout s (Heartbeat now) =
     (case ideal_heartbeat s (unat now) of (Some ev, s') \<Rightarrow> (ev, s') | (None, s') \<Rightarrow> ([], s'))"
| "ideal_step timeout s (Tick now) = ideal_tick timeout s (unat now)"

fun ideal_run :: "nat \<Rightarrow> ideal_link \<Rightarrow> lm_input list \<Rightarrow> (link_state \<times> link_state) list \<times> ideal_link" where
  "ideal_run timeout s [] = ([], s)"
| "ideal_run timeout s (i # is) =
     (let (ev, s1) = ideal_step timeout s i; (evs, s2) = ideal_run timeout s1 is in (ev @ evs, s2))"

lemma lm_step_refines:
  assumes "last_seen_ms m \<le> input_time i"
  shows "(case lm_step m i of (r, m') \<Rightarrow> (event_of r, lm_abs m')) =
    ideal_step (unat (timeout_ms m)) (lm_abs m) i"
proof (cases i)
  case (Heartbeat now)
  show ?thesis
    using on_heartbeat_refines [of m now]
    by (auto simp: Heartbeat split: prod.splits result.splits)
next
  case (Tick now)
  show ?thesis
    using on_tick_refines [of m now] assms by (auto simp: Tick split: prod.splits)
qed

lemma lm_step_frame:
  assumes "last_seen_ms m \<le> input_time i"
  shows "timeout_ms (snd (lm_step m i)) = timeout_ms m \<and> last_seen_ms (snd (lm_step m i)) \<le> input_time i"
  using assms by (cases i) (auto simp: monitor_defs split: prod.splits)

text \<open>
  C1. Refinement: under a clock that never runs back, whatever heartbeats and ticks arrive,
  the code, with its 64-bit unsigned arithmetic, reports exactly the events of the
  specification over unbounded time and ends in the state it prescribes.
\<close>

theorem link_monitor_refines_ideal:
  assumes "sorted (map input_time is)" and "\<forall>i \<in> set is. last_seen_ms m \<le> input_time i"
  shows "(case lm_run m is of (events, m') \<Rightarrow> (events, lm_abs m')) =
         ideal_run (unat (timeout_ms m)) (lm_abs m) is"
  using assms
proof (induction "is" arbitrary: m)
  case Nil
  then show ?case by simp
next
  case (Cons i "is")
  obtain r m' where step: "lm_step m i = (r, m')" by fastforce
  have le: "last_seen_ms m \<le> input_time i" using Cons.prems(2) by simp
  have frame: "timeout_ms m' = timeout_ms m" "last_seen_ms m' \<le> input_time i"
    using lm_step_frame [OF le] step by simp_all
  have "\<forall>j \<in> set is. last_seen_ms m' \<le> input_time j"
    using Cons.prems(1) frame(2) by (auto intro: order_trans)
  then have "(case lm_run m' is of (events, m'') \<Rightarrow> (events, lm_abs m'')) =
      ideal_run (unat (timeout_ms m)) (lm_abs m') is"
    using Cons.IH [of m'] Cons.prems(1) frame(1) by simp
  then show ?case
    using lm_step_refines [OF le] step by (auto split: prod.splits)
qed

theorem link_monitor_refines_ideal_witness:
  "(case lm_run (new_link_monitor 3000) [Heartbeat 1000, Tick 4000, Tick 4001, Heartbeat 5000] of
      (events, m') \<Rightarrow> (events, lm_abs m')) =
   ([(KNeverSeen, KAlive), (KAlive, KLost), (KLost, KAlive)], Alive 5000)"
proof -
  have "(case lm_run (new_link_monitor 3000) [Heartbeat 1000, Tick 4000, Tick 4001, Heartbeat 5000] of
      (events, m') \<Rightarrow> (events, lm_abs m')) =
    ideal_run (unat (timeout_ms (new_link_monitor 3000))) (lm_abs (new_link_monitor 3000))
      [Heartbeat 1000, Tick 4000, Tick 4001, Heartbeat 5000]"
    by (rule link_monitor_refines_ideal) (simp_all add: new_link_monitor_def)
  also have "\<dots> = ([(KNeverSeen, KAlive), (KAlive, KLost), (KLost, KAlive)], Alive 5000)"
    by (simp add: new_link_monitor_def lm_abs_def)
  finally show ?thesis .
qed



text \<open>
  Over any sequence of heartbeats and ticks, whatever the clock readings, the changes
  reported chain from the state before the run to the state after it, and each is a first
  contact, a timeout or a recovery: no change is skipped, repeated or out of order.
\<close>

theorem link_events_chain:
  "link_path (lm_state m) (fst (lm_run m is)) (lm_state (snd (lm_run m is)))"
  by (rule lm_run_path) simp

subsection \<open>Silence\<close>

lemma quiet_ticks:
  "lm_state m \<noteq> KAlive \<Longrightarrow> lm_run m (map Tick ts) = ([], m)"
  by (induction ts) (simp_all add: monitor_defs)

lemma silence:
  "lm_state m = KAlive \<Longrightarrow> \<forall>t \<in> set ts. last_seen_ms m \<le> t \<Longrightarrow>
   lm_run m (map Tick ts) =
     (if \<exists>t \<in> set ts. unat (last_seen_ms m) + unat (timeout_ms m) < unat t
      then ([(KAlive, KLost)], m\<lparr>lm_state := KLost\<rparr>) else ([], m))"
proof (induction ts)
  case Nil
  then show ?case by simp
next
  case (Cons t ts)
  then show ?case
    by (auto simp: monitor_defs elapsed_exact quiet_ticks)
qed

text \<open>
  On a live link, a run of ticks with no heartbeat reports exactly one loss when one of
  the readings is past the timeout, and nothing otherwise, however many ticks follow.
\<close>

theorem silence_is_lost_exactly_once:
  assumes "lm_state m = KAlive" and "\<forall>t \<in> set ts. last_seen_ms m \<le> t"
  shows "fst (lm_run m (map Tick ts)) =
         (if \<exists>t \<in> set ts. unat (last_seen_ms m) + unat (timeout_ms m) < unat t
          then [(KAlive, KLost)] else [])"
  using silence [OF assms] by simp

theorem silence_is_lost_exactly_once_witness:
  "fst (lm_run \<lparr>timeout_ms = 3000, last_seen_ms = 2000, lm_state = KAlive\<rparr>
         (map Tick [3000, 4000, 5000, 6000, 7000])) = [(KAlive, KLost)]"
  using silence_is_lost_exactly_once
    [of "\<lparr>timeout_ms = 3000, last_seen_ms = 2000, lm_state = KAlive\<rparr>"
        "[3000, 4000, 5000, 6000, 7000]"]
  by simp

end
