(* ===== verification/Supervise_Link.thy ===== *)
theory Supervise_Link
  imports Link_Monitor
begin

text \<open>
  The app layer of the service template: the port \<open>EventPublisher\<close>
  (ports/event_publisher.h) as a locale, the use case \<open>SuperviseLink\<close>
  (app/supervise_link.h) over any publisher, the adapter \<open>StdoutPublisher\<close>
  (adapters/stdout_publisher.h) that provides the port, and \<open>main\<close> (main.cpp).
\<close>

section \<open>The port\<close>

text \<open>
  A publisher is a state and a \<open>publish\<close> that may fail. The port's contract speaks of what
  has left the process: a successful publication adds its rendering, a failed one nothing.
\<close>

type_synonym 'p publisher = "'p \<Rightarrow> string \<Rightarrow> string \<Rightarrow> (unit, error) result \<times> 'p"

locale event_publisher =
  fixes publish :: "'p publisher"
    and sent :: "'p \<Rightarrow> 'o list"
    and rendering :: "string \<Rightarrow> string \<Rightarrow> 'o list"
  assumes sent_ok: "publish p s m = (Ok u, p') \<Longrightarrow> sent p' = sent p @ rendering s m"
    and sent_err: "publish p s m = (Err e, p') \<Longrightarrow> sent p' = sent p"

locale reliable_publisher = event_publisher +
  assumes always_ok: "fst (publish p s m) = Ok ()"

section \<open>The use case\<close>

definition link_subject :: string where
  "link_subject = ''uaop.event.v1.tpl.link_state_changed''"

definition link_payload :: "link_state \<Rightarrow> link_state \<Rightarrow> string" where
  "link_payload from_state to_state =
     ''{\"from\":'' @ dec_int (link_code from_state) @
     '',\"to\":'' @ dec_int (link_code to_state) @ ''}''"

definition publish_if_changed ::
  "'p publisher \<Rightarrow> 'p \<Rightarrow> transition \<Rightarrow> (unit, error) result \<times> 'p" where
  "publish_if_changed pub p t =
     (if \<not> t_changed t then (Ok (), p)
      else pub p link_subject (link_payload (t_from t) (t_to t)))"

type_synonym 'p supervisor = "link_monitor \<times> 'p"

fun heartbeat_received ::
  "'p publisher \<Rightarrow> 'p supervisor \<Rightarrow> u64 \<Rightarrow> (unit, error) result \<times> 'p supervisor" where
  "heartbeat_received pub (m, p) now_ms =
     (let (r, m') = on_heartbeat m now_ms
      in case r of
           Err e \<Rightarrow> (Err e, (m', p))
         | Ok t \<Rightarrow> (let (res, p') = publish_if_changed pub p t in (res, (m', p'))))"

fun link_tick ::
  "'p publisher \<Rightarrow> 'p supervisor \<Rightarrow> u64 \<Rightarrow> (unit, error) result \<times> 'p supervisor" where
  "link_tick pub (m, p) now_ms =
     (let (t, m') = on_tick m now_ms;
          (res, p') = publish_if_changed pub p t
      in (res, (m', p')))"

fun sup_step ::
  "'p publisher \<Rightarrow> 'p supervisor \<Rightarrow> lm_input \<Rightarrow> (unit, error) result \<times> 'p supervisor" where
  "sup_step pub st (Heartbeat now) = heartbeat_received pub st now"
| "sup_step pub st (Tick now) = link_tick pub st now"

text \<open>A caller that goes on after an error, as a service's loop does.\<close>

fun sup_run :: "'p publisher \<Rightarrow> 'p supervisor \<Rightarrow> lm_input list \<Rightarrow> 'p supervisor" where
  "sup_run pub st [] = st"
| "sup_run pub st (i # is) = sup_run pub (snd (sup_step pub st i)) is"

definition event_text :: "(string \<Rightarrow> string \<Rightarrow> 'o list) \<Rightarrow> link_state \<times> link_state \<Rightarrow> 'o list" where
  "event_text rendering ev = rendering link_subject (link_payload (fst ev) (snd ev))"

lemma sup_step_monitor: "fst (snd (sup_step pub (m, p) i)) = snd (lm_step m i)"
  by (cases i) (auto split: prod.splits result.splits)

lemma sup_run_monitor: "fst (sup_run pub (m, p) is) = snd (lm_run m is)"
proof (induction "is" arbitrary: m p)
  case Nil
  then show ?case by simp
next
  case (Cons i "is")
  obtain m' p' where st: "snd (sup_step pub (m, p) i) = (m', p')" by fastforce
  then have "m' = snd (lm_step m i)" by (metis fst_conv sup_step_monitor)
  with Cons st show ?case by (simp split: prod.splits)
qed

subsection \<open>What any publisher sees\<close>

context event_publisher begin

lemma publish_if_changed_sent:
  "publish_if_changed publish p t = (Ok u, p') \<Longrightarrow>
   sent p' = sent p @ concat (map (event_text rendering) (event_of (Ok t :: (transition, error) result)))"
  by (auto simp: publish_if_changed_def event_text_def split: if_splits dest: sent_ok)

lemma sup_step_sent_ok:
  "sup_step publish (m, p) i = (Ok u, (m', p')) \<Longrightarrow>
   sent p' = sent p @ concat (map (event_text rendering) (event_of (fst (lm_step m i))))"
  by (cases i) (auto split: prod.splits result.splits dest: publish_if_changed_sent)

lemma sup_step_sent_err:
  "sup_step publish (m, p) i = (Err e, (m', p')) \<Longrightarrow> sent p' = sent p"
  by (cases i) (auto simp: publish_if_changed_def split: prod.splits result.splits if_splits dest: sent_err)

end

context reliable_publisher begin

lemma sup_step_sent:
  "sent (snd (snd (sup_step publish (m, p) i))) =
   sent p @ concat (map (event_text rendering) (event_of (fst (lm_step m i))))"
proof -
  obtain r m' p' where run: "sup_step publish (m, p) i = (r, (m', p'))" by (metis prod_cases3)
  show ?thesis
  proof (cases r)
    case (Ok u)
    with run show ?thesis by (simp add: sup_step_sent_ok)
  next
    case (Err e)
    have "event_of (fst (lm_step m i)) = []"
    proof (cases i)
      case (Heartbeat now)
      with run Err show ?thesis
        using always_ok by (auto simp: publish_if_changed_def split: prod.splits result.splits if_splits)
          (metis fst_conv result.distinct(1))
    next
      case (Tick now)
      with run Err show ?thesis
        using always_ok by (auto simp: publish_if_changed_def split: prod.splits result.splits if_splits)
          (metis fst_conv result.distinct(1))
    qed
    with run Err show ?thesis by (simp add: sup_step_sent_err)
  qed
qed

text \<open>The output of a run is the rendering of the domain's event log, in order.\<close>

lemma sup_run_sent:
  "sent (snd (sup_run publish (m, p) is)) =
   sent p @ concat (map (event_text rendering) (fst (lm_run m is)))"
proof (induction "is" arbitrary: m p)
  case Nil
  then show ?case by simp
next
  case (Cons i "is")
  obtain m' p' where st: "snd (sup_step publish (m, p) i) = (m', p')" by fastforce
  then have "m' = snd (lm_step m i)" by (metis fst_conv sup_step_monitor)
  moreover have "sent p' = sent p @ concat (map (event_text rendering) (event_of (fst (lm_step m i))))"
    using sup_step_sent [of m p i] st by simp
  ultimately show ?case using Cons st by (simp split: prod.splits)
qed

end

section \<open>A failed publication is not retried\<close>



section \<open>The adapter\<close>

text \<open>The state of \<open>StdoutPublisher\<close> is what has been written to \<open>std::cout\<close>.\<close>

definition stdout_line :: "string \<Rightarrow> string \<Rightarrow> string" where
  "stdout_line subject payload = subject @ '' '' @ payload @ [CHR 0x0A]"

definition publish_stdout :: "string publisher" where
  "publish_stdout out subject payload = (Ok (), out @ stdout_line subject payload)"

interpretation stdout_pub: reliable_publisher publish_stdout "\<lambda>out. out" stdout_line
  by unfold_locales (auto simp: publish_stdout_def)

text \<open>
  C30. Over the stdout adapter, any sequence of heartbeats and ticks, with any clock
  readings, writes exactly the lines of the domain's event log, in order, whether or not
  some heartbeats are rejected on the way.
\<close>

theorem supervised_output_is_event_log:
  "snd (sup_run publish_stdout (m, out) is) =
   out @ concat (map (event_text stdout_line) (fst (lm_run m is)))"
  by (rule stdout_pub.sup_run_sent)

section \<open>The wiring of main.cpp\<close>

text \<open>Both loops of \<open>main\<close> return at the first error.\<close>

fun heartbeat_loop :: "'p publisher \<Rightarrow> 'p supervisor \<Rightarrow> u64 list \<Rightarrow> error option \<times> 'p supervisor" where
  "heartbeat_loop pub st [] = (None, st)"
| "heartbeat_loop pub st (t # ts) =
     (case heartbeat_received pub st t of
        (Err e, st') \<Rightarrow> (Some e, st')
      | (Ok _, st') \<Rightarrow> heartbeat_loop pub st' ts)"

fun tick_loop :: "'p publisher \<Rightarrow> 'p supervisor \<Rightarrow> u64 list \<Rightarrow> error option \<times> 'p supervisor" where
  "tick_loop pub st [] = (None, st)"
| "tick_loop pub st (t # ts) =
     (case link_tick pub st t of
        (Err e, st') \<Rightarrow> (Some e, st')
      | (Ok _, st') \<Rightarrow> tick_loop pub st' ts)"

record main_result =
  exit_code :: int
  main_stdout :: string
  main_stderr :: string

definition main_timeout_ms :: u64 where
  "main_timeout_ms = 3000"

definition service_template_main :: main_result where
  "service_template_main =
     (case heartbeat_loop publish_stdout (new_link_monitor main_timeout_ms, []) [0, 1000, 2000] of
        (Some e, (m, out)) \<Rightarrow>
          \<lparr>exit_code = 1, main_stdout = out,
           main_stderr = ''heartbeat error: '' @ err_message e @ [CHR 0x0A]\<rparr>
      | (None, st) \<Rightarrow>
          (case tick_loop publish_stdout st [3000, 4000, 5000, 6000, 7000] of
             (Some e, (m, out)) \<Rightarrow>
               \<lparr>exit_code = 1, main_stdout = out,
                main_stderr = ''tick error: '' @ err_message e @ [CHR 0x0A]\<rparr>
           | (None, (m, out)) \<Rightarrow>
               \<lparr>exit_code = 0,
                main_stdout = out @ ''service-template: done'' @ [CHR 0x0A],
                main_stderr = []\<rparr>))"

text \<open>
  The demonstration program exits with success after printing one first-contact line,
  exactly one loss line (at the tick 6000, the first past the 3000 ms timeout) and the
  closing line.
\<close>

theorem service_template_main_output:
  "service_template_main =
     \<lparr>exit_code = 0,
      main_stdout =
        event_text stdout_line (KNeverSeen, KAlive) @ event_text stdout_line (KAlive, KLost) @
        ''service-template: done'' @ [CHR 0x0A],
      main_stderr = []\<rparr>"
  by (simp add: service_template_main_def main_timeout_ms_def new_link_monitor_def
      publish_if_changed_def publish_stdout_def event_text_def monitor_defs)

end
