(* ===== verification/Sequence.thy ===== *)
theory Sequence
  imports Prelude
begin

text \<open>
  Sequence numbers (include/uaop/common/sequence.h): \<open>SequenceCounter\<close>, one atomic 64-bit
  counter, and \<open>KeyedSequenceCounter\<close>, one counter per key under a mutex. Both calls are
  atomic, so the calls of any number of threads are one list of calls in the order they
  take effect, and what holds for every list holds for every interleaving.
\<close>

section \<open>The contract\<close>

text \<open>Draw \<open>n\<close> numbers one after the other.\<close>

fun draw :: "('s \<Rightarrow> u64 \<times> 's) \<Rightarrow> nat \<Rightarrow> 's \<Rightarrow> u64 list \<times> 's" where
  "draw next 0 s = ([], s)"
| "draw next (Suc n) s =
     (let (r, s1) = next s; (rs, s2) = draw next n s1 in (r # rs, s2))"

locale monotone_source =
  fixes "next" :: "'s \<Rightarrow> u64 \<times> 's"
    and current :: "'s \<Rightarrow> u64"
  assumes next_result: "next s = (r, s') \<Longrightarrow> r = current s + 1"
    and next_current: "next s = (r, s') \<Longrightarrow> current s' = r"
begin

lemma draw_results:
  "fst (draw next n s) = map (\<lambda>i. current s + of_nat (Suc i)) [0..<n]"
proof (induction n arbitrary: s)
  case 0
  then show ?case by simp
next
  case (Suc n)
  obtain r s1 where step: "next s = (r, s1)" by fastforce
  then have cur: "current s1 = current s + 1"
    using next_result next_current by simp
  have "map (\<lambda>i. current s + of_nat (Suc i)) [0..<Suc n] =
        (current s + 1) # map (\<lambda>i. current s1 + of_nat (Suc i)) [0..<n]"
    by (simp add: cur upt_conv_Cons map_Suc_upt [symmetric] algebra_simps del: upt_Suc)
  then show ?case
    using Suc.IH [of s1] step next_result [OF step] by (simp add: split_beta del: upt_Suc)
qed

lemma draw_unat:
  assumes "unat (current s) + n < 2 ^ 64" and "i < n"
  shows "unat (fst (draw next n s) ! i) = unat (current s) + Suc i"
proof -
  have "unat (current s + of_nat (Suc i)) = (unat (current s) + Suc i) mod 2 ^ 64"
    by (simp add: unat_word_ariths unat_of_nat mod_simps)
  with assms show ?thesis by (simp add: draw_results)
qed

lemma draw_distinct:
  assumes "n \<le> 2 ^ 64"
  shows "distinct (fst (draw next n s))"
proof -
  have "inj_on (\<lambda>i. current s + of_nat (Suc i)) {0..<n}"
  proof (rule inj_onI)
    fix i j assume ij: "i \<in> {0..<n}" "j \<in> {0..<n}"
      and "current s + of_nat (Suc i) = current s + of_nat (Suc j)"
    then have "(of_nat i :: u64) = of_nat j" by simp
    with ij assms show "i = j" by (intro of_nat_u64_inj) auto
  qed
  then show ?thesis by (simp add: draw_results distinct_map)
qed

end

section \<open>One counter\<close>

type_synonym sequence_counter = u64

definition new_sequence_counter :: sequence_counter where
  "new_sequence_counter = 0"

text \<open>\<open>fetch_add(1) + 1\<close>: the value before the addition, plus one.\<close>

definition seq_next :: "sequence_counter \<Rightarrow> u64 \<times> sequence_counter" where
  "seq_next c = (let old = c; c' = c + 1 in (old + 1, c'))"

definition seq_current :: "sequence_counter \<Rightarrow> u64" where
  "seq_current c = c"

interpretation seq: monotone_source seq_next seq_current
  by unfold_locales (auto simp: seq_next_def seq_current_def)

text \<open>
  A fresh counter hands out 1, 2, 3, ... with no gap, up to 2^64 - 1 calls, and no two
  of its first 2^64 calls return the same number.
\<close>

theorem sequence_counter_monotone:
  assumes "n < 2 ^ 64"
  shows "map unat (fst (draw seq_next n new_sequence_counter)) = [1..<Suc n] \<and>
         distinct (fst (draw seq_next n new_sequence_counter))"
proof (intro conjI nth_equalityI)
  have len: "length (fst (draw seq_next n new_sequence_counter)) = n"
    by (simp add: seq.draw_results)
  then show "length (map unat (fst (draw seq_next n new_sequence_counter))) = length [1..<Suc n]"
    by simp
  show "distinct (fst (draw seq_next n new_sequence_counter))"
    using assms by (intro seq.draw_distinct) simp
  fix i assume "i < length (map unat (fst (draw seq_next n new_sequence_counter)))"
  then have "i < n" using len by simp
  then show "map unat (fst (draw seq_next n new_sequence_counter)) ! i = [1..<Suc n] ! i"
    using seq.draw_unat [of new_sequence_counter n i] assms len
    by (simp add: new_sequence_counter_def seq_current_def del: upt_Suc)
qed

theorem sequence_counter_monotone_witness:
  "map unat (fst (draw seq_next 3 new_sequence_counter)) = [1, 2, 3]"
  using sequence_counter_monotone [of 3] by (simp add: upt_rec)

text \<open>
  The counter wraps: the call after 2^64 - 1 returns 0, the value the header reserves
  for "no sequence assigned yet".
\<close>

theorem sequence_counter_wraps_to_reserved:
  "fst (seq_next c) = 0 \<longleftrightarrow> c = 18446744073709551615"
proof -
  have "c + 1 = 0 \<longleftrightarrow> c = - 1" by (simp only: eq_neg_iff_add_eq_0)
  moreover have "(- 1 :: u64) = 18446744073709551615" by simp
  moreover have "fst (seq_next c) = c + 1" by (simp add: seq_next_def)
  ultimately show ?thesis by (simp only:)
qed

section \<open>One counter per key\<close>

type_synonym keyed_counter = "string \<Rightarrow> sequence_counter option"

definition keyed_current :: "keyed_counter \<Rightarrow> string \<Rightarrow> u64" where
  "keyed_current m key = (case m key of None \<Rightarrow> new_sequence_counter | Some c \<Rightarrow> c)"

text \<open>\<open>counters_[key]\<close> inserts a fresh counter for a key that is not there.\<close>

definition keyed_next :: "keyed_counter \<Rightarrow> string \<Rightarrow> u64 \<times> keyed_counter" where
  "keyed_next m key =
     (let c = (case m key of None \<Rightarrow> new_sequence_counter | Some c \<Rightarrow> c);
          (r, c') = seq_next c
      in (r, m(key \<mapsto> c')))"

interpretation keyed: monotone_source "\<lambda>m. keyed_next m key" "\<lambda>m. keyed_current m key" for key
  by unfold_locales (auto simp: keyed_next_def keyed_current_def seq_next_def Let_def)

lemma keyed_next_current:
  "keyed_current (snd (keyed_next m key)) key' =
   (if key' = key then keyed_current m key + 1 else keyed_current m key')"
  by (simp add: keyed_next_def keyed_current_def seq_next_def Let_def)

lemma keyed_next_result: "fst (keyed_next m key) = keyed_current m key + 1"
  by (simp add: keyed_next_def keyed_current_def seq_next_def Let_def)

fun keyed_run :: "keyed_counter \<Rightarrow> string list \<Rightarrow> u64 list" where
  "keyed_run m [] = []"
| "keyed_run m (key # ks) = (let (r, m') = keyed_next m key in r # keyed_run m' ks)"

lemma length_keyed_run [simp]: "length (keyed_run m ks) = length ks"
  by (induction ks arbitrary: m) (auto simp: split_beta)

lemma keyed_run_nth:
  "i < length ks \<Longrightarrow>
   keyed_run m ks ! i = keyed_current m (ks ! i) + of_nat (count_list (take (Suc i) ks) (ks ! i))"
proof (induction ks arbitrary: m i)
  case Nil
  then show ?case by simp
next
  case (Cons key ks)
  show ?case
  proof (cases i)
    case 0
    then show ?thesis by (simp add: split_beta keyed_next_result)
  next
    case (Suc j)
    with Cons show ?thesis
      by (simp add: split_beta keyed_next_current algebra_simps)
  qed
qed

text \<open>
  Whatever the interleaving of the calls, the i-th call returns the number of calls so
  far with its key, its own included (as a 64-bit value): each key counts 1, 2, 3, ...
  and no key sees another.
\<close>

theorem keyed_counter_counts_per_key:
  assumes "i < length ks"
  shows "keyed_run Map.empty ks ! i = of_nat (count_list (take (Suc i) ks) (ks ! i))"
  using keyed_run_nth [OF assms, of Map.empty]
  by (simp add: keyed_current_def new_sequence_counter_def)

theorem keyed_counter_counts_per_key_witness:
  "keyed_run Map.empty [''veh-01'', ''veh-01'', ''veh-02'', ''veh-01''] ! 3 = 3"
  using keyed_counter_counts_per_key [of 3 "[''veh-01'', ''veh-01'', ''veh-02'', ''veh-01'']"]
  by simp

text \<open>The results of one key are those of its own calls alone.\<close>

lemma keyed_run_cong:
  "keyed_current m key = keyed_current m' key \<Longrightarrow> set ks \<subseteq> {key} \<Longrightarrow>
   keyed_run m ks = keyed_run m' ks"
proof (induction ks arbitrary: m m')
  case Nil
  then show ?case by simp
next
  case (Cons k ks)
  then have "keyed_run (snd (keyed_next m k)) ks = keyed_run (snd (keyed_next m' k)) ks"
    by (intro Cons.IH) (auto simp: keyed_next_current)
  with Cons.prems show ?case by (simp add: split_beta keyed_next_result)
qed

text \<open>
  Interleaving independence: the numbers a key receives in a run of calls with many
  keys are the numbers it would receive if only its own calls were made.
\<close>

theorem keyed_counter_isolation:
  "map snd (filter (\<lambda>(k, r). k = key) (zip ks (keyed_run m ks))) =
   keyed_run m (filter (\<lambda>k. k = key) ks)"
proof (induction ks arbitrary: m)
  case Nil
  then show ?case by simp
next
  case (Cons k ks)
  have "keyed_run (snd (keyed_next m k)) (filter (\<lambda>k. k = key) ks) =
        keyed_run m (filter (\<lambda>k. k = key) ks)" if "k \<noteq> key"
    using that by (intro keyed_run_cong [of _ key]) (auto simp: keyed_next_current)
  with Cons show ?case by (auto simp: split_beta)
qed

end
