(* ===== verification/Uuid.thy ===== *)
theory Uuid
  imports Prelude
begin

unbundle bit_operations_syntax

text \<open>
  UUIDv7 generation (include/uaop/common/uuid.h). The clock reading (milliseconds since
  the epoch) and the two draws of the random generator are arguments.
\<close>

section \<open>The generator\<close>

definition uuid_rand_a :: "u64 \<Rightarrow> u64" where
  "uuid_rand_a r = r AND 0x0FFF"

definition uuid_rand_b :: "u64 \<Rightarrow> u64" where
  "uuid_rand_b r = r AND 0x3FFFFFFFFFFFFFFF"

definition uuid_bytes :: "u64 \<Rightarrow> u64 \<Rightarrow> u64 \<Rightarrow> u8 list" where
  "uuid_bytes ms r1 r2 =
     (let rand_a = uuid_rand_a r1; rand_b = uuid_rand_b r2 in
      [ucast (drop_bit 40 ms AND 0xFF),
       ucast (drop_bit 32 ms AND 0xFF),
       ucast (drop_bit 24 ms AND 0xFF),
       ucast (drop_bit 16 ms AND 0xFF),
       ucast (drop_bit 8 ms AND 0xFF),
       ucast (ms AND 0xFF),
       ucast (0x70 OR (drop_bit 8 rand_a AND 0x0F)),
       ucast (rand_a AND 0xFF),
       ucast (0x80 OR (drop_bit 56 rand_b AND 0x3F)),
       ucast (drop_bit 48 rand_b AND 0xFF),
       ucast (drop_bit 40 rand_b AND 0xFF),
       ucast (drop_bit 32 rand_b AND 0xFF),
       ucast (drop_bit 24 rand_b AND 0xFF),
       ucast (drop_bit 16 rand_b AND 0xFF),
       ucast (drop_bit 8 rand_b AND 0xFF),
       ucast (rand_b AND 0xFF)])"

definition k_hex :: string where
  "k_hex = ''0123456789abcdef''"

definition hex_digit :: "u8 \<Rightarrow> char" where
  "hex_digit n = k_hex ! unat n"

definition hex_pair :: "u8 \<Rightarrow> string" where
  "hex_pair b = [hex_digit (drop_bit 4 b AND 0x0F), hex_digit (b AND 0x0F)]"

fun uuid_loop :: "nat \<Rightarrow> u8 list \<Rightarrow> string" where
  "uuid_loop i [] = []"
| "uuid_loop i (b # bs) =
     (if i = 4 \<or> i = 6 \<or> i = 8 \<or> i = 10 then ''-'' else []) @ hex_pair b @ uuid_loop (Suc i) bs"

definition uuid_v7 :: "u64 \<Rightarrow> u64 \<Rightarrow> u64 \<Rightarrow> string" where
  "uuid_v7 ms r1 r2 = uuid_loop 0 (uuid_bytes ms r1 r2)"

section \<open>Bytes as numbers\<close>

text \<open>\<open>be n x\<close>: the \<open>n\<close> low bytes of \<open>x\<close>, most significant first.\<close>

fun be :: "nat \<Rightarrow> nat \<Rightarrow> nat list" where
  "be 0 x = []"
| "be (Suc n) x = (x div 256 ^ n mod 256) # be n x"

lemma length_be [simp]: "length (be n x) = n"
  by (induction n) auto

lemma be_numeral:
  "be (numeral v) x = (x div 256 ^ pred_numeral v mod 256) # be (pred_numeral v) x"
  by (simp only: numeral_eq_Suc [of v] be.simps)

lemma be_split: "z mod 256 ^ Suc n = 256 ^ n * (z div 256 ^ n mod 256) + z mod 256 ^ n" for z :: nat
  using mod_mult2_eq [of z "256 ^ n" 256] by (simp add: mult.commute)

lemma be_less: "x mod 256 ^ n < y mod 256 ^ n \<Longrightarrow> be n x < be n y"
proof (induction n)
  case 0
  then show ?case by simp
next
  case (Suc n)
  let ?hx = "x div 256 ^ n mod 256" and ?hy = "y div 256 ^ n mod 256"
  have "?hx < ?hy \<or> ?hx = ?hy \<and> x mod 256 ^ n < y mod 256 ^ n"
  proof (rule ccontr)
    assume "\<not> ?thesis"
    then consider "?hy < ?hx" | "?hx = ?hy" "\<not> x mod 256 ^ n < y mod 256 ^ n" by linarith
    then have "y mod 256 ^ Suc n \<le> x mod 256 ^ Suc n"
    proof cases
      case 1
      then have "256 ^ n * ?hy + 256 ^ n \<le> 256 ^ n * ?hx"
        by (metis Suc_leI mult_Suc_right add.commute mult_le_mono2)
      moreover have "y mod 256 ^ n < 256 ^ n" by simp
      ultimately show ?thesis unfolding be_split by linarith
    next
      case 2
      then show ?thesis unfolding be_split by simp
    qed
    with Suc.prems show False by simp
  qed
  with Suc.IH show ?case by auto
qed

lemma be_cong: "x mod 256 ^ n = y mod 256 ^ n \<Longrightarrow> be n x = be n y"
proof (induction n)
  case 0
  then show ?case by simp
next
  case (Suc n)
  have top: "z div 256 ^ n mod 256 = z mod 256 ^ Suc n div 256 ^ n" for z :: nat
    unfolding be_split by simp
  have low: "z mod 256 ^ n = z mod 256 ^ Suc n mod 256 ^ n" for z :: nat
    by (simp add: mod_mod_cancel)
  have "x mod 256 ^ n = y mod 256 ^ n"
    using low [of x] low [of y] Suc.prems by simp
  with Suc.IH show ?case using top [of x] top [of y] Suc.prems by simp
qed

lemma be_eq_iff: "be n x = be n y \<longleftrightarrow> x mod 256 ^ n = y mod 256 ^ n"
  by (metis be_cong be_less less_irrefl linorder_neqE_nat)

lemma and_low:
  "x AND 0xFF = take_bit 8 (x :: u64)" "x AND 0x0F = take_bit 4 x" "x AND 0x3F = take_bit 6 x"
  by (simp_all add: take_bit_eq_mask mask_eq_exp_minus_1)

lemma unat_byte: "unat (ucast (drop_bit k (x :: u64) AND 0xFF) :: u8) = unat x div 2 ^ k mod 256"
proof -
  have "unat (ucast (drop_bit k x AND 0xFF) :: u8) = take_bit 8 (take_bit 8 (drop_bit k (take_bit 64 (unat x))))"
    by (simp only: and_low unsigned_ucast_eq unsigned_take_bit_eq unsigned_drop_bit_eq
        len_num0 len_num1 len_bit0 len_bit1 arith_simps) (simp add: mult.commute)
  moreover have "take_bit 64 (unat x) = unat x"
    by (intro take_bit_nat_eq_self unat_u64_less)
  ultimately show ?thesis by (simp add: take_bit_eq_mod drop_bit_eq_div)
qed

lemma unat_byte0: "unat (ucast ((x :: u64) AND 0xFF) :: u8) = unat x mod 256"
  using unat_byte [of 0 x] by simp

lemma or_low: "push_bit n a OR take_bit n (z :: nat) = push_bit n a + take_bit n z"
  by (rule disjunctive_add_eq_or [symmetric]) (auto simp: bit_eq_iff bit_simps)

lemma unat_tagged:
  "unat (ucast (0x70 OR (y AND 0x0F)) :: u8) = 0x70 + unat (y :: u64) mod 16"
  "unat (ucast (0x80 OR (y AND 0x3F)) :: u8) = 0x80 + unat (y :: u64) mod 64"
proof -
  have *: "unat (0x70 OR take_bit 4 y) = 0x70 + unat y mod 16"
          "unat (0x80 OR take_bit 6 y) = 0x80 + unat y mod 64"
    using or_low [of 4 7 "unat y"] or_low [of 6 2 "unat y"]
    by (simp_all only: unsigned_or_eq unsigned_take_bit_eq)
       (simp_all add: push_bit_eq_mult take_bit_eq_mod)
  have sm: "unat y mod 16 < 16" "unat y mod 64 < 64" by simp_all
  show "unat (ucast (0x70 OR (y AND 0x0F)) :: u8) = 0x70 + unat y mod 16"
    unfolding and_low unsigned_ucast_eq * using sm by (simp add: take_bit_eq_mod)
  show "unat (ucast (0x80 OR (y AND 0x3F)) :: u8) = 0x80 + unat y mod 64"
    unfolding and_low unsigned_ucast_eq * using sm by (simp add: take_bit_eq_mod)
qed

lemma length_uuid_bytes [simp]: "length (uuid_bytes ms r1 r2) = 16"
  by (simp only: uuid_bytes_def Let_def list.size)

text \<open>The sixteen bytes: the timestamp, then the tagged random fields.\<close>

lemma uuid_bytes_be:
  "map unat (uuid_bytes ms r1 r2) =
     be 6 (unat ms) @
     [0x70 + unat (uuid_rand_a r1) div 256 mod 16, unat (uuid_rand_a r1) mod 256,
      0x80 + unat (uuid_rand_b r2) div 2 ^ 56 mod 64] @
     be 7 (unat (uuid_rand_b r2))"
proof -
  have "unat (drop_bit k (x :: u64)) = unat x div 2 ^ k" for k x
    unfolding unat_drop_bit_eq by (rule drop_bit_eq_div)
  then show ?thesis
    by (simp only: uuid_bytes_def Let_def list.map unat_byte unat_byte0 unat_tagged)
       (simp add: be_numeral)
qed

section \<open>Order and injectivity of the text\<close>

lemma unat_nibbles:
  "unat (drop_bit 4 (b :: u8) AND 0x0F) = unat b div 16"
  "unat ((b :: u8) AND 0x0F) = unat b mod 16"
proof -
  have lo: "x AND 0x0F = take_bit 4 x" for x :: u8
    by (simp add: take_bit_eq_mask mask_eq_exp_minus_1)
  show "unat (b AND 0x0F) = unat b mod 16"
    unfolding lo by (simp only: unsigned_take_bit_eq) (simp add: take_bit_eq_mod)
  show "unat (drop_bit 4 b AND 0x0F) = unat b div 16"
    unfolding lo using unat_u8_less [of b]
    by (simp only: unsigned_take_bit_eq unat_drop_bit_eq) (simp add: take_bit_eq_mod drop_bit_eq_div)
qed

lemma k_hex_less: "m < n \<Longrightarrow> n < 16 \<Longrightarrow> k_hex ! m < k_hex ! n"
proof -
  have "\<forall>n \<in> set [0..<16]. \<forall>m \<in> set [0..<n]. k_hex ! m < k_hex ! n" by code_simp
  then show "m < n \<Longrightarrow> n < 16 \<Longrightarrow> k_hex ! m < k_hex ! n" by simp
qed

lemma hex_pair_nth: "hex_pair b = [k_hex ! (unat b div 16), k_hex ! (unat b mod 16)]"
  by (simp only: hex_pair_def hex_digit_def unat_nibbles(1) [of b] unat_nibbles(2) [of b])

lemma hex_pair_less: "unat x < unat y \<Longrightarrow> hex_pair x @ r < hex_pair y @ r'"
proof -
  assume less: "unat x < unat y"
  then have "unat x div 16 < unat y div 16 \<or>
      unat x div 16 = unat y div 16 \<and> unat x mod 16 < unat y mod 16"
    by (metis div_le_mono div_mult_mod_eq le_neq_implies_less less_imp_le_nat nat_add_left_cancel_less)
  moreover have "unat y div 16 < 16" using unat_u8_less [of y] by simp
  ultimately show ?thesis by (auto simp: hex_pair_nth intro: k_hex_less)
qed

lemma uuid_loop_less:
  "length xs = length ys \<Longrightarrow> map unat xs < map unat ys \<Longrightarrow> uuid_loop i xs < uuid_loop i ys"
proof (induction xs ys arbitrary: i rule: list_induct2)
  case Nil
  then show ?case by simp
next
  case (Cons x xs y ys)
  then consider "unat x < unat y" | "x = y" "map unat xs < map unat ys"
    by (auto dest: unsigned_word_eqI)
  then show ?case
  proof cases
    case 1
    then show ?thesis by (simp add: hex_pair_less)
  next
    case 2
    with Cons.IH show ?thesis by (simp add: hex_pair_nth)
  qed
qed

lemma uuid_loop_inj:
  "length xs = length ys \<Longrightarrow> uuid_loop i xs = uuid_loop i ys \<Longrightarrow> xs = ys"
proof (rule ccontr)
  assume len: "length xs = length ys" and eq: "uuid_loop i xs = uuid_loop i ys" and "xs \<noteq> ys"
  moreover have "inj (unat :: u8 \<Rightarrow> nat)" by (rule injI) (rule unsigned_word_eqI)
  ultimately have "map unat xs \<noteq> map unat ys" by (simp add: inj_map_eq_map)
  then have "map unat xs < map unat ys \<or> map unat ys < map unat xs"
    by (simp only: linorder_neq_iff)
  then show False using uuid_loop_less len eq by (metis less_irrefl)
qed

lemma less_append_same_length:
  "length xs = length ys \<Longrightarrow> xs < (ys :: 'a :: linorder list) \<Longrightarrow> xs @ r < ys @ r'"
  by (induction xs ys rule: list_induct2) auto

text \<open>
  C21. Time order: of two identifiers made in different milliseconds (before the year 10889,
  when the 48-bit timestamp is exhausted) the earlier one is the smaller string, whatever
  the random bits.
\<close>

theorem uuid_v7_time_ordered:
  assumes "ms1 < ms2" and "ms2 < 2 ^ 48"
  shows "uuid_v7 ms1 r1 r2 < uuid_v7 ms2 r3 r4"
proof -
  have bd: "unat ms1 < unat ms2" "unat ms2 < 2 ^ 48"
    using assms by (simp_all add: word_less_nat_alt)
  then have "be 6 (unat ms1) < be 6 (unat ms2)"
    by (intro be_less) simp
  then have "map unat (uuid_bytes ms1 r1 r2) < map unat (uuid_bytes ms2 r3 r4)"
    unfolding uuid_bytes_be by (intro less_append_same_length) simp_all
  then show ?thesis
    unfolding uuid_v7_def by (intro uuid_loop_less) simp_all
qed

theorem uuid_v7_time_ordered_witness: "uuid_v7 1000 7 9 < uuid_v7 1001 0 0"
  by (rule uuid_v7_time_ordered) simp_all

lemma uuid_rand_bounds:
  "unat (uuid_rand_a r) < 2 ^ 12" "unat (uuid_rand_b r) < 2 ^ 62"
proof -
  have "uuid_rand_a r = take_bit 12 r" "uuid_rand_b r = take_bit 62 r"
    by (simp_all add: uuid_rand_a_def uuid_rand_b_def take_bit_eq_mask mask_eq_exp_minus_1)
  then show "unat (uuid_rand_a r) < 2 ^ 12" "unat (uuid_rand_b r) < 2 ^ 62"
    by (simp_all only: unsigned_take_bit_eq take_bit_nat_less_exp)
qed

lemma rand_fields_eq:
  fixes a a' b b' :: nat
  shows "a < 2 ^ 12 \<Longrightarrow> a' < 2 ^ 12 \<Longrightarrow> a div 256 mod 16 = a' div 256 mod 16 \<Longrightarrow>
      a mod 256 = a' mod 256 \<Longrightarrow> a = a'"
    and "b < 2 ^ 62 \<Longrightarrow> b' < 2 ^ 62 \<Longrightarrow> b div 2 ^ 56 mod 64 = b' div 2 ^ 56 mod 64 \<Longrightarrow>
      b mod 2 ^ 56 = b' mod 2 ^ 56 \<Longrightarrow> b = b'"
proof -
  assume "a < 2 ^ 12" "a' < 2 ^ 12" "a div 256 mod 16 = a' div 256 mod 16" "a mod 256 = a' mod 256"
  then have "a div 256 = a' div 256" by simp
  with \<open>a mod 256 = a' mod 256\<close> show "a = a'" by (metis div_mult_mod_eq)
next
  assume *: "b < 2 ^ 62" "b' < 2 ^ 62" "b div 2 ^ 56 mod 64 = b' div 2 ^ 56 mod 64" "b mod 2 ^ 56 = b' mod 2 ^ 56"
  then have "b div 2 ^ 56 < 64" "b' div 2 ^ 56 < 64" by simp_all
  with * have "b div 2 ^ 56 = b' div 2 ^ 56" by (metis mod_less)
  with *(4) show "b = b'" by (metis div_mult_mod_eq)
qed

text \<open>
  Injectivity: two identifiers are the same string exactly when they agree on the 48
  timestamp bits and on the 12 + 62 random bits the layout keeps, so no random bit is lost
  on the way to the text and nothing else enters it.
\<close>

theorem uuid_v7_injective:
  "uuid_v7 ms r1 r2 = uuid_v7 ms' r1' r2' \<longleftrightarrow>
   unat ms mod 2 ^ 48 = unat ms' mod 2 ^ 48 \<and>
   uuid_rand_a r1 = uuid_rand_a r1' \<and> uuid_rand_b r2 = uuid_rand_b r2'"
proof
  assume "uuid_v7 ms r1 r2 = uuid_v7 ms' r1' r2'"
  then have "uuid_bytes ms r1 r2 = uuid_bytes ms' r1' r2'"
    unfolding uuid_v7_def by (rule uuid_loop_inj [rotated]) simp
  then have "map unat (uuid_bytes ms r1 r2) = map unat (uuid_bytes ms' r1' r2')" by simp
  then have fields: "be 6 (unat ms) = be 6 (unat ms')"
    "unat (uuid_rand_a r1) div 256 mod 16 = unat (uuid_rand_a r1') div 256 mod 16"
    "unat (uuid_rand_a r1) mod 256 = unat (uuid_rand_a r1') mod 256"
    "unat (uuid_rand_b r2) div 2 ^ 56 mod 64 = unat (uuid_rand_b r2') div 2 ^ 56 mod 64"
    "be 7 (unat (uuid_rand_b r2)) = be 7 (unat (uuid_rand_b r2'))"
    unfolding uuid_bytes_be by (simp_all del: be.simps)
  have "unat (uuid_rand_a r1) = unat (uuid_rand_a r1')"
    by (rule rand_fields_eq(1) [OF uuid_rand_bounds(1) uuid_rand_bounds(1) fields(2,3)])
  moreover have "unat (uuid_rand_b r2) mod 2 ^ 56 = unat (uuid_rand_b r2') mod 2 ^ 56"
    using fields(5) by (simp add: be_eq_iff)
  then have "unat (uuid_rand_b r2) = unat (uuid_rand_b r2')"
    by (rule rand_fields_eq(2) [OF uuid_rand_bounds(2) uuid_rand_bounds(2) fields(4)])
  ultimately show "unat ms mod 2 ^ 48 = unat ms' mod 2 ^ 48 \<and>
      uuid_rand_a r1 = uuid_rand_a r1' \<and> uuid_rand_b r2 = uuid_rand_b r2'"
    using fields(1) by (auto simp: be_eq_iff dest: unsigned_word_eqI)
next
  assume eq: "unat ms mod 2 ^ 48 = unat ms' mod 2 ^ 48 \<and>
      uuid_rand_a r1 = uuid_rand_a r1' \<and> uuid_rand_b r2 = uuid_rand_b r2'"
  then have "be 6 (unat ms) = be 6 (unat ms')" by (intro be_cong) simp
  with eq have "map unat (uuid_bytes ms r1 r2) = map unat (uuid_bytes ms' r1' r2')"
    unfolding uuid_bytes_be by (simp only:)
  moreover have "inj (unat :: u8 \<Rightarrow> nat)" by (rule injI) (rule unsigned_word_eqI)
  ultimately have "uuid_bytes ms r1 r2 = uuid_bytes ms' r1' r2'" by (simp add: inj_map_eq_map)
  then show "uuid_v7 ms r1 r2 = uuid_v7 ms' r1' r2'" by (simp only: uuid_v7_def)
qed

section \<open>The RFC 9562 shape\<close>

lemma k_hex_set: "n < 16 \<Longrightarrow> k_hex ! n \<in> set k_hex"
  by (rule nth_mem) (simp add: k_hex_def)

lemma hex_pair_set: "set (hex_pair b) \<subseteq> set k_hex"
proof -
  have "unat b div 16 < 16" "unat b mod 16 < 16" using unat_u8_less [of b] by simp_all
  then show ?thesis by (auto simp: hex_pair_nth k_hex_set)
qed

lemma uuid_v7_hyphenated:
  "uuid_v7 ms r1 r2 =
     concat (map hex_pair (take 4 (uuid_bytes ms r1 r2))) @ ''-'' @
     concat (map hex_pair (take 2 (drop 4 (uuid_bytes ms r1 r2)))) @ ''-'' @
     concat (map hex_pair (take 2 (drop 6 (uuid_bytes ms r1 r2)))) @ ''-'' @
     concat (map hex_pair (take 2 (drop 8 (uuid_bytes ms r1 r2)))) @ ''-'' @
     concat (map hex_pair (drop 10 (uuid_bytes ms r1 r2)))"
proof -
  obtain a b c d e f g h i j k l m n p q
    where bytes: "uuid_bytes ms r1 r2 = [a, b, c, d, e, f, g, h, i, j, k, l, m, n, p, q]"
    unfolding uuid_bytes_def Let_def by blast
  show ?thesis unfolding uuid_v7_def bytes by simp
qed

lemma hex_pair_not_hyphen:
  "k_hex ! (unat (b :: u8) div 16) \<noteq> CHR ''-''" "k_hex ! (unat b mod 16) \<noteq> CHR ''-''"
proof -
  have "CHR ''-'' \<notin> set k_hex" by (simp add: k_hex_def)
  moreover have "unat b div 16 < 16" "unat b mod 16 < 16" using unat_u8_less [of b] by simp_all
  ultimately show "k_hex ! (unat b div 16) \<noteq> CHR ''-''" "k_hex ! (unat b mod 16) \<noteq> CHR ''-''"
    by (metis k_hex_set)+
qed

text \<open>
  Shape: every identifier has 36 characters, hyphens at 8, 13, 18 and 23 only and hex
  digits elsewhere, the version digit 7 at position 14 and one of 8, 9, a, b at position
  19, whatever the clock and the random bits.
\<close>

theorem uuid_v7_rfc_shape:
  "length (uuid_v7 ms r1 r2) = 36 \<and>
   map (\<lambda>c. c = CHR ''-'') (uuid_v7 ms r1 r2) = map (\<lambda>i. i \<in> {8, 13, 18, 23}) [0..<36 :: nat] \<and>
   set (uuid_v7 ms r1 r2) \<subseteq> insert (CHR ''-'') (set k_hex) \<and>
   uuid_v7 ms r1 r2 ! 14 = CHR ''7'' \<and>
   uuid_v7 ms r1 r2 ! 19 \<in> set ''89ab''"
proof -
  obtain a b c d e f g h i j k l m n p q
    where bytes: "uuid_bytes ms r1 r2 = [a, b, c, d, e, f, g, h, i, j, k, l, m, n, p, q]"
    unfolding uuid_bytes_def Let_def by blast
  have "map unat (uuid_bytes ms r1 r2) ! 6 div 16 = 7"
    by (simp add: uuid_bytes_be nth_append)
  then have ver: "unat g div 16 = 7" by (simp add: bytes)
  have "map unat (uuid_bytes ms r1 r2) ! 8 div 16 = 8 + unat (uuid_rand_b r2) div 2 ^ 56 mod 64 div 16"
    by (simp add: uuid_bytes_be nth_append)
  moreover have "unat (uuid_rand_b r2) div 2 ^ 56 mod 64 div 16 < 4" by simp
  ultimately have "unat i div 16 \<in> {8, 9, 10, 11}" by (auto simp: bytes)
  then have var: "k_hex ! (unat i div 16) \<in> set ''89ab''" by (auto simp: k_hex_def)
  have hyphens: "map (\<lambda>c. c = CHR ''-'') (uuid_v7 ms r1 r2) = map (\<lambda>i. i \<in> {8, 13, 18, 23}) [0..<36 :: nat]"
    by (simp add: uuid_v7_hyphenated bytes hex_pair_nth hex_pair_not_hyphen upt_rec)
  moreover have "set (uuid_v7 ms r1 r2) \<subseteq> insert (CHR ''-'') (set k_hex)"
    unfolding uuid_v7_hyphenated using hex_pair_set by auto
  moreover have "uuid_v7 ms r1 r2 ! 14 = CHR ''7''" "uuid_v7 ms r1 r2 ! 19 \<in> set ''89ab''"
    using ver var by (simp_all add: uuid_v7_hyphenated bytes hex_pair_nth k_hex_def)
  ultimately show ?thesis by (auto dest: map_eq_imp_length_eq)
qed

end
