(* ===== verification/Uuid_Rng.thy ===== *)
theory Uuid_Rng
  imports Uuid
begin

unbundle bit_operations_syntax

text \<open>
  Where a thread's UUIDs get their random bits (\<open>detail::uuid_rng\<close> and the draws of \<open>uuid_v7\<close>
  in include/uaop/common/uuid.h): a \<open>std::mt19937_64\<close> per thread, seeded once with one 32-bit
  value of \<open>std::random_device\<close>, and \<open>std::uniform_int_distribution\<close> over all 64-bit values,
  which hands the engine's words on. The engine is the one the language standard defines; its
  state is the last 312 words, oldest first.
\<close>

section \<open>The engine\<close>

fun mt_fill :: "nat \<Rightarrow> nat \<Rightarrow> u64 \<Rightarrow> u64 list" where
  "mt_fill 0 i x = [x]"
| "mt_fill (Suc k) i x =
     x # mt_fill k (Suc i) (6364136223846793005 * (x XOR drop_bit 62 x) + of_nat i)"

definition mt_seed :: "u64 \<Rightarrow> u64 list" where
  "mt_seed value = mt_fill 311 1 value"

definition mt_twist :: "u64 list \<Rightarrow> u64" where
  "mt_twist st =
     (let y = (st ! 0 AND 0xFFFFFFFF80000000) OR (st ! 1 AND 0x7FFFFFFF)
      in st ! 156 XOR drop_bit 1 y XOR (if odd (unat y) then 0xB5026F5AA96619E9 else 0))"

definition mt_temper :: "u64 \<Rightarrow> u64" where
  "mt_temper x =
     (let z1 = x XOR (drop_bit 29 x AND 0x5555555555555555);
          z2 = z1 XOR (push_bit 17 z1 AND 0x71D67FFFEDA60000);
          z3 = z2 XOR (push_bit 37 z2 AND 0xFFF7EEE000000000)
      in z3 XOR drop_bit 43 z3)"

definition mt_next :: "u64 list \<Rightarrow> u64 \<times> u64 list" where
  "mt_next st = (let x = mt_twist st in (mt_temper x, tl st @ [x]))"

section \<open>UUIDs of a thread\<close>

definition uuid_rng :: "32 word \<Rightarrow> u64 list" where
  "uuid_rng device = mt_seed (ucast device)"

definition uuid_v7_drawn :: "u64 \<Rightarrow> u64 list \<Rightarrow> string \<times> u64 list" where
  "uuid_v7_drawn ms rng =
     (let (r1, rng1) = mt_next rng;
          (r2, rng2) = mt_next rng1
      in (uuid_v7 ms r1 r2, rng2))"

text \<open>The UUIDs a thread makes at a list of clock readings, from its first call on.\<close>

fun uuids :: "u64 list \<Rightarrow> u64 list \<Rightarrow> string list" where
  "uuids rng [] = []"
| "uuids rng (ms # readings) = (let (u, rng') = uuid_v7_drawn ms rng in u # uuids rng' readings)"

section \<open>Properties\<close>

lemma length_mt_fill [simp]: "length (mt_fill k i x) = Suc k"
  by (induction k arbitrary: i x) auto

lemma length_mt_next: "st \<noteq> [] \<Longrightarrow> length (snd (mt_next st)) = length st"
  by (simp add: mt_next_def Let_def)

text \<open>The engine always has the 312 words the transition reads.\<close>

lemma uuid_rng_length:
  "length (uuid_rng device) = 312"
  "length rng = 312 \<Longrightarrow> length (snd (uuid_v7_drawn ms rng)) = 312"
proof -
  show "length (uuid_rng device) = 312" by (simp add: uuid_rng_def mt_seed_def)
  assume "length rng = 312"
  then have "length (snd (mt_next rng)) = 312" using length_mt_next [of rng] by fastforce
  then have "length (snd (mt_next (snd (mt_next rng)))) = 312" using length_mt_next [of "snd (mt_next rng)"] by fastforce
  then show "length (snd (uuid_v7_drawn ms rng)) = 312" by (simp add: uuid_v7_drawn_def split_beta Let_def)
qed

lemma length_uuids [simp]: "length (uuids rng readings) = length readings"
  by (induction readings arbitrary: rng) (auto simp: split_beta Let_def)

text \<open>
  The random bits of a thread are worth 32 bits: of any 4294967297 threads two make the same
  UUIDs whenever they read the same clock, for as long as they run, although the layout has
  74 random bits; the seed is one value of the random device.
\<close>

theorem many_threads_share_uuids:
  "\<exists>i j. i < j \<and> j \<le> (2 :: nat) ^ 32 \<and>
     uuids (uuid_rng (device i)) = uuids (uuid_rng (device j))"
proof -
  have "card (UNIV :: 32 word set) = 2 ^ 32" by (simp add: card_word)
  then have "card (device ` {..2 ^ 32}) \<le> 2 ^ 32"
    using card_mono [of UNIV "device ` {..2 ^ 32}"] by simp
  then have "\<not> inj_on device {..(2 :: nat) ^ 32}" using card_image [of device "{..(2 :: nat) ^ 32}"] by force
  then obtain i j where "i \<le> 2 ^ 32" "j \<le> 2 ^ 32" "i \<noteq> j" "device i = device j"
    by (auto simp: inj_on_def)
  then show ?thesis by (metis linorder_neqE_nat)
qed

end
