(* ===== verification/Dedup.thy ===== *)
theory Dedup
  imports Prelude
begin

text \<open>
  The TTL dedup set (include/uaop/common/dedup.h). A time point of the steady clock is its
  count of nanoseconds, an integer; the reading each call takes is an argument. The
  contract a consumer of the set relies on is the locale \<open>novelty_filter\<close>; \<open>DedupSet\<close>
  provides it.
\<close>

section \<open>The contract\<close>

text \<open>
  \<open>seen d now k\<close>: a delivery with key \<open>k\<close> at \<open>now\<close> would be a duplicate. \<open>window\<close> is the
  time an accepted key stays seen. A duplicate does not extend the window.
\<close>

locale novelty_filter =
  fixes insert_key :: "'d \<Rightarrow> int \<Rightarrow> 'k \<Rightarrow> bool \<times> 'd"
    and seen :: "'d \<Rightarrow> int \<Rightarrow> 'k \<Rightarrow> bool"
    and window :: int
    and valid :: "'d \<Rightarrow> bool"
  assumes insert_novel: "valid d \<Longrightarrow> insert_key d now k = (b, d') \<Longrightarrow> b \<longleftrightarrow> \<not> seen d now k"
    and insert_seen: "valid d \<Longrightarrow> insert_key d now k = (b, d') \<Longrightarrow> now \<le> now' \<Longrightarrow>
      seen d' now' k' \<longleftrightarrow> seen d now' k' \<or> (k' = k \<and> b \<and> now' < now + window)"
    and insert_valid: "valid d \<Longrightarrow> insert_key d now k = (b, d') \<Longrightarrow> valid d'"

text \<open>A run of deliveries: for each, its time, its key and whether it was accepted.\<close>

fun filter_run :: "('d \<Rightarrow> int \<Rightarrow> 'k \<Rightarrow> bool \<times> 'd) \<Rightarrow> 'd \<Rightarrow> (int \<times> 'k) list \<Rightarrow> bool list \<times> 'd" where
  "filter_run ins d [] = ([], d)"
| "filter_run ins d ((now, k) # xs) =
     (let (b, d1) = ins d now k; (bs, d2) = filter_run ins d1 xs in (b # bs, d2))"

lemma length_filter_run [simp]: "length (fst (filter_run ins d xs)) = length xs"
  by (induction ins d xs rule: filter_run.induct) (auto split: prod.splits)

lemma filter_run_snoc:
  "filter_run ins d (xs @ [(now, k)]) =
     (let (bs, d1) = filter_run ins d xs; (b, d2) = ins d1 now k in (bs @ [b], d2))"
  by (induction xs arbitrary: d) (auto split: prod.splits)

context novelty_filter begin

lemma insert_valid_snd: "valid d \<Longrightarrow> valid (snd (insert_key d now k))"
  using insert_valid by (metis prod.collapse)

lemma run_valid: "valid d \<Longrightarrow> valid (snd (filter_run insert_key d xs))"
  by (induction xs arbitrary: d) (auto simp: split_beta insert_valid_snd)

text \<open>What is seen after a run: what was seen before it and the accepted keys in their window.\<close>

lemma run_seen:
  assumes "valid d" and "sorted (map fst xs)" and "\<forall>x \<in> set xs. fst x \<le> now'"
  shows "seen (snd (filter_run insert_key d xs)) now' k' \<longleftrightarrow>
     seen d now' k' \<or> (\<exists>j < length xs. snd (xs ! j) = k' \<and> fst (filter_run insert_key d xs) ! j \<and>
        now' < fst (xs ! j) + window)"
  using assms(2,3)
proof (induction xs rule: rev_induct)
  case Nil
  then show ?case by simp
next
  case (snoc x xs)
  obtain now k where x: "x = (now, k)" by (cases x)
  obtain bs d1 where run: "filter_run insert_key d xs = (bs, d1)" by fastforce
  obtain b d2 where ins: "insert_key d1 now k = (b, d2)" by fastforce
  have "valid d1" using run_valid [OF assms(1), of xs] run by simp
  have len: "length bs = length xs" using run length_filter_run [of insert_key d xs] by simp
  have "seen d2 now' k' \<longleftrightarrow> seen d1 now' k' \<or> (k' = k \<and> b \<and> now' < now + window)"
    using insert_seen [OF \<open>valid d1\<close> ins] snoc.prems x by simp
  with snoc.IH snoc.prems run ins len show ?case
    by (auto simp: x filter_run_snoc sorted_append nth_append less_Suc_eq)
qed

lemma run_accepts:
  assumes "valid d" and "sorted (map fst xs)" and "i < length xs"
  shows "fst (filter_run insert_key d xs) ! i \<longleftrightarrow>
     \<not> seen d (fst (xs ! i)) (snd (xs ! i)) \<and>
     \<not> (\<exists>j < i. snd (xs ! j) = snd (xs ! i) \<and> fst (filter_run insert_key d xs) ! j \<and>
          fst (xs ! i) < fst (xs ! j) + window)"
  using assms(2,3)
proof (induction xs rule: rev_induct)
  case Nil
  then show ?case by simp
next
  case (snoc x xs)
  obtain now k where x: "x = (now, k)" by (cases x)
  obtain bs d1 where run: "filter_run insert_key d xs = (bs, d1)" by fastforce
  obtain b d2 where ins: "insert_key d1 now k = (b, d2)" by fastforce
  have "valid d1" using run_valid [OF assms(1), of xs] run by simp
  have len: "length bs = length xs" using run length_filter_run [of insert_key d xs] by simp
  show ?case
  proof (cases "i < length xs")
    case True
    with snoc run ins len show ?thesis
      by (auto simp: x filter_run_snoc sorted_append nth_append)
  next
    case False
    then have i: "i = length xs" using snoc.prems by simp
    have "b \<longleftrightarrow> \<not> seen d1 now k" by (rule insert_novel [OF \<open>valid d1\<close> ins])
    moreover have "\<forall>x \<in> set xs. fst x \<le> now" "sorted (map fst xs)"
      using snoc.prems by (auto simp: x sorted_append)
    ultimately show ?thesis
      using run_seen [OF assms(1), of xs now k] run ins len
      by (auto simp: i x filter_run_snoc nth_append)
  qed
qed

end

section \<open>DedupSet\<close>

record dedup_set =
  ttl_ms :: int
  entries :: "(string \<times> int) list"

definition new_dedup_set :: "int \<Rightarrow> dedup_set" where
  "new_dedup_set ttl = \<lparr>ttl_ms = ttl, entries = []\<rparr>"

text \<open>\<open>now + ttl_\<close>: the sum of a nanosecond reading and a millisecond duration.\<close>

definition deadline :: "dedup_set \<Rightarrow> int \<Rightarrow> int" where
  "deadline d now = now + ttl_ms d * 1000000"

text \<open>The erase loop over the entries.\<close>

fun sweep_entries :: "int \<Rightarrow> (string \<times> int) list \<Rightarrow> (string \<times> int) list" where
  "sweep_entries now [] = []"
| "sweep_entries now ((key, dl) # es) =
     (if dl \<le> now then sweep_entries now es else (key, dl) # sweep_entries now es)"

definition sweep :: "dedup_set \<Rightarrow> int \<Rightarrow> dedup_set" where
  "sweep d now = d\<lparr>entries := sweep_entries now (entries d)\<rparr>"

text \<open>\<open>try_emplace\<close> stores only when the key is absent.\<close>

definition dedup_insert :: "dedup_set \<Rightarrow> int \<Rightarrow> string \<Rightarrow> bool \<times> dedup_set" where
  "dedup_insert d now key =
     (let d1 = sweep d now
      in case map_of (entries d1) key of
           Some dl \<Rightarrow> (False, d1)
         | None \<Rightarrow> (True, d1\<lparr>entries := (key, deadline d1 now) # entries d1\<rparr>))"

definition dedup_size :: "dedup_set \<Rightarrow> nat" where
  "dedup_size d = length (entries d)"

definition dedup_seen :: "dedup_set \<Rightarrow> int \<Rightarrow> string \<Rightarrow> bool" where
  "dedup_seen d now key = (case map_of (entries d) key of None \<Rightarrow> False | Some dl \<Rightarrow> now < dl)"

lemma sweep_entries_filter: "sweep_entries now es = filter (\<lambda>(key, dl). now < dl) es"
  by (induction now es rule: sweep_entries.induct) auto

lemma sweep_keys: "fst ` set (sweep_entries now es) \<subseteq> fst ` set es"
  by (auto simp: sweep_entries_filter)

lemma um_ok_sweep: "um_ok es \<Longrightarrow> um_ok (sweep_entries now es)"
  by (simp add: sweep_entries_filter distinct_map inj_on_def)

lemma map_of_sweep:
  "um_ok es \<Longrightarrow>
   map_of (sweep_entries now es) key =
     (case map_of es key of None \<Rightarrow> None | Some dl \<Rightarrow> if now < dl then Some dl else None)"
proof (induction now es rule: sweep_entries.induct)
  case (1 now)
  then show ?case by simp
next
  case (2 now k dl es)
  then have "map_of es k = None" by (simp add: map_of_eq_None_iff)
  with 2 show ?case by (cases "key = k") simp_all
qed

lemma dedup_insert_eq:
  assumes "um_ok (entries d)"
  shows "dedup_insert d now key =
    (if dedup_seen d now key then (False, sweep d now)
     else (True, (sweep d now)\<lparr>entries := (key, deadline d now) # sweep_entries now (entries d)\<rparr>))"
  using assms
  by (auto simp: dedup_insert_def dedup_seen_def sweep_def deadline_def Let_def map_of_sweep
      split: option.splits)

lemma dedup_insert_um_ok:
  "um_ok (entries d) \<Longrightarrow> um_ok (entries (snd (dedup_insert d now key)))"
  by (auto simp: dedup_insert_def sweep_def Let_def um_ok_sweep map_of_eq_None_iff split: option.splits)

text \<open>The window of a set is its TTL in nanoseconds.\<close>

interpretation dedup: novelty_filter dedup_insert dedup_seen "ttl * 1000000"
    "\<lambda>d. ttl_ms d = ttl \<and> um_ok (entries d)" for ttl
proof unfold_locales
  fix d now k b d'
  assume valid: "ttl_ms d = ttl \<and> um_ok (entries d)" and ins: "dedup_insert d now k = (b, d')"
  show "b \<longleftrightarrow> \<not> dedup_seen d now k"
    using ins valid by (auto simp: dedup_insert_eq split: if_splits)
  show "ttl_ms d' = ttl \<and> um_ok (entries d')"
    using ins valid dedup_insert_um_ok [of d now k]
    by (auto simp: dedup_insert_eq sweep_def split: if_splits)
  fix now' k'
  assume "now \<le> now'"
  then show "dedup_seen d' now' k' \<longleftrightarrow>
      dedup_seen d now' k' \<or> (k' = k \<and> b \<and> now' < now + ttl * 1000000)"
    using ins valid
    by (auto simp: dedup_insert_eq dedup_seen_def sweep_def deadline_def map_of_sweep
        simp del: map_of_eq_Some_iff split: if_splits option.splits)
qed

section \<open>What callers rely on\<close>

lemma new_dedup_valid: "ttl_ms (new_dedup_set ttl) = ttl \<and> um_ok (entries (new_dedup_set ttl))"
  by (simp add: new_dedup_set_def)

lemma new_dedup_unseen [simp]: "\<not> dedup_seen (new_dedup_set ttl) now key"
  by (simp add: new_dedup_set_def dedup_seen_def)

abbreviation dedup_run :: "int \<Rightarrow> (int \<times> string) list \<Rightarrow> bool list" where
  "dedup_run ttl xs \<equiv> fst (filter_run dedup_insert (new_dedup_set ttl) xs)"

text \<open>
  With non-decreasing clock readings, a delivery is reported novel exactly when no
  earlier delivery of its key was reported novel less than the TTL before it. Duplicates
  therefore do not extend the TTL, and an expired key is novel again.
\<close>

theorem dedup_reports_novelty:
  assumes "sorted (map fst xs)" and "i < length xs"
  shows "dedup_run ttl xs ! i \<longleftrightarrow>
    \<not> (\<exists>j < i. snd (xs ! j) = snd (xs ! i) \<and> dedup_run ttl xs ! j \<and>
         fst (xs ! i) < fst (xs ! j) + ttl * 1000000)"
  using dedup.run_accepts [OF new_dedup_valid assms] by simp

theorem dedup_reports_novelty_witness:
  "dedup_run 20 [(0, ''evt-1''), (1000000, ''evt-1''), (60000000, ''evt-1'')] ! 2"
proof (subst dedup_reports_novelty)
  have "j = 0 \<or> j = 1" if "j < 2" for j :: nat using that by auto
  let ?xs = "[(0 :: int, ''evt-1''), (1000000, ''evt-1''), (60000000, ''evt-1'')]"
  show "\<not> (\<exists>j < 2. snd (?xs ! j) = snd (?xs ! 2) \<and> dedup_run 20 ?xs ! j \<and>
      fst (?xs ! 2) < fst (?xs ! j) + 20 * 1000000)"
    using \<open>\<And>j. j < 2 \<Longrightarrow> j = 0 \<or> j = 1\<close>
    by (fastforce simp del: filter_run.simps)
qed simp_all

text \<open>The keys reported novel in a run.\<close>

definition accepted_keys :: "(int \<times> 'k) list \<Rightarrow> bool list \<Rightarrow> 'k list" where
  "accepted_keys xs bs = map (snd \<circ> fst) (filter snd (zip xs bs))"

lemma accepted_keys_snoc:
  "length bs = length xs \<Longrightarrow>
   accepted_keys (xs @ [(now, k)]) (bs @ [b]) = accepted_keys xs bs @ (if b then [k] else [])"
  by (simp add: accepted_keys_def)

lemma set_accepted_keys:
  "length bs = length xs \<Longrightarrow>
   set (accepted_keys xs bs) = {snd (xs ! j) | j. j < length xs \<and> bs ! j}"
  by (force simp: accepted_keys_def set_zip)

text \<open>
  Within a window shorter than the TTL nothing is swept, whatever the order of the readings:
  threads read the clock before they take the lock, so a later call may have an earlier one.
\<close>

lemma insert_within_window:
  assumes "um_ok (entries d)" and "\<forall>e \<in> set (entries d). now < snd e"
  shows "dedup_insert d now key =
    (if key \<in> fst ` set (entries d) then (False, d)
     else (True, d\<lparr>entries := (key, deadline d now) # entries d\<rparr>))"
proof -
  have "filter (\<lambda>(key, dl). now < dl) (entries d) = entries d"
    by (rule filter_True) (use assms(2) in auto)
  then have "sweep d now = d" by (simp add: sweep_def sweep_entries_filter)
  moreover have "map_of (entries d) key = None \<longleftrightarrow> key \<notin> fst ` set (entries d)"
    by (simp add: map_of_eq_None_iff)
  ultimately show ?thesis by (auto simp: dedup_insert_def Let_def split: option.split)
qed

lemma run_within_window:
  assumes "fst ` set xs \<subseteq> W" and "\<forall>x \<in> W. \<forall>y \<in> W. y < x + ttl * 1000000"
  defines "d \<equiv> \<lambda>xs. snd (filter_run dedup_insert (new_dedup_set ttl) xs)"
  shows "(\<forall>e \<in> set (entries (d xs)). \<forall>w \<in> W. w < snd e) \<and>
         fst ` set (entries (d xs)) = snd ` set xs \<and>
         distinct (accepted_keys xs (dedup_run ttl xs)) \<and>
         set (accepted_keys xs (dedup_run ttl xs)) = snd ` set xs"
  using assms(1)
proof (induction xs rule: rev_induct)
  case Nil
  then show ?case by (simp add: accepted_keys_def d_def new_dedup_set_def)
next
  case (snoc x xs)
  obtain now k where x: "x = (now, k)" by (cases x)
  have now: "now \<in> W" using snoc.prems by (simp add: x)
  have IH: "\<forall>e \<in> set (entries (d xs)). \<forall>w \<in> W. w < snd e" "fst ` set (entries (d xs)) = snd ` set xs"
    "distinct (accepted_keys xs (dedup_run ttl xs))" "set (accepted_keys xs (dedup_run ttl xs)) = snd ` set xs"
    using snoc by auto
  have valid: "ttl_ms (d xs) = ttl" "um_ok (entries (d xs))"
    using dedup.run_valid [OF new_dedup_valid, of ttl xs] by (simp_all add: d_def)
  have ins: "dedup_insert (d xs) now k =
    (if k \<in> snd ` set xs then (False, d xs) else (True, (d xs)\<lparr>entries := (k, deadline (d xs) now) # entries (d xs)\<rparr>))"
    using insert_within_window [OF valid(2), of now k] IH(1,2) now by simp
  have run: "dedup_run ttl (xs @ [x]) = dedup_run ttl xs @ [k \<notin> snd ` set xs]"
    "d (xs @ [x]) = snd (dedup_insert (d xs) now k)"
    using ins unfolding d_def by (simp_all add: x filter_run_snoc split_beta)
  have "w < deadline (d xs) now" if "w \<in> W" for w
    using assms(2) now that by (simp add: deadline_def valid(1))
  then show ?case using IH unfolding run ins by (auto simp: x accepted_keys_snoc)
qed

lemma accepted_once:
  assumes "\<forall>x \<in> set xs. \<forall>y \<in> set xs. fst y < fst x + ttl * 1000000"
  shows "distinct (accepted_keys xs (dedup_run ttl xs)) \<and>
         set (accepted_keys xs (dedup_run ttl xs)) = snd ` set xs"
  using run_within_window [of xs "fst ` set xs" ttl] assms by auto

text \<open>
  Idempotence within the TTL: over calls whose readings all lie within one TTL, in any
  order, each key that occurs is reported novel exactly once, however often it is redelivered
  and however many threads call.
\<close>

theorem dedup_exactly_once_within_ttl:
  assumes "\<forall>x \<in> set xs. \<forall>y \<in> set xs. fst y < fst x + ttl * 1000000"
  shows "distinct (accepted_keys xs (dedup_run ttl xs)) \<and>
         set (accepted_keys xs (dedup_run ttl xs)) = snd ` set xs"
  by (rule accepted_once [OF assms])

theorem dedup_exactly_once_within_ttl_witness:
  "set (accepted_keys [(0, ''a''), (7, ''b''), (5, ''a'')]
      (dedup_run 5000 [(0, ''a''), (7, ''b''), (5, ''a'')])) = {''a'', ''b''}"
  using dedup_exactly_once_within_ttl [of "[(0, ''a''), (7, ''b''), (5, ''a'')]" 5000]
  by auto

lemma swept_alive:
  assumes "um_ok (entries d)" and "0 < ttl_ms d" and "dedup_insert d now key = (b, d')"
  shows "\<forall>e \<in> set (entries d'). now < snd e"
  using assms by (auto simp: dedup_insert_eq sweep_def sweep_entries_filter deadline_def split: if_splits)

lemma alive_size:
  assumes "um_ok (entries d)" and "\<forall>e \<in> set (entries d). now < snd e"
  shows "dedup_size d = card {k. dedup_seen d now k}"
proof -
  have "{k. dedup_seen d now k} = fst ` set (entries d)"
  proof (intro set_eqI iffI)
    fix k assume "k \<in> {k. dedup_seen d now k}"
    then show "k \<in> fst ` set (entries d)"
      by (auto simp: dedup_seen_def split: option.splits dest!: map_of_SomeD intro: rev_image_eqI)
  next
    fix k assume "k \<in> fst ` set (entries d)"
    then obtain dl where "(k, dl) \<in> set (entries d)" by auto
    then show "k \<in> {k. dedup_seen d now k}"
      using assms by (force simp: dedup_seen_def)
  qed
  moreover have "card (fst ` set (entries d)) = length (entries d)"
    using distinct_card [OF assms(1)] by simp
  ultimately show ?thesis by (simp add: dedup_size_def)
qed

text \<open>
  Bounded memory: after a delivery at \<open>now\<close> in a run with non-decreasing readings and a
  positive TTL, the set holds one entry for each key reported novel within the last TTL and
  nothing else.
\<close>

theorem dedup_size_is_live_keys:
  assumes "sorted (map fst (xs @ [(now, key)]))" and "0 < ttl"
  shows "dedup_size (snd (filter_run dedup_insert (new_dedup_set ttl) (xs @ [(now, key)]))) =
    card {k. \<exists>j < length (xs @ [(now, key)]). snd ((xs @ [(now, key)]) ! j) = k \<and>
            dedup_run ttl (xs @ [(now, key)]) ! j \<and>
            now < fst ((xs @ [(now, key)]) ! j) + ttl * 1000000}"
proof -
  let ?ys = "xs @ [(now, key)]"
  obtain bs d1 where run: "filter_run dedup_insert (new_dedup_set ttl) xs = (bs, d1)" by fastforce
  obtain b d2 where ins: "dedup_insert d1 now key = (b, d2)" by fastforce
  have d2: "snd (filter_run dedup_insert (new_dedup_set ttl) ?ys) = d2"
    using run ins by (simp add: filter_run_snoc)
  have d1: "ttl_ms d1 = ttl \<and> um_ok (entries d1)"
    using dedup.run_valid [OF new_dedup_valid, of ttl xs] run by simp
  have "um_ok (entries d2)" using dedup.insert_valid [OF d1 ins] by simp
  moreover have "\<forall>e \<in> set (entries d2). now < snd e"
    using swept_alive [OF _ _ ins] d1 assms(2) by simp
  ultimately have "dedup_size d2 = card {k. dedup_seen d2 now k}"
    by (rule alive_size)
  moreover have "\<forall>x \<in> set ?ys. fst x \<le> now"
    using assms(1) by (auto simp: sorted_append)
  ultimately show ?thesis
    using dedup.run_seen [OF new_dedup_valid assms(1), where now' = now and ttl = ttl] unfolding d2 by simp
qed

theorem dedup_size_is_live_keys_witness:
  "dedup_size (snd (filter_run dedup_insert (new_dedup_set 1) ([] @ [(7 :: int, ''a'')]))) =
   card {k. \<exists>j < length ([] @ [(7 :: int, ''a'')]). snd (([] @ [(7 :: int, ''a'')]) ! j) = k \<and>
      dedup_run 1 ([] @ [(7 :: int, ''a'')]) ! j \<and> (7 :: int) < fst (([] @ [(7 :: int, ''a'')]) ! j) + 1 * 1000000}"
  by (rule dedup_size_is_live_keys) simp_all

text \<open>
  The readings and the deadlines are 64-bit in the code: as long as the clock stays a TTL
  below the largest time point, every deadline is representable and the integers here are
  the code's.
\<close>

lemma dedup_deadlines_fit:
  assumes "dedup_insert d now key = (b, d')" and "\<forall>e \<in> set (entries d). in_i64 (snd e)"
    and "0 \<le> now" and "0 \<le> ttl_ms d" and "now \<le> i64_max - ttl_ms d * 1000000"
  shows "\<forall>e \<in> set (entries d'). in_i64 (snd e)"
  using assms
  by (auto simp: dedup_insert_def sweep_def sweep_entries_filter deadline_def in_i64_def Let_def
      split: option.splits)

text \<open>
  The clock is read before the lock is taken, so a call can be overtaken by one with a later
  reading that sweeps its key: then the key is reported novel a second time although, by the
  reading of its own call, its TTL has not passed.
\<close>

theorem overtaken_call_repeats_key:
  assumes "0 < ttl"
  shows "dedup_run ttl [(0, ''a''), (ttl * 1000000, ''b''), (ttl * 1000000 - 1, ''a'')] = [True, True, True]"
  using assms by (simp add: dedup_insert_def new_dedup_set_def sweep_def deadline_def Let_def)

theorem overtaken_call_repeats_key_witness:
  "dedup_run 5 [(0, ''a''), (5 * 1000000, ''b''), (5 * 1000000 - 1, ''a'')] = [True, True, True]"
  by (rule overtaken_call_repeats_key) simp

end
