(* ===== verification/Jet_Stream.thy ===== *)
theory Jet_Stream
  imports Result_Error Sequence
begin

text \<open>
  The JetStream port (include/uaop/common/jetstream.h) and its in-memory adapter
  (include/uaop/common/in_memory_jetstream.h, src/in_memory_jetstream.cpp). Handlers run
  after the lock is released and may call back into the stream, so a handler is a value of
  a type \<open>'h\<close> that an interpreter \<open>run\<close> turns into a change of the stream and of a world
  \<open>'w\<close> outside it. Each locked section is one atomic step; a run of steps stands for any
  interleaving of threads and of calls from handlers.
\<close>

section \<open>State\<close>

record message =
  msg_subject :: string
  msg_payload :: "u8 list"
  msg_sequence :: u64

record 'h subscription =
  sub_subject :: string
  durable_name :: string
  handler :: 'h

record 'h jetstream =
  next_sequence :: u64
  last_acked :: u64
  msg_log :: "u64 \<Rightarrow> message option"
  subscriptions :: "'h subscription list"

definition new_jetstream :: "'h jetstream" where
  "new_jetstream =
     \<lparr>next_sequence = 1, last_acked = 0, msg_log = (\<lambda>_. None), subscriptions = []\<rparr>"

type_synonym ('h, 'w) interp = "'h \<Rightarrow> message \<Rightarrow> 'h jetstream \<times> 'w \<Rightarrow> 'h jetstream \<times> 'w"

section \<open>Operations\<close>

definition subscribers :: "'h jetstream \<Rightarrow> string \<Rightarrow> 'h subscription list" where
  "subscribers js subj = filter (\<lambda>sub. sub_subject sub = subj) (subscriptions js)"

text \<open>The locked section of \<open>publish\<close>: the message, whom to notify, the new state.\<close>

definition publish_locked ::
  "'h jetstream \<Rightarrow> string \<Rightarrow> u8 list \<Rightarrow> message \<times> 'h subscription list \<times> 'h jetstream" where
  "publish_locked js subj pl =
     (let msg = \<lparr>msg_subject = subj, msg_payload = pl, msg_sequence = next_sequence js\<rparr>;
          js' = js\<lparr>next_sequence := next_sequence js + 1,
                   msg_log := (msg_log js)(msg_sequence msg \<mapsto> msg)\<rparr>
      in (msg, subscribers js' subj, js'))"

fun notify ::
  "('h, 'w) interp \<Rightarrow> message \<Rightarrow> 'h subscription list \<Rightarrow> 'h jetstream \<times> 'w \<Rightarrow> 'h jetstream \<times> 'w" where
  "notify run msg [] st = st"
| "notify run msg (sub # subs) st = notify run msg subs (run (handler sub) msg st)"

definition js_publish ::
  "('h, 'w) interp \<Rightarrow> string \<Rightarrow> u8 list \<Rightarrow> 'h jetstream \<times> 'w
     \<Rightarrow> (unit, error) result \<times> 'h jetstream \<times> 'w" where
  "js_publish run subj pl st =
     (let (msg, subs, js') = publish_locked (fst st) subj pl
      in (Ok (), notify run msg subs (js', snd st)))"

definition js_subscribe ::
  "'h jetstream \<Rightarrow> string \<Rightarrow> string \<Rightarrow> 'h \<Rightarrow> (unit, error) result \<times> 'h jetstream" where
  "js_subscribe js subj durable h =
     (Ok (), js\<lparr>subscriptions := subscriptions js @
        [\<lparr>sub_subject = subj, durable_name = durable, handler = h\<rparr>]\<rparr>)"

definition js_ack :: "'h jetstream \<Rightarrow> u64 \<Rightarrow> 'h jetstream" where
  "js_ack js seq = (if seq > last_acked js then js\<lparr>last_acked := seq\<rparr> else js)"

definition js_redeliver ::
  "('h, 'w) interp \<Rightarrow> u64 \<Rightarrow> 'h jetstream \<times> 'w \<Rightarrow> 'h jetstream \<times> 'w" where
  "js_redeliver run seq st =
     (case msg_log (fst st) seq of
        None \<Rightarrow> st
      | Some msg \<Rightarrow> notify run msg (subscribers (fst st) (msg_subject msg)) st)"

definition last_published_sequence :: "'h jetstream \<Rightarrow> u64" where
  "last_published_sequence js = next_sequence js - 1"

definition last_acked_sequence :: "'h jetstream \<Rightarrow> u64" where
  "last_acked_sequence js = last_acked js"

text \<open>Publication is a source of sequence numbers, like the counters of Sequence.\<close>

interpretation js_seq: monotone_source
    "\<lambda>js. let (msg, subs, js') = publish_locked js subj pl in (msg_sequence msg, js')"
    last_published_sequence for subj pl
  by unfold_locales (auto simp: publish_locked_def last_published_sequence_def Let_def)

section \<open>Steps\<close>

text \<open>The locked sections that change the stream, counting publications.\<close>

inductive js_steps :: "nat \<Rightarrow> 'h jetstream \<Rightarrow> 'h jetstream \<Rightarrow> bool" where
  steps_refl: "js_steps 0 js js"
| steps_publish: "js_steps n js js1 \<Longrightarrow> publish_locked js1 subj pl = (msg, subs, js2) \<Longrightarrow>
    js_steps (Suc n) js js2"
| steps_subscribe: "js_steps n js js1 \<Longrightarrow> js_subscribe js1 subj durable h = (r, js2) \<Longrightarrow>
    js_steps n js js2"
| steps_ack: "js_steps n js js1 \<Longrightarrow> js_steps n js (js_ack js1 seq)"

lemma steps_sequence: "js_steps n js js' \<Longrightarrow> next_sequence js' = next_sequence js + of_nat n"
  by (induction rule: js_steps.induct)
     (auto simp: publish_locked_def js_subscribe_def js_ack_def Let_def)

lemma steps_log_key:
  "js_steps n js js' \<Longrightarrow> (\<forall>k m. msg_log js k = Some m \<longrightarrow> msg_sequence m = k) \<Longrightarrow>
   msg_log js' k = Some m \<Longrightarrow> msg_sequence m = k"
  by (induction arbitrary: k m rule: js_steps.induct)
     (auto simp: publish_locked_def js_subscribe_def js_ack_def Let_def split: if_splits)

text \<open>The keys written by \<open>n\<close> publications are the \<open>n\<close> numbers from \<open>next_sequence\<close> on.\<close>

lemma steps_log_frame:
  "js_steps n js js' \<Longrightarrow> (\<forall>i < n. k \<noteq> next_sequence js + of_nat i) \<Longrightarrow> msg_log js' k = msg_log js k"
  by (induction rule: js_steps.induct)
     (auto simp: publish_locked_def js_subscribe_def js_ack_def Let_def steps_sequence)

lemma steps_log_dom:
  "js_steps n js js' \<Longrightarrow>
   msg_log js' k \<noteq> None \<longleftrightarrow> msg_log js k \<noteq> None \<or> (\<exists>i < n. k = next_sequence js + of_nat i)"
  by (induction rule: js_steps.induct)
     (auto simp: publish_locked_def js_subscribe_def js_ack_def Let_def steps_sequence less_Suc_eq)

section \<open>The log\<close>

lemma unat_one_plus: "i < 2 ^ 64 - 1 \<Longrightarrow> unat (1 + of_nat i :: u64) = Suc i"
  by (simp add: unat_word_ariths unat_of_nat)

text \<open>
  C3. After n publications of a new stream, with any subscriptions and acknowledgements in
  between, the last published sequence is n, the log holds exactly the sequences 1 to n,
  and every message is filed under its own sequence.
\<close>

theorem jetstream_log_invariant:
  assumes "js_steps n new_jetstream js" and "n < 2 ^ 64 - 1"
  shows "unat (last_published_sequence js) = n \<and>
         (\<forall>k. msg_log js k \<noteq> None \<longleftrightarrow> 1 \<le> unat k \<and> unat k \<le> n) \<and>
         (\<forall>k m. msg_log js k = Some m \<longrightarrow> msg_sequence m = k)"
proof (intro conjI allI)
  show "unat (last_published_sequence js) = n"
    using steps_sequence [OF assms(1)] assms(2)
    by (simp add: last_published_sequence_def new_jetstream_def unat_of_nat)
  fix k :: u64
  have "(\<exists>i < n. k = 1 + of_nat i) \<longleftrightarrow> 1 \<le> unat k \<and> unat k \<le> n"
  proof
    assume "\<exists>i < n. k = 1 + of_nat i"
    then obtain i where "i < n" "k = 1 + of_nat i" by blast
    then have "unat k = Suc i" using assms(2) unat_one_plus [of i] by simp
    with \<open>i < n\<close> show "1 \<le> unat k \<and> unat k \<le> n" by simp
  next
    assume "1 \<le> unat k \<and> unat k \<le> n"
    then have "unat k - 1 < n" "unat k = Suc (unat k - 1)" by linarith+
    then have "k = 1 + of_nat (unat k - 1)"
      by (metis of_nat_Suc of_nat_unat ucast_id)
    with \<open>unat k - 1 < n\<close> show "\<exists>i < n. k = 1 + of_nat i" by blast
  qed
  then show "msg_log js k \<noteq> None \<longleftrightarrow> 1 \<le> unat k \<and> unat k \<le> n"
    using steps_log_dom [OF assms(1), of k] by (simp add: new_jetstream_def)
  fix m
  show "msg_log js k = Some m \<longrightarrow> msg_sequence m = k"
    using steps_log_key [OF assms(1)] by (simp add: new_jetstream_def)
qed

theorem jetstream_log_invariant_witness:
  "unat (last_published_sequence
     (snd (snd (publish_locked (new_jetstream :: unit jetstream) ''s'' [1])))) = 1"
proof -
  have "js_steps (Suc 0) (new_jetstream :: unit jetstream)
      (snd (snd (publish_locked new_jetstream ''s'' [1])))"
    by (rule steps_publish [OF steps_refl, of new_jetstream "''s''" "[1]"]) (simp add: publish_locked_def Let_def)
  from jetstream_log_invariant [OF this] show ?thesis by simp
qed

text \<open>
  Redelivery is faithful: whatever is published, subscribed and acknowledged after a
  publication (up to 2^64 - 1 publications in all), redelivering its sequence hands the
  message as it was published, content and sequence, to every current subscriber of its
  subject, in the order they subscribed.
\<close>

theorem redelivery_is_faithful:
  assumes "publish_locked js subj pl = (msg, subs, js1)"
    and "js_steps n js1 js2" and "n < 2 ^ 64 - 1"
  shows "js_redeliver run (msg_sequence msg) (js2, w) =
         notify run \<lparr>msg_subject = subj, msg_payload = pl, msg_sequence = next_sequence js\<rparr>
           (filter (\<lambda>sub. sub_subject sub = subj) (subscriptions js2)) (js2, w)"
proof -
  have msg: "msg = \<lparr>msg_subject = subj, msg_payload = pl, msg_sequence = next_sequence js\<rparr>"
    and next1: "next_sequence js1 = next_sequence js + 1"
    and log1: "msg_log js1 (msg_sequence msg) = Some msg"
    using assms(1) by (auto simp: publish_locked_def Let_def)
  have "msg_sequence msg \<noteq> next_sequence js1 + of_nat i" if "i < n" for i
  proof
    assume "msg_sequence msg = next_sequence js1 + of_nat i"
    then have "(1 + of_nat i :: u64) = 0" by (simp add: msg next1 add.assoc)
    moreover have "unat (1 + of_nat i :: u64) = Suc i" using that assms(3) by (simp add: unat_one_plus)
    ultimately show False by simp
  qed
  then have "msg_log js2 (msg_sequence msg) = Some msg"
    using steps_log_frame [OF assms(2)] log1 by simp
  then show ?thesis by (simp add: js_redeliver_def subscribers_def msg)
qed

theorem redelivery_is_faithful_witness:
  "js_redeliver (\<lambda>h m (js, w). (js, w @ [(h, msg_payload m)])) 1
     (snd (snd (publish_locked (snd (js_subscribe new_jetstream ''s'' ''d'' ''h'')) ''s'' [7])), []) =
   notify (\<lambda>h m (js, w). (js, w @ [(h, msg_payload m)]))
     \<lparr>msg_subject = ''s'', msg_payload = [7], msg_sequence = 1\<rparr>
     [\<lparr>sub_subject = ''s'', durable_name = ''d'', handler = ''h''\<rparr>]
     (snd (snd (publish_locked (snd (js_subscribe new_jetstream ''s'' ''d'' ''h'')) ''s'' [7])), [])"
  using redelivery_is_faithful
    [OF _ steps_refl, of "snd (js_subscribe new_jetstream ''s'' ''d'' ''h'')" "''s''" "[7]"
       "\<lparr>msg_subject = ''s'', msg_payload = [7], msg_sequence = 1\<rparr>"
       "[\<lparr>sub_subject = ''s'', durable_name = ''d'', handler = ''h''\<rparr>]"
       "snd (snd (publish_locked (snd (js_subscribe new_jetstream ''s'' ''d'' ''h'')) ''s'' [7]))"
       "\<lambda>h m (js, w). (js, w @ [(h, msg_payload m)])" "[]"]
  by (simp add: publish_locked_def js_subscribe_def subscribers_def new_jetstream_def Let_def)

section \<open>Routing\<close>

text \<open>An interpreter that only records who was handed what.\<close>

definition record_delivery :: "('h, ('h \<times> message) list) interp" where
  "record_delivery h msg st = (fst st, snd st @ [(h, msg)])"

lemma notify_record:
  "notify record_delivery msg subs (js, w) = (js, w @ map (\<lambda>sub. (handler sub, msg)) subs)"
  by (induction subs arbitrary: w) (auto simp: record_delivery_def)

text \<open>
  Exact-subject routing: a publication succeeds, and the message, carrying the next
  sequence, is handed once to each subscription of exactly its subject, in subscription
  order, and to no other.
\<close>

theorem publish_routes_by_exact_subject:
  "js_publish record_delivery subj pl (js, w) =
     (Ok (), snd (snd (publish_locked js subj pl)),
      w @ map (\<lambda>sub. (handler sub,
                 \<lparr>msg_subject = subj, msg_payload = pl, msg_sequence = last_published_sequence js + 1\<rparr>))
            (filter (\<lambda>sub. sub_subject sub = subj) (subscriptions js)))"
  by (simp add: js_publish_def publish_locked_def subscribers_def notify_record
      last_published_sequence_def Let_def)

section \<open>Acknowledgement\<close>

lemma ack_max: "last_acked (js_ack js seq) = max (last_acked js) seq"
  by (auto simp: js_ack_def max_def)

lemma acks_max: "last_acked (fold (\<lambda>seq js. js_ack js seq) seqs js) = fold max seqs (last_acked js)"
  by (induction seqs arbitrary: js) (simp_all add: ack_max max.commute)

text \<open>
  The acknowledged position is the largest sequence acknowledged so far, whatever the
  order and the repetitions of the acknowledgements: it never moves back, and the set of
  acknowledged sequences determines it.
\<close>

theorem ack_position_is_maximum:
  "last_acked_sequence (fold (\<lambda>seq js. js_ack js seq) seqs js) =
   Max (insert (last_acked_sequence js) (set seqs))"
  unfolding last_acked_sequence_def acks_max
  by (simp add: Max.set_eq_fold [symmetric])

text \<open>
  One position serves every durable consumer and nothing ties it to what was published:
  acknowledging a sequence beyond the last published one is accepted, and every later
  acknowledgement of a message up to it, by any consumer, leaves the stream as it is.
\<close>

theorem ack_is_shared_and_unchecked:
  assumes "last_acked_sequence js < ahead" and "seq \<le> ahead"
  shows "last_acked_sequence (js_ack js ahead) = ahead \<and>
         js_ack (js_ack js ahead) seq = js_ack js ahead"
  using assms by (auto simp: js_ack_def last_acked_sequence_def)

theorem ack_is_shared_and_unchecked_witness:
  "last_acked_sequence (js_ack (new_jetstream :: unit jetstream) 100) = 100 \<and>
   js_ack (js_ack (new_jetstream :: unit jetstream) 100) 1 = js_ack new_jetstream 100"
  by (rule ack_is_shared_and_unchecked) (simp_all add: new_jetstream_def last_acked_sequence_def)

end
