(* ===== verification/Idempotent_Consumer.thy ===== *)
theory Idempotent_Consumer
  imports Dedup Jet_Stream
begin

text \<open>
  The consumption pattern include/uaop/common/jetstream.h prescribes and
  tests/dedup_jetstream_test.cpp exercises: a handler that asks a \<open>DedupSet\<close>, keyed on the
  identifier in the payload, before it processes a delivery. Redelivery by the stream is
  then harmless.
\<close>

record consumer =
  clock :: int
  dd :: dedup_set
  processed :: "string list"

definition event_id :: "u8 list \<Rightarrow> string" where
  "event_id pl = map (\<lambda>b. char_of (unat b)) pl"

fun consume :: "(unit, consumer) interp" where
  "consume h msg (js, c) =
     (let (novel, d') = dedup_insert (dd c) (clock c) (event_id (msg_payload msg))
      in (js, c\<lparr>dd := d',
                processed := (if novel then processed c @ [event_id (msg_payload msg)]
                              else processed c)\<rparr>))"

text \<open>What the environment does, each operation at a reading of the consumer's clock.\<close>

datatype stream_op = Publish_at int string "u8 list" | Redeliver_at int u64

fun op_time :: "stream_op \<Rightarrow> int" where
  "op_time (Publish_at now subj pl) = now"
| "op_time (Redeliver_at now seq) = now"

fun op_step :: "stream_op \<Rightarrow> unit jetstream \<times> consumer \<Rightarrow> unit jetstream \<times> consumer" where
  "op_step (Publish_at now subj pl) (js, c) =
     snd (js_publish consume subj pl (js, c\<lparr>clock := now\<rparr>))"
| "op_step (Redeliver_at now seq) (js, c) = js_redeliver consume seq (js, c\<lparr>clock := now\<rparr>)"

definition start_consumer :: "string \<Rightarrow> string \<Rightarrow> int \<Rightarrow> unit jetstream \<times> consumer" where
  "start_consumer subj durable ttl =
     (snd (js_subscribe new_jetstream subj durable ()),
      \<lparr>clock = 0, dd = new_dedup_set ttl, processed = []\<rparr>)"

definition published_ids :: "string \<Rightarrow> stream_op list \<Rightarrow> string set" where
  "published_ids subj ops = {event_id pl | now pl. Publish_at now subj pl \<in> set ops}"

text \<open>
  The consumer's state is that of its dedup set run over the deliveries it saw, which are
  the publications on its subject and redeliveries of them.
\<close>

definition consumed :: "int \<Rightarrow> (int \<times> string) list \<Rightarrow> consumer \<Rightarrow> bool" where
  "consumed ttl ds c \<longleftrightarrow>
     dd c = snd (filter_run dedup_insert (new_dedup_set ttl) ds) \<and>
     processed c = accepted_keys ds (dedup_run ttl ds)"

definition saw ::
  "string \<Rightarrow> int \<Rightarrow> (int \<times> string) list \<Rightarrow> unit jetstream \<times> consumer \<Rightarrow> bool" where
  "saw subj ttl ds st \<longleftrightarrow>
     consumed ttl ds (snd st) \<and>
     map sub_subject (subscriptions (fst st)) = [subj] \<and>
     (\<forall>k m. msg_log (fst st) k = Some m \<and> msg_subject m = subj \<longrightarrow>
        event_id (msg_payload m) \<in> snd ` set ds)"

lemma consumed_clock [simp]: "consumed ttl ds (c\<lparr>clock := now\<rparr>) \<longleftrightarrow> consumed ttl ds c"
  by (simp add: consumed_def)

lemma saw_clock [simp]: "saw subj ttl ds (js, c\<lparr>clock := now\<rparr>) \<longleftrightarrow> saw subj ttl ds (js, c)"
  by (simp add: saw_def)

lemma fst_consume [simp]: "fst (consume h msg (js, c)) = js"
  by (simp add: split_beta Let_def)

lemma consumed_consume:
  assumes "consumed ttl ds c"
  shows "consumed ttl (ds @ [(clock c, event_id (msg_payload msg))]) (snd (consume h msg (js, c)))"
proof -
  obtain novel d' where ins:
    "dedup_insert (dd c) (clock c) (event_id (msg_payload msg)) = (novel, d')" by fastforce
  have run: "filter_run dedup_insert (new_dedup_set ttl) (ds @ [(clock c, event_id (msg_payload msg))]) =
      (dedup_run ttl ds @ [novel], d')"
    using assms ins by (simp add: consumed_def filter_run_snoc split_beta)
  with assms ins show ?thesis by (simp add: consumed_def accepted_keys_snoc del: filter_run_snoc)
qed

declare consume.simps [simp del]

lemma single_subscriber:
  "map sub_subject (subscriptions js) = [subj] \<Longrightarrow>
   (\<exists>sub. subscribers js subj = [sub]) \<and> (subj' \<noteq> subj \<longrightarrow> subscribers js subj' = [])"
  by (cases "subscriptions js") (auto simp: subscribers_def)

lemma saw_step:
  assumes "saw subj ttl ds st"
  shows "\<exists>new. saw subj ttl (ds @ new) (op_step op st) \<and> fst ` set new \<subseteq> {op_time op} \<and>
    length new \<le> 1 \<and> snd ` set (ds @ new) = snd ` set ds \<union> published_ids subj [op]"
proof -
  obtain js c where st: "st = (js, c)" by (cases st)
  show ?thesis
  proof (cases op)
    case (Publish_at now s pl)
    obtain msg subs js' where pub: "publish_locked js s pl = (msg, subs, js')" by (metis prod_cases3)
    have facts: "msg_payload msg = pl" "msg_subject msg = s" "subs = subscribers js' s"
      "subscriptions js' = subscriptions js" "msg_log js' = (msg_log js)(msg_sequence msg \<mapsto> msg)"
      using pub by (auto simp: publish_locked_def Let_def)
    have subj: "map sub_subject (subscriptions js') = [subj]"
      using assms by (simp add: saw_def st facts)
    show ?thesis
    proof (cases "s = subj")
      case True
      obtain sub where "subs = [sub]"
        using single_subscriber [OF subj] True facts by auto
      then have step: "op_step op st = consume (handler sub) msg (js', c\<lparr>clock := now\<rparr>)"
        by (simp add: Publish_at st js_publish_def pub)
      have "consumed ttl (ds @ [(now, event_id pl)]) (snd (op_step op st))"
        using consumed_consume [of ttl ds "c\<lparr>clock := now\<rparr>" msg] assms unfolding step
        by (simp add: facts saw_def st)
      then have "saw subj ttl (ds @ [(now, event_id pl)]) (op_step op st)"
        using assms subj unfolding saw_def step by (auto simp: facts st)
      then show ?thesis
        using True by (intro exI [of _ "[(now, event_id pl)]"]) (auto simp: Publish_at published_ids_def)
    next
      case False
      then have "subs = []" using single_subscriber [OF subj, of s] facts by simp
      then have "op_step op st = (js', c\<lparr>clock := now\<rparr>)"
        by (simp add: Publish_at st js_publish_def pub)
      then have "saw subj ttl ds (op_step op st)"
        using assms False by (auto simp: saw_def st facts)
      then show ?thesis
        using False by (intro exI [of _ "[]"]) (auto simp: Publish_at published_ids_def)
    qed
  next
    case (Redeliver_at now seq)
    show ?thesis
    proof (cases "\<exists>m. msg_log js seq = Some m \<and> msg_subject m = subj")
      case True
      then obtain m where m: "msg_log js seq = Some m" "msg_subject m = subj" by blast
      have "map sub_subject (subscriptions js) = [subj]"
        using assms by (simp only: saw_def st fst_conv)
      then have "\<exists>sub. subscribers js subj = [sub]"
        by (rule single_subscriber [THEN conjunct1])
      then obtain sub where "subscribers js subj = [sub]" ..
      then have step: "op_step op st = consume (handler sub) m (js, c\<lparr>clock := now\<rparr>)"
        by (simp add: Redeliver_at st js_redeliver_def m)
      have "event_id (msg_payload m) \<in> snd ` set ds"
        using assms m by (auto simp: saw_def st)
      moreover have "saw subj ttl (ds @ [(now, event_id (msg_payload m))]) (op_step op st)"
        using consumed_consume [of ttl ds "c\<lparr>clock := now\<rparr>" m] assms unfolding step
        by (auto simp: st saw_def)
      ultimately show ?thesis
        by (intro exI [of _ "[(now, event_id (msg_payload m))]"])
           (auto simp: Redeliver_at published_ids_def)
    next
      case False
      then have "op_step op st = (js, c\<lparr>clock := now\<rparr>)"
        using single_subscriber [of js subj] assms
        by (auto simp: Redeliver_at st js_redeliver_def saw_def split: option.splits)
      then have "saw subj ttl ds (op_step op st)" using assms by (simp add: st)
      then show ?thesis
        by (intro exI [of _ "[]"]) (auto simp: Redeliver_at published_ids_def)
    qed
  qed
qed

lemma saw_run:
  "sorted (map op_time ops) \<Longrightarrow>
   \<exists>ds. saw subj ttl ds (fold op_step ops (start_consumer subj durable ttl)) \<and>
     sorted (map fst ds) \<and> fst ` set ds \<subseteq> op_time ` set ops \<and>
     snd ` set ds = published_ids subj ops"
proof (induction ops rule: rev_induct)
  case Nil
  then show ?case
    by (intro exI [of _ "[]"])
       (auto simp: saw_def consumed_def start_consumer_def js_subscribe_def new_jetstream_def accepted_keys_def
          published_ids_def)
next
  case (snoc op ops)
  then obtain ds where ds: "saw subj ttl ds (fold op_step ops (start_consumer subj durable ttl))"
      "sorted (map fst ds)" "fst ` set ds \<subseteq> op_time ` set ops"
      "snd ` set ds = published_ids subj ops"
    by (auto simp: sorted_append)
  obtain new where new: "saw subj ttl (ds @ new) (op_step op (fold op_step ops (start_consumer subj durable ttl)))"
      "fst ` set new \<subseteq> {op_time op}" "length new \<le> 1"
      "snd ` set (ds @ new) = snd ` set ds \<union> published_ids subj [op]"
    using saw_step [OF ds(1)] by blast
  have "sorted (map fst new)" using new(3) by (cases new) auto
  then have "sorted (map fst (ds @ new))"
  proof -
    have "fst d \<le> fst n" if "d \<in> set ds" "n \<in> set new" for d n
    proof -
      have "fst d \<in> op_time ` set ops" using that(1) ds(3) by auto
      moreover have "fst n = op_time op" using that(2) new(2) by auto
      ultimately show ?thesis using snoc.prems by (auto simp: sorted_append)
    qed
    with \<open>sorted (map fst new)\<close> ds(2) show ?thesis by (auto simp: sorted_append)
  qed
  moreover have "snd ` set (ds @ new) = published_ids subj (ops @ [op])"
    using ds(4) new(4) by (auto simp: published_ids_def)
  ultimately show ?case
    using new(1,2) ds(3) by (intro exI [of _ "ds @ new"]) auto
qed

text \<open>
  Exactly-once processing: a consumer that asks a dedup set before processing, fed by
  any publications and any redeliveries (of known, unknown or foreign sequences, any number
  of times) whose readings lie within one TTL, processes each event published on its
  subject exactly once and nothing else.
\<close>

theorem at_least_once_plus_dedup_is_exactly_once:
  assumes "sorted (map op_time ops)"
    and "\<forall>x \<in> set ops. \<forall>y \<in> set ops. op_time y < op_time x + ttl * 1000000"
  shows "distinct (processed (snd (fold op_step ops (start_consumer subj durable ttl)))) \<and>
         set (processed (snd (fold op_step ops (start_consumer subj durable ttl)))) =
           published_ids subj ops"
proof -
  obtain ds where ds: "saw subj ttl ds (fold op_step ops (start_consumer subj durable ttl))"
      "sorted (map fst ds)" "fst ` set ds \<subseteq> op_time ` set ops"
      "snd ` set ds = published_ids subj ops"
    using saw_run [OF assms(1)] by blast
  have "fst y < fst x + ttl * 1000000" if "x \<in> set ds" "y \<in> set ds" for x y
  proof -
    have "fst x \<in> op_time ` set ops" "fst y \<in> op_time ` set ops" using that ds(3) by auto
    then show ?thesis using assms(2) by auto
  qed
  then have "distinct (accepted_keys ds (dedup_run ttl ds)) \<and>
      set (accepted_keys ds (dedup_run ttl ds)) = snd ` set ds"
    by (intro accepted_once) blast
  with ds(1,4) show ?thesis by (simp only: saw_def consumed_def)
qed

theorem at_least_once_plus_dedup_is_exactly_once_witness:
  "distinct (processed (snd (fold op_step
      [Publish_at 0 ''s'' [101], Redeliver_at 1 1, Redeliver_at 2 9, Publish_at 3 ''other'' [102]]
      (start_consumer ''s'' ''vehicle-manager'' 5000)))) \<and>
   set (processed (snd (fold op_step
      [Publish_at 0 ''s'' [101], Redeliver_at 1 1, Redeliver_at 2 9, Publish_at 3 ''other'' [102]]
      (start_consumer ''s'' ''vehicle-manager'' 5000)))) =
   published_ids ''s''
      [Publish_at 0 ''s'' [101], Redeliver_at 1 1, Redeliver_at 2 9, Publish_at 3 ''other'' [102]]"
  by (rule at_least_once_plus_dedup_is_exactly_once) simp_all

end
