(* ===== verification/Jet_Delivery.thy ===== *)
theory Jet_Delivery
  imports Jet_Stream "HOL-Library.Multiset"
begin

text \<open>
  Delivery by the in-memory stream when several threads publish at once or a handler publishes
  again (src/in_memory_jetstream.cpp). The locked section of \<open>publish\<close> and \<open>redeliver\<close> is one
  step, as are \<open>subscribe\<close> and \<open>ack\<close>; the calls of the handlers that follow it outside the lock are one step each. A thread's
  activations of \<open>publish\<close> and \<open>redeliver\<close> form a stack, since a handler may call the stream;
  each holds the message and the subscriptions still to be notified.
\<close>

section \<open>Steps\<close>

type_synonym 'h activation = "message \<times> 'h subscription list"

record 'h delivery =
  stream :: "'h jetstream"
  stacks :: "'h activation list list"   \<comment> \<open>one per thread, innermost first\<close>
  handed :: "('h \<times> message) list"       \<comment> \<open>calls of handlers so far, in order\<close>

datatype 'h dl_action =
    Dl_publish nat string "u8 list"
  | Dl_redeliver nat u64
  | Dl_deliver nat
  | Dl_return nat
  | Dl_ack u64
  | Dl_subscribe string string 'h

inductive dl_step :: "'h dl_action \<Rightarrow> 'h delivery \<Rightarrow> 'h delivery \<Rightarrow> bool" where
  dl_publish: "t < length (stacks s) \<Longrightarrow> publish_locked (stream s) subj pl = (msg, subs, js) \<Longrightarrow>
    dl_step (Dl_publish t subj pl) s
      (s\<lparr>stream := js, stacks := (stacks s)[t := (msg, subs) # stacks s ! t]\<rparr>)"
| dl_redeliver: "t < length (stacks s) \<Longrightarrow> msg_log (stream s) seq = Some msg \<Longrightarrow>
    dl_step (Dl_redeliver t seq) s
      (s\<lparr>stacks := (stacks s)[t := (msg, subscribers (stream s) (msg_subject msg)) # stacks s ! t]\<rparr>)"
| dl_deliver: "t < length (stacks s) \<Longrightarrow> stacks s ! t = (msg, sub # subs) # st \<Longrightarrow>
    dl_step (Dl_deliver t) s
      (s\<lparr>stacks := (stacks s)[t := (msg, subs) # st], handed := handed s @ [(handler sub, msg)]\<rparr>)"
| dl_return: "t < length (stacks s) \<Longrightarrow> stacks s ! t = (msg, []) # st \<Longrightarrow>
    dl_step (Dl_return t) s (s\<lparr>stacks := (stacks s)[t := st]\<rparr>)"
| dl_ack: "dl_step (Dl_ack seq) s (s\<lparr>stream := js_ack (stream s) seq\<rparr>)"
| dl_subscribe: "js_subscribe (stream s) subj durable h = (r, js) \<Longrightarrow>
    dl_step (Dl_subscribe subj durable h) s (s\<lparr>stream := js\<rparr>)"

inductive dl_path :: "'h delivery \<Rightarrow> 'h dl_action list \<Rightarrow> 'h delivery \<Rightarrow> bool" where
  dl_nil: "dl_path s [] s"
| dl_cons: "dl_step a s s1 \<Longrightarrow> dl_path s1 tr s' \<Longrightarrow> dl_path s (a # tr) s'"

inductive_simps dl_path_Nil [simp]: "dl_path s [] s'"
inductive_simps dl_path_Cons [simp]: "dl_path s (a # tr) s'"
inductive_simps dl_step_simps [simp]:
  "dl_step (Dl_publish t subj pl) s s'" "dl_step (Dl_redeliver t seq) s s'"
  "dl_step (Dl_deliver t) s s'" "dl_step (Dl_return t) s s'" "dl_step (Dl_ack seq) s s'"
  "dl_step (Dl_subscribe subj durable h) s s'"

text \<open>A stream with subscriptions and no messages yet, \<open>n\<close> idle threads.\<close>

definition delivery_start :: "'h subscription list \<Rightarrow> nat \<Rightarrow> 'h delivery" where
  "delivery_start subs n =
     \<lparr>stream = new_jetstream\<lparr>subscriptions := subs\<rparr>, stacks = replicate n [], handed = []\<rparr>"

definition dl_idle :: "'h delivery \<Rightarrow> bool" where
  "dl_idle s \<longleftrightarrow> set (stacks s) \<subseteq> {[]}"

text \<open>
  One thread alone, whose handlers do not call back, is \<open>js_publish\<close> with the handlers'
  calls recorded.
\<close>

lemma deliver_all:
  "t < length (stacks s) \<Longrightarrow> stacks s ! t = (msg, subs) # st \<Longrightarrow>
   dl_path s (replicate (length subs) (Dl_deliver t) @ [Dl_return t])
     (s\<lparr>stacks := (stacks s)[t := st], handed := handed s @ map (\<lambda>sub. (handler sub, msg)) subs\<rparr>)"
proof (induction subs arbitrary: s)
  case (Cons sub subs)
  then show ?case
    using Cons.IH [of "s\<lparr>stacks := (stacks s)[t := (msg, subs) # st], handed := handed s @ [(handler sub, msg)]\<rparr>"]
    by simp
qed simp

lemma undisturbed_publish:
  assumes "t < length (stacks s)" and "publish_locked (stream s) subj pl = (msg, subs, js)"
  shows "dl_path s (Dl_publish t subj pl # replicate (length subs) (Dl_deliver t) @ [Dl_return t])
           (s\<lparr>stream := fst (snd (js_publish record_delivery subj pl (stream s, handed s))),
              handed := snd (snd (js_publish record_delivery subj pl (stream s, handed s)))\<rparr>)"
  using assms deliver_all [of t "s\<lparr>stream := js, stacks := (stacks s)[t := (msg, subs) # stacks s ! t]\<rparr>" msg subs "stacks s ! t"]
  by (simp add: js_publish_def notify_record)

section \<open>Nothing lost, nothing doubled\<close>

text \<open>The calls of handlers an activation, a stack, and all threads still owe.\<close>

definition owed_by :: "'h activation \<Rightarrow> ('h \<times> message) multiset" where
  "owed_by act = mset (map (\<lambda>sub. (handler sub, fst act)) (snd act))"

definition owed_by_stack :: "'h activation list \<Rightarrow> ('h \<times> message) multiset" where
  "owed_by_stack st = sum_list (map owed_by st)"

definition owed :: "'h delivery \<Rightarrow> ('h \<times> message) multiset" where
  "owed s = sum_list (map owed_by_stack (stacks s))"

lemma owed_simps [simp]:
  "owed_by_stack [] = {#}" "owed_by_stack (act # st) = owed_by act + owed_by_stack st"
  "owed_by (msg, []) = {#}" "owed_by (msg, sub # subs) = add_mset (handler sub, msg) (owed_by (msg, subs))"
  by (simp_all add: owed_by_stack_def owed_by_def)

lemma sum_list_map_update:
  fixes f :: "'a \<Rightarrow> 'b multiset"
  shows "t < length xs \<Longrightarrow> sum_list (map f (xs[t := y])) + f (xs ! t) = sum_list (map f xs) + f y"
  by (induction xs arbitrary: t) (auto simp: nth_Cons ac_simps split: nat.split)

lemma owed_update:
  assumes "t < length (stacks s)" "stacks s' = (stacks s)[t := st']"
  shows "owed s' + owed_by_stack (stacks s ! t) = owed s + owed_by_stack st'"
  using sum_list_map_update [OF assms(1)] by (simp add: owed_def assms(2))

lemma owed_idle: "dl_idle s \<Longrightarrow> owed s = {#}"
proof -
  assume "dl_idle s"
  then have "\<forall>st \<in> set (stacks s). owed_by_stack st = {#}" by (auto simp: dl_idle_def)
  moreover have "\<forall>st \<in> set sts. owed_by_stack st = {#} \<Longrightarrow> sum_list (map owed_by_stack sts) = {#}"
    for sts :: "'a activation list list" by (induction sts) auto
  ultimately show ?thesis by (simp add: owed_def)
qed

text \<open>What a step adds to the calls owed or made.\<close>

fun caused :: "'h dl_action \<Rightarrow> 'h delivery \<Rightarrow> ('h \<times> message) multiset" where
  "caused (Dl_publish t subj pl) s =
     (let (msg, subs, js) = publish_locked (stream s) subj pl in owed_by (msg, subs))"
| "caused (Dl_redeliver t seq) s =
     (case msg_log (stream s) seq of
        Some msg \<Rightarrow> owed_by (msg, subscribers (stream s) (msg_subject msg)) | None \<Rightarrow> {#})"
| "caused _ s = {#}"

lemma dl_step_balance:
  assumes "dl_step a s s'"
  shows "mset (handed s') + owed s' = mset (handed s) + owed s + caused a s"
  using assms
proof cases
  case (dl_publish t subj pl msg subs js)
  then have "owed s' + owed_by_stack (stacks s ! t) = owed s + owed_by_stack ((msg, subs) # stacks s ! t)"
    by (intro owed_update) simp_all
  then have "owed s' = owed s + owed_by (msg, subs)" by simp
  with dl_publish show ?thesis by simp
next
  case (dl_redeliver t seq msg)
  then have "owed s' + owed_by_stack (stacks s ! t) =
      owed s + owed_by_stack ((msg, subscribers (stream s) (msg_subject msg)) # stacks s ! t)"
    by (intro owed_update) simp_all
  then have "owed s' = owed s + owed_by (msg, subscribers (stream s) (msg_subject msg))" by simp
  with dl_redeliver show ?thesis by simp
next
  case (dl_deliver t msg sub subs st)
  then have "owed s' + owed_by_stack (stacks s ! t) = owed s + owed_by_stack ((msg, subs) # st)"
    by (intro owed_update) simp_all
  then have "owed s = add_mset (handler sub, msg) (owed s')" by (simp add: dl_deliver(4))
  with dl_deliver show ?thesis by simp
next
  case (dl_return t msg st)
  then have "owed s' + owed_by_stack (stacks s ! t) = owed s + owed_by_stack st"
    by (intro owed_update) simp_all
  with dl_return show ?thesis by simp
next
  case (dl_ack seq)
  then show ?thesis by (simp add: owed_def)
next
  case (dl_subscribe subj durable h r js)
  then show ?thesis by (simp add: owed_def)
qed

fun is_publish :: "'h dl_action \<Rightarrow> bool" where
  "is_publish (Dl_publish t subj pl) = True"
| "is_publish _ = False"

definition publications :: "'h dl_action list \<Rightarrow> nat" where
  "publications tr = length (filter is_publish tr)"

lemma publications_Cons [simp]:
  "publications [] = 0" "publications (a # tr) = (if is_publish a then Suc (publications tr) else publications tr)"
  by (simp_all add: publications_def)

text \<open>How often a handler is subscribed to the subject of a message.\<close>

definition subscribed :: "'h subscription list \<Rightarrow> 'h \<Rightarrow> message \<Rightarrow> nat" where
  "subscribed subs h m = length (filter (\<lambda>sub. handler sub = h \<and> sub_subject sub = msg_subject m) subs)"

lemma count_owed_by:
  "count (owed_by (msg, filter (\<lambda>sub. sub_subject sub = msg_subject msg) subs)) (h, m) =
   (if m = msg then subscribed subs h m else 0)"
  by (induction subs) (auto simp: owed_by_def subscribed_def)

text \<open>
  The calls of a handler with a message that a sequence of actions is to make: at the
  publication of its sequence number, and at each redelivery of it, one for each subscription
  the handler has to its subject at that moment. \<open>k\<close> publications went before.
\<close>

fun subscriptions_after :: "'h subscription list \<Rightarrow> 'h dl_action \<Rightarrow> 'h subscription list" where
  "subscriptions_after subs (Dl_subscribe subj durable h) =
     subs @ [\<lparr>sub_subject = subj, durable_name = durable, handler = h\<rparr>]"
| "subscriptions_after subs _ = subs"

fun announces :: "nat \<Rightarrow> 'h dl_action \<Rightarrow> u64 \<Rightarrow> bool" where
  "announces k (Dl_publish t subj pl) q \<longleftrightarrow> unat q = Suc k"
| "announces k (Dl_redeliver t seq) q \<longleftrightarrow> q = seq"
| "announces k _ q \<longleftrightarrow> False"

fun calls_due :: "'h subscription list \<Rightarrow> nat \<Rightarrow> 'h dl_action list \<Rightarrow> 'h \<Rightarrow> message \<Rightarrow> nat" where
  "calls_due subs k [] h m = 0"
| "calls_due subs k (a # tr) h m =
     (if announces k a (msg_sequence m) then subscribed subs h m else 0) +
     calls_due (subscriptions_after subs a) (if is_publish a then Suc k else k) tr h m"

lemma next_not_logged:
  assumes "js_steps k (new_jetstream\<lparr>subscriptions := subs\<rparr>) js" and "k < 2 ^ 64 - 1"
  shows "msg_log js (next_sequence js) = None" and "unat (next_sequence js) = Suc k"
proof -
  have n: "next_sequence js = 1 + of_nat k" using steps_sequence [OF assms(1)] by (simp add: new_jetstream_def)
  then show u: "unat (next_sequence js) = Suc k" using unat_one_plus [OF assms(2)] by simp
  have "next_sequence js \<noteq> 1 + of_nat i" if "i < k" for i
    using u unat_one_plus [of i] that assms(2) by (metis Suc_inject less_trans nat_neq_iff)
  then show "msg_log js (next_sequence js) = None"
    using steps_log_dom [OF assms(1), of "next_sequence js"] by (auto simp: new_jetstream_def)
qed

text \<open>One step: the log only grows, and holds what the step announces.\<close>

lemma dl_step_steps:
  "dl_step a s s1 \<Longrightarrow> js_steps k js (stream s) \<Longrightarrow> js_steps (k + publications [a]) js (stream s1)"
  by (erule dl_step.cases) (auto intro: js_steps.intros)

lemma dl_step_subscriptions:
  "dl_step a s s1 \<Longrightarrow> subscriptions (stream s1) = subscriptions_after (subscriptions (stream s)) a"
  by (erule dl_step.cases) (auto simp: publish_locked_def js_subscribe_def js_ack_def Let_def)

lemma dl_step_log_grows:
  "dl_step a s s1 \<Longrightarrow> msg_log (stream s) (next_sequence (stream s)) = None \<Longrightarrow>
   msg_log (stream s) q = Some m \<Longrightarrow> msg_log (stream s1) q = Some m"
  by (erule dl_step.cases) (auto simp: publish_locked_def js_subscribe_def js_ack_def Let_def)

lemma dl_step_announces:
  "dl_step a s s1 \<Longrightarrow> unat (next_sequence (stream s)) = Suc k \<Longrightarrow> announces k a q \<Longrightarrow>
   \<exists>m. msg_log (stream s1) q = Some m"
  using word_unat_eq_iff [of q "next_sequence (stream s)"]
  by (erule_tac dl_step.cases) (auto simp: publish_locked_def Let_def)

text \<open>The calls a step adds are those due for the message logged under the number it announces.\<close>

lemma caused_due:
  assumes "dl_step a s s1" and "unat (next_sequence (stream s)) = Suc k"
    and "\<forall>q m. msg_log (stream s) q = Some m \<longrightarrow> msg_sequence m = q"
  shows "count (caused a s) (h, m) =
         (if announces k a (msg_sequence m) \<and> msg_log (stream s1) (msg_sequence m) = Some m
          then subscribed (subscriptions (stream s)) h m else 0)"
  using assms(1)
proof cases
  case (dl_publish t subj pl msg subs js)
  let ?q = "msg_sequence m"
  have msg: "msg_sequence msg = next_sequence (stream s)" "msg_log js (msg_sequence msg) = Some msg"
    and subs: "subs = filter (\<lambda>sub. sub_subject sub = msg_subject msg) (subscriptions (stream s))"
    using dl_publish(4) by (auto simp: publish_locked_def subscribers_def Let_def)
  have c: "caused a s = owed_by (msg, filter (\<lambda>sub. sub_subject sub = msg_subject msg) (subscriptions (stream s)))"
    by (simp only: dl_publish(1,4) caused.simps Let_def prod.case subs)
  have "announces k a ?q \<longleftrightarrow> ?q = msg_sequence msg"
    using assms(2) by (simp add: dl_publish(1) msg(1) word_unat_eq_iff)
  moreover have "msg_log (stream s1) (msg_sequence msg) = Some msg"
    using msg(2) by (simp add: dl_publish(2))
  ultimately have "announces k a ?q \<and> msg_log (stream s1) ?q = Some m \<longleftrightarrow> m = msg"
    by (metis option.inject)
  then show ?thesis by (simp only: c count_owed_by)
next
  case (dl_redeliver t seq msg)
  then have c: "caused a s = owed_by (msg, filter (\<lambda>sub. sub_subject sub = msg_subject msg) (subscriptions (stream s)))"
    by (simp add: subscribers_def)
  have "stream s1 = stream s" by (simp add: dl_redeliver(2))
  moreover have "msg_sequence msg = seq" using assms(3) dl_redeliver(4) by blast
  ultimately have "announces k a (msg_sequence m) \<and> msg_log (stream s1) (msg_sequence m) = Some m \<longleftrightarrow> m = msg"
    unfolding dl_redeliver(1) using dl_redeliver(4) by (metis announces.simps(2) option.inject)
  then show ?thesis by (simp only: c count_owed_by)
qed simp_all

lemma dl_path_steps:
  "dl_path s tr s' \<Longrightarrow> js_steps k js (stream s) \<Longrightarrow> js_steps (k + publications tr) js (stream s')"
proof (induction arbitrary: k rule: dl_path.induct)
  case (dl_cons a s s1 tr s')
  then show ?case
    using dl_cons.IH [OF dl_step_steps [OF dl_cons.hyps(1) dl_cons.prems]] by (simp split: if_splits)
qed simp

lemma dl_path_log_grows:
  "dl_path s tr s' \<Longrightarrow> js_steps k (new_jetstream\<lparr>subscriptions := subs\<rparr>) (stream s) \<Longrightarrow>
   k + publications tr < 2 ^ 64 - 1 \<Longrightarrow> msg_log (stream s) q = Some m \<Longrightarrow> msg_log (stream s') q = Some m"
proof (induction arbitrary: k rule: dl_path.induct)
  case (dl_cons a s s1 tr s')
  have "js_steps (k + publications [a]) (new_jetstream\<lparr>subscriptions := subs\<rparr>) (stream s1)"
    using dl_step_steps dl_cons.hyps(1) dl_cons.prems(1) by blast
  moreover have "k < 2 ^ 64 - 1" using dl_cons.prems(2) by simp
  then have "msg_log (stream s1) q = Some m"
    using dl_step_log_grows dl_cons.hyps(1) next_not_logged(1) dl_cons.prems(1,3) by blast
  moreover have "k + publications [a] + publications tr < 2 ^ 64 - 1"
    using dl_cons.prems(2) by (simp split: if_splits)
  ultimately show ?case using dl_cons.IH by blast
qed simp

lemma dl_path_due:
  "dl_path s tr s' \<Longrightarrow> js_steps k (new_jetstream\<lparr>subscriptions := subs0\<rparr>) (stream s) \<Longrightarrow>
   k + publications tr < 2 ^ 64 - 1 \<Longrightarrow>
   count (mset (handed s') + owed s') (h, m) = count (mset (handed s) + owed s) (h, m) +
     (if msg_log (stream s') (msg_sequence m) = Some m
      then calls_due (subscriptions (stream s)) k tr h m else 0)"
proof (induction arbitrary: k rule: dl_path.induct)
  case (dl_cons a s s1 tr s')
  let ?k = "if is_publish a then Suc k else k" and ?q = "msg_sequence m"
  have steps: "js_steps ?k (new_jetstream\<lparr>subscriptions := subs0\<rparr>) (stream s1)"
    using dl_step_steps [OF dl_cons.hyps(1) dl_cons.prems(1)] by (simp split: if_splits)
  have few: "?k + publications tr < 2 ^ 64 - 1" "k < 2 ^ 64 - 1"
    using dl_cons.prems(2) by (simp_all split: if_splits)
  have "\<forall>q m. msg_log (stream s) q = Some m \<longrightarrow> msg_sequence m = q"
    using steps_log_key [OF dl_cons.prems(1)] by (simp add: new_jetstream_def)
  note now = caused_due [OF dl_cons.hyps(1) next_not_logged(2) [OF dl_cons.prems(1) few(2)] this, of h m]
  have grows: "msg_log (stream s') ?q = Some m'" if "msg_log (stream s1) ?q = Some m'" for m'
    using dl_path_log_grows [OF dl_cons.hyps(2) steps few(1) that] .
  have "announces k a ?q \<Longrightarrow> msg_log (stream s1) ?q = Some m \<longleftrightarrow> msg_log (stream s') ?q = Some m"
    using grows dl_step_announces [OF dl_cons.hyps(1) next_not_logged(2) [OF dl_cons.prems(1) few(2)]]
    by fastforce
  then show ?case
    using dl_cons.IH [OF steps few(1)] now
    by (simp add: dl_step_balance [OF dl_cons.hyps(1)] dl_step_subscriptions [OF dl_cons.hyps(1)])
qed simp

lemma delivery_counts:
  assumes "dl_path (delivery_start subs n) tr s" and "dl_idle s" and "publications tr < 2 ^ 64 - 1"
  shows "count_list (handed s) (h, m) =
         (if msg_log (stream s) (msg_sequence m) = Some m then calls_due subs 0 tr h m else 0)"
proof -
  have "owed (delivery_start subs n) = {#}"
    by (rule owed_idle) (auto simp: dl_idle_def delivery_start_def)
  then show ?thesis
    using dl_path_due [OF assms(1), of 0 subs h m] assms(3) owed_idle [OF assms(2)]
    by (simp add: delivery_start_def steps_refl new_jetstream_def count_mset)
qed

text \<open>
  Without subscriptions in between: once for each subscription, and once more for each of
  them at each redelivery.
\<close>

fun is_redelivery :: "u64 \<Rightarrow> 'h dl_action \<Rightarrow> bool" where
  "is_redelivery q (Dl_redeliver t seq) = (seq = q)"
| "is_redelivery q _ = False"

fun is_subscription :: "'h dl_action \<Rightarrow> bool" where
  "is_subscription (Dl_subscribe subj durable h) = True"
| "is_subscription _ = False"

definition redeliveries :: "'h dl_action list \<Rightarrow> u64 \<Rightarrow> nat" where
  "redeliveries tr q = length (filter (is_redelivery q) tr)"

lemma announces_cases:
  "announces k a q \<longleftrightarrow> is_publish a \<and> unat q = Suc k \<or> is_redelivery q a"
  "is_redelivery q a \<Longrightarrow> \<not> is_publish a"
  "\<not> is_subscription a \<Longrightarrow> subscriptions_after subs a = subs"
  by (cases a; auto)+

lemma calls_due_fixed:
  "\<forall>a \<in> set tr. \<not> is_subscription a \<Longrightarrow>
   calls_due subs k tr h m = subscribed subs h m *
     ((if k < unat (msg_sequence m) \<and> unat (msg_sequence m) \<le> k + publications tr then 1 else 0) +
      redeliveries tr (msg_sequence m))"
proof (induction tr arbitrary: k)
  case (Cons a tr)
  then show ?case
    using announces_cases(1) [of k a "msg_sequence m"] announces_cases(2) [of "msg_sequence m" a]
    by (auto simp: redeliveries_def announces_cases(3))
qed (simp add: redeliveries_def)

lemma delivery_counts_fixed:
  assumes "dl_path (delivery_start subs n) tr s" and "dl_idle s" and "publications tr < 2 ^ 64 - 1"
    and "\<forall>a \<in> set tr. \<not> is_subscription a"
  shows "count_list (handed s) (h, m) =
         (if msg_log (stream s) (msg_sequence m) = Some m
          then subscribed subs h m * Suc (redeliveries tr (msg_sequence m)) else 0)"
proof -
  have "js_steps (publications tr) (new_jetstream\<lparr>subscriptions := subs\<rparr>) (stream s)"
    using dl_path_steps [OF assms(1), of 0] by (simp add: delivery_start_def steps_refl)
  note dom = steps_log_dom [OF this, of "msg_sequence m"]
  have "0 < unat (msg_sequence m) \<and> unat (msg_sequence m) \<le> publications tr"
    if logged: "msg_log (stream s) (msg_sequence m) = Some m"
  proof -
    from logged obtain i where "i < publications tr" "msg_sequence m = 1 + of_nat i"
      using dom by (auto simp: new_jetstream_def)
    then show ?thesis using unat_one_plus [of i] assms(3) by simp
  qed
  then show ?thesis by (simp add: delivery_counts [OF assms(1-3)] calls_due_fixed [OF assms(4)])
qed

text \<open>
  C4. Under any interleaving of publishing threads, publishing handlers, redeliveries,
  acknowledgements and further subscriptions, once all calls have returned every handler has
  been called with every message of its subjects once for each subscription it had when the
  message was published and once for each it had at each redelivery, and with nothing else.
\<close>

theorem delivery_counts_are_exact:
  assumes "dl_path (delivery_start subs n) tr s" and "dl_idle s" and "publications tr < 2 ^ 64 - 1"
  shows "count_list (handed s) (h, m) =
         (if msg_log (stream s) (msg_sequence m) = Some m then calls_due subs 0 tr h m else 0)"
  by (rule delivery_counts [OF assms])

definition two_subscribers :: "nat subscription list" where
  "two_subscribers =
     [\<lparr>sub_subject = ''s'', durable_name = ''a'', handler = 1\<rparr>,
      \<lparr>sub_subject = ''s'', durable_name = ''b'', handler = 2\<rparr>]"

abbreviation second_message :: message where
  "second_message \<equiv> \<lparr>msg_subject = ''s'', msg_payload = [8], msg_sequence = 2\<rparr>"

lemmas dl_eval = delivery_start_def two_subscribers_def new_jetstream_def publish_locked_def subscribers_def
  js_subscribe_def Let_def dl_idle_def

text \<open>Handler 3 subscribes while the second message is delivered: it gets the redelivery only.\<close>

theorem delivery_counts_are_exact_witness:
  "\<exists>s. dl_path (delivery_start two_subscribers 2)
         [Dl_publish 0 ''s'' [7], Dl_publish 1 ''s'' [8], Dl_deliver 1, Dl_subscribe ''s'' ''c'' 3,
          Dl_deliver 0, Dl_deliver 0, Dl_deliver 1, Dl_return 0, Dl_return 1, Dl_redeliver 0 2,
          Dl_deliver 0, Dl_deliver 0, Dl_deliver 0, Dl_return 0] s \<and>
       count_list (handed s) (2, second_message) = 2 \<and> count_list (handed s) (3, second_message) = 1"
proof -
  let ?tr = "[Dl_publish 0 ''s'' [7], Dl_publish 1 ''s'' [8], Dl_deliver 1, Dl_subscribe ''s'' ''c'' 3,
          Dl_deliver 0, Dl_deliver 0, Dl_deliver 1, Dl_return 0, Dl_return 1, Dl_redeliver 0 2,
          Dl_deliver 0, Dl_deliver 0, Dl_deliver 0, Dl_return 0]"
  obtain s where s: "dl_path (delivery_start two_subscribers 2) ?tr s" "dl_idle s"
      "msg_log (stream s) 2 = Some second_message"
    by (simp add: dl_eval numeral_2_eq_2)
  have few: "publications ?tr < 2 ^ 64 - 1" by simp
  have "count_list (handed s) (2, second_message) = 2 \<and> count_list (handed s) (3, second_message) = 1"
    unfolding delivery_counts_are_exact [OF s(1,2) few]
    by (simp add: s(3) subscribed_def two_subscribers_def)
  then show ?thesis using s(1) by blast
qed

section \<open>Order\<close>


text \<open>A path on which every publication waits until no call of a handler is owed.\<close>

fun waits :: "'h dl_action \<Rightarrow> 'h delivery \<Rightarrow> bool" where
  "waits (Dl_publish t subj pl) s = (owed s = {#})"
| "waits (Dl_redeliver t seq) s = False"
| "waits _ s = True"

inductive dl_serial :: "'h delivery \<Rightarrow> 'h dl_action list \<Rightarrow> 'h delivery \<Rightarrow> bool" where
  serial_nil: "dl_serial s [] s"
| serial_snoc: "dl_serial s tr s1 \<Longrightarrow> waits a s1 \<Longrightarrow> dl_step a s1 s' \<Longrightarrow> dl_serial s (tr @ [a]) s'"

abbreviation seq_of :: "'h \<times> message \<Rightarrow> nat" where
  "seq_of x \<equiv> unat (msg_sequence (snd x))"

definition in_order :: "nat \<Rightarrow> 'h delivery \<Rightarrow> bool" where
  "in_order k s \<longleftrightarrow>
     sorted (map seq_of (handed s)) \<and> (\<forall>x \<in> set (handed s). seq_of x \<le> k) \<and>
     (\<forall>x \<in># owed s. seq_of x = k)"

lemma in_order_step:
  assumes "dl_step a s s'" "waits a s" "in_order (publications tr) s"
    and "js_steps (publications tr) (new_jetstream\<lparr>subscriptions := subs\<rparr>) (stream s)"
    and "publications (tr @ [a]) < 2 ^ 64 - 1"
  shows "in_order (publications (tr @ [a])) s' \<and>
         js_steps (publications (tr @ [a])) (new_jetstream\<lparr>subscriptions := subs\<rparr>) (stream s')"
  using assms(1)
proof cases
  case (dl_publish t subj pl msg ss js)
  have pubs: "publications (tr @ [a]) = Suc (publications tr)"
    by (simp add: dl_publish(1) publications_def)
  have "msg_sequence msg = next_sequence (stream s)"
    using dl_publish(4) by (auto simp: publish_locked_def Let_def)
  then have seq: "unat (msg_sequence msg) = Suc (publications tr)"
    using next_not_logged(2) [OF assms(4)] assms(5) pubs by simp
  have "owed s' + owed_by_stack (stacks s ! t) = owed s + owed_by_stack ((msg, ss) # stacks s ! t)"
    using dl_publish by (intro owed_update) simp_all
  then have "owed s' = owed_by (msg, ss)" using assms(2) by (simp add: dl_publish(1))
  then have "\<forall>x \<in># owed s'. seq_of x = Suc (publications tr)" using seq by (auto simp: owed_by_def)
  moreover have "js_steps (Suc (publications tr)) (new_jetstream\<lparr>subscriptions := subs\<rparr>) js"
    using steps_publish [OF assms(4) dl_publish(4)] .
  ultimately show ?thesis
    using assms(3) unfolding in_order_def pubs by (auto simp: dl_publish(2) le_SucI)
next
  case (dl_redeliver t seq msg)
  then show ?thesis using assms(2) by simp
next
  case (dl_deliver t msg sub ss st)
  have "owed s' + owed_by_stack (stacks s ! t) = owed s + owed_by_stack ((msg, ss) # st)"
    using dl_deliver by (intro owed_update) simp_all
  then have o: "owed s = add_mset (handler sub, msg) (owed s')" by (simp add: dl_deliver(4))
  have h: "handed s' = handed s @ [(handler sub, msg)]" "stream s' = stream s"
    and p: "publications (tr @ [a]) = publications tr"
    by (simp_all add: dl_deliver(1,2) publications_def)
  show ?thesis
    using assms(3,4) unfolding in_order_def p h o by (auto simp: sorted_append)
next
  case (dl_return t msg st)
  have "owed s' + owed_by_stack (stacks s ! t) = owed s + owed_by_stack st"
    using dl_return by (intro owed_update) simp_all
  then have "owed s' = owed s" by (simp add: dl_return(4))
  then show ?thesis using assms(3,4) by (simp add: in_order_def dl_return(1,2) publications_def)
next
  case (dl_ack seq)
  have "owed s' = owed s" by (simp add: owed_def dl_ack(2))
  then show ?thesis
    using assms(3) steps_ack [OF assms(4)] by (simp add: in_order_def dl_ack publications_def)
next
  case (dl_subscribe subj durable h r js)
  have "owed s' = owed s" by (simp add: owed_def dl_subscribe(2))
  then show ?thesis
    using assms(3) steps_subscribe [OF assms(4) dl_subscribe(3)]
    by (simp add: in_order_def dl_subscribe(1,2) publications_def)
qed

text \<open>
  Publishers that wait for each other keep the order: when no publication starts while a
  call of a handler is owed, and nothing is redelivered, the handlers are called in the order
  of publication.
\<close>

theorem serial_publication_keeps_order:
  assumes "dl_serial (delivery_start subs n) tr s" and "publications tr < 2 ^ 64 - 1"
  shows "sorted (map seq_of (handed s))"
proof -
  have "in_order (publications tr) s \<and>
      js_steps (publications tr) (new_jetstream\<lparr>subscriptions := subs\<rparr>) (stream s)"
    using assms
  proof (induction "delivery_start subs n" tr s rule: dl_serial.induct)
    case serial_nil
    have "owed (delivery_start subs n) = {#}"
      by (rule owed_idle) (auto simp: dl_idle_def delivery_start_def)
    then show ?case by (simp add: in_order_def delivery_start_def publications_def steps_refl)
  next
    case (serial_snoc tr s1 a s')
    have "publications tr < 2 ^ 64 - 1" using serial_snoc.prems by (simp add: publications_def split: if_splits)
    then show ?case using in_order_step [OF serial_snoc.hyps(4,3) _ _ serial_snoc.prems] serial_snoc.hyps(2) by blast
  qed
  then show ?thesis by (simp add: in_order_def)
qed

theorem serial_publication_keeps_order_witness:
  "\<exists>s. dl_serial (delivery_start ([] :: nat subscription list) 1) [Dl_publish 0 ''s'' [7]] s \<and>
       sorted (map seq_of (handed s))"
proof -
  have "owed (delivery_start ([] :: nat subscription list) 1) = {#}"
    by (rule owed_idle) (auto simp: dl_idle_def delivery_start_def)
  then have "\<exists>s. dl_serial (delivery_start ([] :: nat subscription list) 1) ([] @ [Dl_publish 0 ''s'' [7]]) s"
    by (intro exI, intro serial_snoc [OF serial_nil]) (auto simp: delivery_start_def publish_locked_def Let_def)
  then obtain s where s: "dl_serial (delivery_start ([] :: nat subscription list) 1) [Dl_publish 0 ''s'' [7]] s"
    by auto
  have "publications [Dl_publish 0 ''s'' [7]] < 2 ^ 64 - 1" by (simp add: publications_def)
  from serial_publication_keeps_order [OF s this] show ?thesis using s by blast
qed

end
