(* ===== verification/Concurrent_Consumer.thy ===== *)
theory Concurrent_Consumer
  imports Idempotent_Consumer Jet_Delivery
begin

text \<open>
  The consumption pattern of Idempotent_Consumer under concurrency: publishing threads, handlers
  that publish, subscriptions and redeliveries interleave as in Jet_Delivery, and each call of the consumer's
  handler makes one call of \<open>DedupSet::insert\<close>. The calls take the lock of the set in some
  order, which need not be the order in which the handlers were called; each reads the clock
  before it takes the lock, so the readings need not be in order either.
\<close>

section \<open>The calls of one handler\<close>

definition calls_of :: "'h \<Rightarrow> 'h delivery \<Rightarrow> message list" where
  "calls_of h s = map snd (filter (\<lambda>(h', m). h' = h) (handed s))"

text \<open>The insertions, in the order of the lock, are one for each call, with the identifier in its payload.\<close>

definition inserts_of :: "'h \<Rightarrow> 'h delivery \<Rightarrow> (int \<times> string) list \<Rightarrow> bool" where
  "inserts_of h s xs \<longleftrightarrow> mset (map snd xs) = mset (map (event_id \<circ> msg_payload) (calls_of h s))"

text \<open>
  The events of the messages published or redelivered while the handler was subscribed to
  their subject.
\<close>

definition events_for ::
  "'h subscription list \<Rightarrow> 'h dl_action list \<Rightarrow> 'h \<Rightarrow> 'h delivery \<Rightarrow> string set" where
  "events_for subs tr h s =
     {event_id (msg_payload m) | m. msg_log (stream s) (msg_sequence m) = Some m \<and> 0 < calls_due subs 0 tr h m}"

lemma set_calls_of: "m \<in> set (calls_of h s) \<longleftrightarrow> 0 < count_list (handed s) (h, m)"
proof -
  have "m \<in> set (calls_of h s) \<longleftrightarrow> (h, m) \<in> set (handed s)" by (force simp: calls_of_def)
  then show ?thesis using count_list_0_iff [of "handed s" "(h, m)"] by auto
qed

lemma called_events:
  assumes "dl_path (delivery_start subs n) tr s" "dl_idle s" "publications tr < 2 ^ 64 - 1"
  shows "(event_id \<circ> msg_payload) ` set (calls_of h s) = events_for subs tr h s"
proof -
  have "m \<in> set (calls_of h s) \<longleftrightarrow> msg_log (stream s) (msg_sequence m) = Some m \<and> 0 < calls_due subs 0 tr h m" for m
    unfolding set_calls_of delivery_counts [OF assms] by auto
  then show ?thesis by (auto simp: events_for_def)
qed

section \<open>Exactly once\<close>

text \<open>
  C2. Exactly-once processing under concurrency: whatever threads publish, whichever handlers
  publish again and whatever is redelivered, once all calls have returned a consumer that
  processes what its dedup set reports novel has processed each event published or redelivered
  while it was subscribed to the event's subject exactly once, and nothing else, when the clock readings of its calls lie within one TTL.
\<close>

theorem concurrent_consumer_is_exactly_once:
  assumes "dl_path (delivery_start subs n) tr s" and "dl_idle s" and "publications tr < 2 ^ 64 - 1"
    and "inserts_of h s xs"
    and "\<forall>x \<in> set xs. \<forall>y \<in> set xs. fst y < fst x + ttl * 1000000"
  shows "distinct (accepted_keys xs (dedup_run ttl xs)) \<and>
         set (accepted_keys xs (dedup_run ttl xs)) = events_for subs tr h s"
proof -
  have "set (map snd xs) = set (map (event_id \<circ> msg_payload) (calls_of h s))"
    using assms(4) unfolding inserts_of_def by (rule mset_eq_setD)
  then have "snd ` set xs = events_for subs tr h s" using called_events [OF assms(1-3)] by simp
  then show ?thesis using accepted_once [OF assms(5)] by simp
qed

text \<open>
  The consumer subscribes first, two threads publish, the second message is redelivered; the
  lock order is not the call order.
\<close>

definition consumer_run :: "nat dl_action list" where
  "consumer_run =
     [Dl_subscribe ''s'' ''c'' 0, Dl_publish 0 ''s'' [97], Dl_publish 1 ''s'' [98], Dl_deliver 1, Dl_return 1,
      Dl_redeliver 1 2, Dl_deliver 0, Dl_deliver 1, Dl_return 0, Dl_return 1]"

theorem concurrent_consumer_is_exactly_once_witness:
  "\<exists>s. dl_path (delivery_start ([] :: nat subscription list) 2) consumer_run s \<and>
       set (accepted_keys [(3, ''a''), (1, ''b''), (2, ''b'')] (dedup_run 5 [(3, ''a''), (1, ''b''), (2, ''b'')])) =
       events_for [] consumer_run 0 s"
proof -
  obtain s where s: "dl_path (delivery_start ([] :: nat subscription list) 2) consumer_run s" "dl_idle s"
      "map (msg_payload \<circ> snd) (handed s) = [[98], [97], [98]]" "map fst (handed s) = [0, 0, 0]"
    by (simp add: consumer_run_def dl_eval numeral_2_eq_2)
  have "filter (\<lambda>(h', m). h' = 0) (handed s) = handed s"
    by (rule filter_True) (use s(4) in \<open>auto simp: map_eq_Cons_conv\<close>)
  then have "map msg_payload (calls_of 0 s) = [[98], [97], [98]]" using s(3) by (simp add: calls_of_def)
  then have "map (event_id \<circ> msg_payload) (calls_of 0 s) = map event_id [[98], [97], [98]]"
    by (metis map_map)
  moreover have "char_of (97 :: nat) = CHR ''a''" "char_of (98 :: nat) = CHR ''b''"
    by (simp_all add: char_of_def bit_Suc_0_iff)
  ultimately have "inserts_of 0 s [(3, ''a''), (1, ''b''), (2, ''b'')]"
    by (simp add: inserts_of_def event_id_def)
  then have ins: "inserts_of 0 s [(3, ''a''), (1, ''b''), (2, ''b'')]" .
  have few: "publications consumer_run < 2 ^ 64 - 1" by (simp add: consumer_run_def)
  have "set (accepted_keys [(3, ''a''), (1, ''b''), (2, ''b'')] (dedup_run 5 [(3, ''a''), (1, ''b''), (2, ''b'')])) =
       events_for [] consumer_run 0 s"
    by (rule concurrent_consumer_is_exactly_once [OF s(1,2) few ins, THEN conjunct2]) simp
  then show ?thesis using s(1) by blast
qed

end
