(* ===== verification/Stream_Port.thy ===== *)
theory Stream_Port
  imports Jet_Stream
begin

text \<open>
  The port services depend on (the classes \<open>JetStreamPublisher\<close> and \<open>JetStreamConsumer\<close> of
  include/uaop/common/jetstream.h) as a record of operations over an adapter's state, what a
  client may rely on as a locale, and the in-memory adapter as its instance.
\<close>

section \<open>The port\<close>

record 's stream_publisher =
  port_publish :: "string \<Rightarrow> u8 list \<Rightarrow> 's \<Rightarrow> (unit, error) result \<times> 's"

record ('h, 's) stream_consumer =
  port_subscribe :: "string \<Rightarrow> string \<Rightarrow> 'h \<Rightarrow> 's \<Rightarrow> (unit, error) result \<times> 's"
  port_ack :: "u64 \<Rightarrow> 's \<Rightarrow> 's"

text \<open>
  What a client sees: who is subscribed to a subject, which handlers have been called with
  what, and the acknowledged position. A publication that succeeds calls every handler of its
  subject with the subject and the payload.
\<close>

locale stream_contract =
  fixes pub :: "'s stream_publisher"
    and con :: "('h, 's) stream_consumer"
    and handlers :: "'s \<Rightarrow> string \<Rightarrow> 'h list"
    and calls :: "'s \<Rightarrow> ('h \<times> message) list"
    and position :: "'s \<Rightarrow> u64"
  assumes publish_calls: "port_publish pub subj pl s = (Ok u, s') \<Longrightarrow>
      \<exists>q. calls s' = calls s @ map (\<lambda>h. (h, \<lparr>msg_subject = subj, msg_payload = pl, msg_sequence = q\<rparr>)) (handlers s subj)"
    and publish_keeps: "port_publish pub subj pl s = (r, s') \<Longrightarrow> handlers s' = handlers s \<and> position s' = position s"
    and subscribe_adds: "port_subscribe con subj durable h s = (Ok u, s') \<Longrightarrow>
      handlers s' = (handlers s)(subj := handlers s subj @ [h]) \<and> calls s' = calls s \<and> position s' = position s"
    and ack_moves: "handlers (port_ack con q s) = handlers s \<and> calls (port_ack con q s) = calls s \<and>
      position (port_ack con q s) = max (position s) q"
begin

text \<open>Publishing a list of events; \<open>None\<close> as soon as one publication fails.\<close>

fun publish_all :: "(string \<times> u8 list) list \<Rightarrow> 's \<Rightarrow> 's option" where
  "publish_all [] s = Some s"
| "publish_all ((subj, pl) # evs) s =
     (case port_publish pub subj pl s of (Ok u, s') \<Rightarrow> publish_all evs s' | (Err e, s') \<Rightarrow> None)"

lemma publish_all_calls:
  "publish_all evs s = Some s' \<Longrightarrow>
   map (\<lambda>(h, m). (h, msg_subject m, msg_payload m)) (calls s') =
   map (\<lambda>(h, m). (h, msg_subject m, msg_payload m)) (calls s) @
   concat (map (\<lambda>(subj, pl). map (\<lambda>h. (h, subj, pl)) (handlers s subj)) evs)"
proof (induction evs arbitrary: s)
  case (Cons ev evs)
  obtain subj pl u s1 where ev: "ev = (subj, pl)" "port_publish pub subj pl s = (Ok u, s1)" "publish_all evs s1 = Some s'"
    using Cons.prems by (cases ev) (auto split: prod.splits result.splits)
  obtain q where "calls s1 = calls s @ map (\<lambda>h. (h, \<lparr>msg_subject = subj, msg_payload = pl, msg_sequence = q\<rparr>)) (handlers s subj)"
    using publish_calls [OF ev(2)] by blast
  then show ?case using Cons.IH [OF ev(3)] publish_keeps [OF ev(2)] by (simp add: ev(1) comp_def)
qed simp

lemma acks_position: "position (fold (port_ack con) qs s) = fold max qs (position s)"
  by (induction qs arbitrary: s) (simp_all add: ack_moves max.commute)

end

section \<open>The in-memory adapter\<close>

definition in_memory_publisher :: "('h, 'w) interp \<Rightarrow> ('h jetstream \<times> 'w) stream_publisher" where
  "in_memory_publisher run = \<lparr>port_publish = js_publish run\<rparr>"

definition in_memory_consumer :: "('h, 'h jetstream \<times> 'w) stream_consumer" where
  "in_memory_consumer =
     \<lparr>port_subscribe = (\<lambda>subj durable h st. let (r, js) = js_subscribe (fst st) subj durable h in (r, (js, snd st))),
      port_ack = (\<lambda>q st. (js_ack (fst st) q, snd st))\<rparr>"

interpretation in_memory: stream_contract
    "in_memory_publisher record_delivery" in_memory_consumer
    "\<lambda>st subj. map handler (subscribers (fst st) subj)" snd "\<lambda>st. last_acked_sequence (fst st)"
proof unfold_locales
  fix subj pl u and s s' :: "'a jetstream \<times> ('a \<times> message) list"
  assume "port_publish (in_memory_publisher record_delivery) subj pl s = (Ok u, s')"
  then show "\<exists>q. snd s' = snd s @ map (\<lambda>h. (h, \<lparr>msg_subject = subj, msg_payload = pl, msg_sequence = q\<rparr>))
      (map handler (subscribers (fst s) subj))"
    by (cases s) (auto simp: in_memory_publisher_def js_publish_def publish_locked_def subscribers_def
        notify_record Let_def)
next
  fix subj pl r and s s' :: "'a jetstream \<times> ('a \<times> message) list"
  assume "port_publish (in_memory_publisher record_delivery) subj pl s = (r, s')"
  then show "(\<lambda>subj. map handler (subscribers (fst s') subj)) = (\<lambda>subj. map handler (subscribers (fst s) subj)) \<and>
      last_acked_sequence (fst s') = last_acked_sequence (fst s)"
    by (cases s) (auto simp: in_memory_publisher_def js_publish_def publish_locked_def subscribers_def
        notify_record last_acked_sequence_def Let_def)
next
  fix subj durable h u and s s' :: "'a jetstream \<times> ('a \<times> message) list"
  assume "port_subscribe in_memory_consumer subj durable h s = (Ok u, s')"
  then show "(\<lambda>subj. map handler (subscribers (fst s') subj)) =
      (\<lambda>subj. map handler (subscribers (fst s) subj))(subj := map handler (subscribers (fst s) subj) @ [h]) \<and>
      snd s' = snd s \<and> last_acked_sequence (fst s') = last_acked_sequence (fst s)"
    by (auto simp: in_memory_consumer_def js_subscribe_def subscribers_def last_acked_sequence_def Let_def)
next
  fix q and s :: "'a jetstream \<times> ('a \<times> message) list"
  show "(\<lambda>subj. map handler (subscribers (fst (port_ack in_memory_consumer q s)) subj)) =
      (\<lambda>subj. map handler (subscribers (fst s) subj)) \<and>
      snd (port_ack in_memory_consumer q s) = snd s \<and>
      last_acked_sequence (fst (port_ack in_memory_consumer q s)) = max (last_acked_sequence (fst s)) q"
    by (auto simp: in_memory_consumer_def js_ack_def subscribers_def last_acked_sequence_def max_def)
qed

lemma in_memory_publish_succeeds: "fst (port_publish (in_memory_publisher run) subj pl st) = Ok ()"
  by (simp add: in_memory_publisher_def js_publish_def split: prod.split)

end
