(* ===== verification/Config_Line.thy ===== *)
theory Config_Line
  imports Result_Error
begin

text \<open>
  The line syntax of a configuration file (src/config.cpp: \<open>trim\<close>, \<open>strip_quotes\<close>,
  \<open>parse_config_line\<close>): \<open>key: value\<close> lines, \<open>#\<close> comment lines and blank lines.
\<close>

section \<open>Trimming\<close>

text \<open>The two loops of \<open>trim\<close> move \<open>start\<close> and \<open>end\<close> towards each other.\<close>

function trim_start :: "string \<Rightarrow> nat \<Rightarrow> nat \<Rightarrow> nat" where
  "trim_start s start stop =
     (if start < stop \<and> c_isspace (s ! start) then trim_start s (Suc start) stop else start)"
  by pat_completeness auto
termination by (relation "measure (\<lambda>(s, start, stop). stop - start)") auto

fun trim_end :: "string \<Rightarrow> nat \<Rightarrow> nat \<Rightarrow> nat" where
  "trim_end s start 0 = 0"
| "trim_end s start (Suc stop) =
     (if Suc stop > start \<and> c_isspace (s ! stop) then trim_end s start stop else Suc stop)"

definition trim :: "string \<Rightarrow> string" where
  "trim s =
     (let start = trim_start s 0 (length s);
          stop = trim_end s start (length s)
      in substr start (stop - start) s)"

declare trim_start.simps [simp del]

text \<open>The reference: drop the space at the front and at the back.\<close>

definition trim_right :: "string \<Rightarrow> string" where
  "trim_right s = rev (dropWhile c_isspace (rev s))"

definition trimmed :: "string \<Rightarrow> bool" where
  "trimmed s \<longleftrightarrow> s = [] \<or> \<not> c_isspace (hd s) \<and> \<not> c_isspace (last s)"

lemma trim_start_drop:
  "start \<le> length s \<Longrightarrow>
   start \<le> trim_start s start (length s) \<and> trim_start s start (length s) \<le> length s \<and>
   drop (trim_start s start (length s)) s = dropWhile c_isspace (drop start s)"
proof (induction "length s - start" arbitrary: start)
  case 0
  then show ?case by (subst (1 2 3) trim_start.simps) simp
next
  case (Suc n)
  then have lt: "start < length s" by simp
  then have drop: "drop start s = s ! start # drop (Suc start) s" by (simp add: Cons_nth_drop_Suc)
  show ?case
  proof (cases "c_isspace (s ! start)")
    case True
    then have "trim_start s start (length s) = trim_start s (Suc start) (length s)"
      by (subst trim_start.simps) (simp add: lt)
    moreover have "n = length s - Suc start" using Suc.hyps(2) by simp
    ultimately show ?thesis using Suc.hyps(1) [of "Suc start"] lt True by (simp add: drop)
  next
    case False
    then have "trim_start s start (length s) = start" by (subst trim_start.simps) simp
    then show ?thesis using lt False by (simp add: drop)
  qed
qed

lemma trim_right_snoc:
  "trim_right (s @ [c]) = (if c_isspace c then trim_right s else s @ [c])"
  by (simp add: trim_right_def)

lemma trim_end_take:
  "start \<le> stop \<Longrightarrow> stop \<le> length s \<Longrightarrow>
   start \<le> trim_end s start stop \<and> trim_end s start stop \<le> stop \<and>
   take (trim_end s start stop - start) (drop start s) = trim_right (take (stop - start) (drop start s))"
proof (induction s start stop rule: trim_end.induct)
  case (1 s start)
  then show ?case by (simp add: trim_right_def)
next
  case (2 s start stop)
  show ?case
  proof (cases "start = Suc stop")
    case True
    then show ?thesis by (simp add: trim_right_def)
  next
    case False
    with 2 have le: "start \<le> stop" "stop < length s" by auto
    have snoc: "take (Suc stop - start) (drop start s) = take (stop - start) (drop start s) @ [s ! stop]"
      using le by (simp add: Suc_diff_le take_Suc_conv_app_nth)
    show ?thesis using 2 le unfolding snoc by (auto simp: trim_right_snoc snoc)
  qed
qed

lemma trim_eq: "trim s = trim_right (dropWhile c_isspace s)"
proof -
  define a where "a = trim_start s 0 (length s)"
  have a: "a \<le> length s" "drop a s = dropWhile c_isspace s"
    using trim_start_drop [of 0 s] by (simp_all add: a_def)
  have "take (trim_end s a (length s) - a) (drop a s) = trim_right (take (length s - a) (drop a s))"
    using trim_end_take [of a "length s" s] a(1) by simp
  moreover have "take (length s - a) (drop a s) = drop a s" by simp
  ultimately show ?thesis using a(2) by (simp add: trim_def substr_def Let_def a_def [symmetric])
qed

lemma trim_right_append:
  "\<forall>c \<in> set ws. c_isspace c \<Longrightarrow> trim_right (s @ ws) = trim_right s"
  by (simp add: trim_right_def) (metis dropWhile_append2 set_rev)

lemma trim_right_trimmed: "s = [] \<or> \<not> c_isspace (last s) \<Longrightarrow> trim_right s = s"
  by (cases s rule: rev_cases) (auto simp: trim_right_def)

lemma trim_padded:
  assumes "trimmed s" and "\<forall>c \<in> set (pre @ post). c_isspace c"
  shows "trim (pre @ s @ post) = s"
proof (cases "s = []")
  case True
  with assms(2) have "dropWhile c_isspace (pre @ s @ post) = []" by (simp add: dropWhile_eq_Nil_conv)
  then have "trim (pre @ s @ post) = []" by (simp only: trim_eq trim_right_def) simp
  with True show ?thesis by simp
next
  case False
  then have "dropWhile c_isspace (pre @ s @ post) = s @ post"
    using assms by (cases s) (auto simp: trimmed_def dropWhile_append2)
  then show ?thesis
    using assms False by (simp add: trim_eq trim_right_append trim_right_trimmed trimmed_def)
qed

lemma trimmed_trim: "trimmed s \<Longrightarrow> trim s = s"
  using trim_padded [of s "[]" "[]"] by simp

lemma trim_right_split: "\<exists>post. s = trim_right s @ post \<and> (\<forall>c \<in> set post. c_isspace c)"
  by (intro exI [of _ "rev (takeWhile c_isspace (rev s))"])
     (auto simp: trim_right_def rev_append [symmetric] simp del: rev_append dest: set_takeWhileD)

lemma trim_right_last: "trim_right s \<noteq> [] \<Longrightarrow> \<not> c_isspace (last (trim_right s))"
  by (simp add: trim_right_def last_rev hd_dropWhile)

lemma trim_split:
  "\<exists>pre post. s = pre @ trim s @ post \<and> (\<forall>c \<in> set (pre @ post). c_isspace c) \<and> trimmed (trim s)"
proof -
  define rest where "rest = dropWhile c_isspace s"
  obtain post where post: "rest = trim_right rest @ post" "\<forall>c \<in> set post. c_isspace c"
    using trim_right_split by blast
  have "s = takeWhile c_isspace s @ trim_right rest @ post"
    using post(1) by (simp add: rest_def)
  moreover have "trimmed (trim_right rest)"
  proof (cases "trim_right rest")
    case Nil
    then show ?thesis by (simp add: trimmed_def)
  next
    case (Cons c cs)
    then have "rest \<noteq> [] \<and> hd rest = c" using post(1) by (metis append_Cons list.discI list.sel(1))
    then have "\<not> c_isspace c" using hd_dropWhile [of c_isspace s] by (auto simp: rest_def)
    then show ?thesis using Cons trim_right_last [of rest] by (simp add: trimmed_def)
  qed
  ultimately show ?thesis
    using post(2) unfolding trim_eq rest_def [symmetric]
    by (intro exI [of _ "takeWhile c_isspace s"] exI [of _ post]) (auto dest: set_takeWhileD)
qed

text \<open>
  \<open>trim\<close> removes exactly the outer white space: its result is the only string that
  neither starts nor ends with white space and leaves the input when padded with white
  space on both sides.
\<close>

theorem trim_strips_outer_space:
  "trim s = t \<longleftrightarrow>
   trimmed t \<and> (\<exists>pre post. s = pre @ t @ post \<and> list_all c_isspace (pre @ post))"
  using trim_split [of s] trim_padded [of t] by (auto simp: list_all_iff)

section \<open>Quotes and lines\<close>

definition strip_quotes :: "string \<Rightarrow> string" where
  "strip_quotes s =
     (if 2 \<le> length s \<and>
         (hd s = CHR 0x22 \<and> last s = CHR 0x22 \<or> hd s = CHR 0x27 \<and> last s = CHR 0x27)
      then substr 1 (length s - 2) s else s)"

definition parse_config_line :: "string \<Rightarrow> ((string \<times> string) option, error) result" where
  "parse_config_line raw =
     (let line = trim raw in
      if line = [] \<or> hd line = CHR ''#'' then Ok None
      else case find_char CHR '':'' line of
        None \<Rightarrow> Err (Invalid ''E_CONFIG_SYNTAX'' (''expected 'key: value', got: '' @ line))
      | Some colon \<Rightarrow>
          let key = trim (substr 0 colon line);
              val = strip_quotes (trim (drop (colon + 1) line))
          in if key = [] then Err (Invalid ''E_CONFIG_SYNTAX'' (''empty key in line: '' @ line))
             else Ok (Some (key, val)))"

abbreviation spaces :: "string \<Rightarrow> bool" where
  "spaces s \<equiv> list_all c_isspace s"

text \<open>A key that can be written at the start of a line.\<close>

definition config_key :: "string \<Rightarrow> bool" where
  "config_key k \<longleftrightarrow> k \<noteq> [] \<and> trimmed k \<and> hd k \<noteq> CHR ''#'' \<and> CHR '':'' \<notin> set k"

lemma c_isspace_punct [simp]: "\<not> c_isspace CHR '':''" "\<not> c_isspace CHR ''#''" "\<not> c_isspace CHR 0x22"
  by (simp_all add: c_isspace_def char_code_def)

lemma space_not_colon: "spaces s \<Longrightarrow> CHR '':'' \<notin> set s"
  by (auto simp: list_all_iff)

lemma trim_spaces: "trimmed s \<Longrightarrow> spaces pre \<Longrightarrow> spaces post \<Longrightarrow> trim (pre @ s @ post) = s"
  by (rule trim_padded) (auto simp: list_all_iff)

lemma parse_split_line:
  assumes "config_key k" and "spaces b" and "spaces c" and "trimmed v"
    and "line = k @ b @ CHR '':'' # c @ v" and "trim raw = line"
  shows "parse_config_line raw = Ok (Some (k, strip_quotes v))"
proof -
  have "find_char CHR '':'' line = Some (length (k @ b))"
    using assms(1,2) find_char_append [of "CHR '':''" "k @ b"]
    by (simp add: assms(5) config_key_def space_not_colon)
  moreover have "trim (substr 0 (length (k @ b)) line) = k"
    using assms(1,2) trim_spaces [of k "[]" b] by (simp add: assms(5) substr_def config_key_def)
  moreover have "trim (drop (length (k @ b) + 1) line) = v"
    using assms(3,4) trim_spaces [of v c "[]"] by (simp add: assms(5))
  moreover have "line \<noteq> [] \<and> hd line = hd k" using assms(1) by (auto simp: assms(5) config_key_def)
  ultimately show ?thesis using assms(1,6) by (simp add: parse_config_line_def config_key_def)
qed

lemma parse_written:
  assumes "config_key k" and "spaces a" and "spaces b" and "spaces c" and "spaces d" and "trimmed v"
  shows "parse_config_line (a @ k @ b @ CHR '':'' # c @ v @ d) = Ok (Some (k, strip_quotes v))"
proof (cases "v = []")
  case True
  have "trim (a @ (k @ b @ '':'') @ c @ d) = k @ b @ '':''"
    using assms by (intro trim_spaces) (auto simp: config_key_def trimmed_def)
  then show ?thesis using True assms by (intro parse_split_line [of k b "[]" v]) auto
next
  case False
  have "trim (a @ (k @ b @ CHR '':'' # c @ v) @ d) = k @ b @ CHR '':'' # c @ v"
    using assms False by (intro trim_spaces) (auto simp: config_key_def trimmed_def)
  then show ?thesis using assms by (intro parse_split_line [of k b c v]) auto
qed

lemma parse_accepted:
  assumes "parse_config_line raw = Ok (Some (k, v))"
  shows "\<exists>a b c d w. raw = a @ k @ b @ CHR '':'' # c @ w @ d \<and>
    spaces a \<and> spaces b \<and> spaces c \<and> spaces d \<and> config_key k \<and> trimmed w \<and> v = strip_quotes w"
proof -
  define line where "line = trim raw"
  obtain a d where raw: "raw = a @ line @ d" "spaces a" "spaces d" "trimmed line"
    using trim_split [of raw] by (auto simp: line_def list_all_iff)
  obtain n where n: "find_char CHR '':'' line = Some n" and line: "line \<noteq> []" "hd line \<noteq> CHR ''#''"
    and k: "k = trim (take n line)" "k \<noteq> []" and v: "v = strip_quotes (trim (drop (n + 1) line))"
    using assms
    by (auto simp: parse_config_line_def line_def [symmetric] substr_def Let_def
        split: if_splits option.splits)
  have split: "line = take n line @ CHR '':'' # drop (n + 1) line" and colon: "CHR '':'' \<notin> set (take n line)"
    using n id_take_nth_drop [of n line] by (auto simp: find_char_Some)
  obtain b0 b where b: "take n line = b0 @ k @ b" "spaces b0" "spaces b" "trimmed k"
    using trim_split [of "take n line"] by (auto simp: k(1) list_all_iff)
  have hd_line: "\<not> c_isspace (hd line)" using raw(4) line(1) by (simp add: trimmed_def)
  have "b0 = []"
  proof (rule ccontr)
    assume "b0 \<noteq> []"
    then have "hd line = hd b0" using split b(1) by (metis append_is_Nil_conv hd_append2)
    then show False using hd_line b(2) \<open>b0 \<noteq> []\<close> by (cases b0) auto
  qed
  then have "hd k = hd line" using split b(1) k(2) by (metis append_Nil append_is_Nil_conv hd_append2)
  then have key: "config_key k" using k(2) b colon line(2) by (auto simp: config_key_def)
  obtain c e where w: "drop (n + 1) line = c @ trim (drop (n + 1) line) @ e"
      "spaces c" "spaces e" "trimmed (trim (drop (n + 1) line))"
    using trim_split [of "drop (n + 1) line"] by (auto simp: list_all_iff)
  have "raw = a @ k @ b @ CHR '':'' # c @ trim (drop (n + 1) line) @ (e @ d)"
    using raw(1) split b(1) w(1) \<open>b0 = []\<close> by simp
  then show ?thesis using raw(2,3) b(3) w key v by (metis list_all_append)
qed

text \<open>
  C7. The line grammar: a line is accepted as the pair (k, v) exactly when it consists of
  optional space, the key k, optional space, a colon, optional space, a value w with v its
  unquoted form, and optional space, where the key is non-empty, holds no colon, does not
  start with \<open>#\<close> and has no outer space. The first colon ends the key, so colons in the
  value are kept.
\<close>

theorem config_line_grammar:
  "parse_config_line raw = Ok (Some (k, v)) \<longleftrightarrow>
   (\<exists>a b c d w. raw = a @ k @ b @ CHR '':'' # c @ w @ d \<and>
      spaces a \<and> spaces b \<and> spaces c \<and> spaces d \<and> config_key k \<and> trimmed w \<and> v = strip_quotes w)"
  by (rule iffI) (auto dest: parse_accepted simp: parse_written)

text \<open>The way a value is written so that it reads back verbatim.\<close>

definition write_line :: "string \<times> string \<Rightarrow> string" where
  "write_line kv = fst kv @ '': '' @ CHR 0x22 # snd kv @ [CHR 0x22]"

lemma strip_quoted [simp]: "strip_quotes (CHR 0x22 # v @ [CHR 0x22]) = v"
  by (simp add: strip_quotes_def substr_def)

lemma parse_write_line [simp]:
  assumes "config_key k"
  shows "parse_config_line (write_line (k, v)) = Ok (Some (k, v))"
proof -
  have "c_isspace CHR '' ''" by (simp add: c_isspace_def char_code_def)
  then show ?thesis
    using parse_written [of k "[]" "[]" "'' ''" "[]" "CHR 0x22 # v @ [CHR 0x22]"] assms
    by (simp add: write_line_def trimmed_def)
qed

text \<open>
  There are no end-of-line comments: a \<open>#\<close> after the value is part of the value, and a
  key and value without a space after the colon are accepted; YAML reads both lines
  otherwise.
\<close>

theorem config_line_is_not_yaml:
  assumes "config_key k" and "trimmed (v @ '' # '' @ note)" and "v \<noteq> []" and "hd v \<noteq> CHR 0x22" and "hd v \<noteq> CHR 0x27"
  shows "parse_config_line (k @ '': '' @ v @ '' # '' @ note) = Ok (Some (k, v @ '' # '' @ note)) \<and>
         parse_config_line (k @ '':'' @ v @ '' # '' @ note) = Ok (Some (k, v @ '' # '' @ note))"
proof -
  have "c_isspace CHR '' ''" by (simp add: c_isspace_def char_code_def)
  moreover have "strip_quotes (v @ '' # '' @ note) = v @ '' # '' @ note"
    using assms(3-5) by (simp add: strip_quotes_def)
  ultimately show ?thesis
    using parse_written [of k "[]" "[]" "'' ''" "[]" "v @ '' # '' @ note"]
      parse_written [of k "[]" "[]" "[]" "[]" "v @ '' # '' @ note"] assms by simp
qed

theorem config_line_is_not_yaml_witness:
  "parse_config_line ''port: 80 # http'' = Ok (Some (''port'', ''80 # http'')) \<and>
   parse_config_line ''port:80 # http'' = Ok (Some (''port'', ''80 # http''))"
  using config_line_is_not_yaml [of "''port''" "''80''" "''http''"]
  by (simp add: config_key_def trimmed_def c_isspace_def char_code_def)

end
