(* ===== verification/Config.thy ===== *)
theory Config
  imports Config_Line
begin

text \<open>
  The layered configuration store (include/uaop/common/config.h, src/config.cpp). A file
  is the text that can be read from it, \<open>None\<close> when it cannot be opened; the process
  environment is what \<open>getenv\<close> returns for each name.
\<close>

section \<open>The store and its layers\<close>

type_synonym config_store = "(string \<times> string) list"

definition config_set :: "string \<Rightarrow> string \<Rightarrow> config_store \<Rightarrow> config_store" where
  "config_set key v store = AList.update key v store"

definition config_get :: "config_store \<Rightarrow> string \<Rightarrow> string option" where
  "config_get store key = map_of store key"

definition config_get_or :: "config_store \<Rightarrow> string \<Rightarrow> string \<Rightarrow> string" where
  "config_get_or store key fallback =
     (case config_get store key of Some v \<Rightarrow> v | None \<Rightarrow> fallback)"

definition LF :: char where "LF = CHR 0x0A"

definition getline :: "string \<Rightarrow> (string \<times> string) option" where
  "getline content =
     (if content = [] then None
      else Some (takeWhile (\<lambda>c. c \<noteq> LF) content, drop 1 (dropWhile (\<lambda>c. c \<noteq> LF) content)))"

lemma getline_shorter: "getline content = Some (line, rest) \<Longrightarrow> length rest < length content"
proof -
  assume "getline content = Some (line, rest)"
  then have "content \<noteq> []" "rest = drop 1 (dropWhile (\<lambda>c. c \<noteq> LF) content)"
    by (auto simp: getline_def split: if_splits)
  then show ?thesis
    using length_dropWhile_le [of "\<lambda>c. c \<noteq> LF" content] by (cases content) auto
qed

function load_lines ::
  "string \<Rightarrow> nat \<Rightarrow> string \<Rightarrow> config_store \<Rightarrow> (unit, error) result \<times> config_store" where
  "load_lines path lineno content store =
     (case getline content of
        None \<Rightarrow> (Ok (), store)
      | Some (line, rest) \<Rightarrow>
          (case parse_config_line line of
             Err e \<Rightarrow>
               (Err (Invalid (c_str (err_code e))
                      (path @ '':'' @ dec_nat (lineno + 1) @ '': '' @ err_message e)), store)
           | Ok None \<Rightarrow> load_lines path (lineno + 1) rest store
           | Ok (Some (key, v)) \<Rightarrow> load_lines path (lineno + 1) rest (config_set key v store)))"
  by pat_completeness auto
termination by (relation "measure (\<lambda>(path, lineno, content, store). length content)")
  (auto dest: getline_shorter)

declare load_lines.simps [simp del]

definition load_file ::
  "string \<Rightarrow> string option \<Rightarrow> config_store \<Rightarrow> (unit, error) result \<times> config_store" where
  "load_file path file store =
     (case file of None \<Rightarrow> (Ok (), store) | Some content \<Rightarrow> load_lines path 0 content store)"

definition env_name :: "string \<Rightarrow> string" where
  "env_name key =
     foldl (\<lambda>name c. name @ (if c = CHR ''.'' then ''__'' else [c_toupper c])) ''UAOP_'' key"

definition apply_environment :: "(string \<Rightarrow> string option) \<Rightarrow> config_store \<Rightarrow> config_store" where
  "apply_environment getenv store =
     fold (\<lambda>key vals.
             case getenv (c_str (env_name key)) of
               Some v \<Rightarrow> config_set key v vals
             | None \<Rightarrow> vals)
       (map fst store) store"

section \<open>Typed access\<close>

text \<open>
  \<open>std::from_chars\<close> for \<open>int64_t\<close>, base 10: an optional minus sign and the longest run of
  digits. \<open>None\<close> is an error code (no digits, or a value out of range); otherwise the value
  and how many characters were consumed.
\<close>

definition from_chars_i64 :: "string \<Rightarrow> (i64 \<times> nat) option" where
  "from_chars_i64 s =
     (let neg = (s \<noteq> [] \<and> hd s = CHR ''-'');
          digits = takeWhile is_digit (if neg then tl s else s);
          v = (if neg then - int (digits_val digits) else int (digits_val digits))
      in if digits = [] \<or> \<not> in_i64 v then None
         else Some (v, length digits + (if neg then 1 else 0)))"

definition config_get_int :: "config_store \<Rightarrow> string \<Rightarrow> i64 option" where
  "config_get_int store key =
     (case config_get store key of
        None \<Rightarrow> None
      | Some v \<Rightarrow>
          (case from_chars_i64 v of
             None \<Rightarrow> None
           | Some (out, ptr) \<Rightarrow> if ptr \<noteq> length v then None else Some out))"

definition config_get_bool :: "config_store \<Rightarrow> string \<Rightarrow> bool option" where
  "config_get_bool store key =
     (case config_get store key of
        None \<Rightarrow> None
      | Some v \<Rightarrow>
          let lower = map c_tolower v in
          if lower = ''true'' \<or> lower = ''1'' \<or> lower = ''yes'' then Some True
          else if lower = ''false'' \<or> lower = ''0'' \<or> lower = ''no'' then Some False
          else None)"

definition missing_keys :: "config_store \<Rightarrow> string list \<Rightarrow> string" where
  "missing_keys store keys =
     foldl (\<lambda>missing key.
              if config_get store key = None
              then (if missing \<noteq> [] then missing @ '', '' else missing) @ key
              else missing) [] keys"

definition config_require :: "config_store \<Rightarrow> string list \<Rightarrow> (unit, error) result" where
  "config_require store keys =
     (let missing = missing_keys store keys in
      if missing \<noteq> []
      then Err (Fatal ''E_CONFIG_MISSING'' (''missing required config keys: '' @ missing))
      else Ok ())"

section \<open>Files\<close>

lemma config_get_set: "config_get (config_set k v store) k' = (if k' = k then Some v else config_get store k')"
  by (simp add: config_get_def config_set_def update_conv')

lemma getline_unlines:
  "LF \<notin> set line \<Longrightarrow> getline (line @ LF # rest) = Some (line, rest)"
proof -
  assume "LF \<notin> set line"
  then have "\<forall>c \<in> set line. c \<noteq> LF" by auto
  then have "takeWhile (\<lambda>c. c \<noteq> LF) (line @ LF # rest) = line"
    "dropWhile (\<lambda>c. c \<noteq> LF) (line @ LF # rest) = LF # rest"
    by (simp_all add: takeWhile_append2 dropWhile_append2)
  then show ?thesis by (simp add: getline_def)
qed

text \<open>One line at a time: what \<open>load_lines\<close> does with a file that starts with a good line.\<close>

definition apply_line :: "string \<Rightarrow> config_store \<Rightarrow> config_store" where
  "apply_line line store =
     (case parse_config_line line of Ok (Some (k, v)) \<Rightarrow> config_set k v store | _ \<Rightarrow> store)"

definition unlines :: "string list \<Rightarrow> string" where
  "unlines ls = concat (map (\<lambda>l. l @ [LF]) ls)"

lemma load_lines_good:
  assumes "\<forall>l \<in> set good. LF \<notin> set l \<and> result_ok (parse_config_line l)"
  shows "load_lines path n (unlines good @ rest) store =
         load_lines path (n + length good) rest (fold apply_line good store)"
  using assms
proof (induction good arbitrary: n store)
  case Nil
  then show ?case by (simp add: unlines_def)
next
  case (Cons l good)
  then obtain r where r: "parse_config_line l = Ok r" by (auto simp: result_ok_cases)
  have "getline (unlines (l # good) @ rest) = Some (l, unlines good @ rest)"
    using Cons.prems getline_unlines by (simp add: unlines_def)
  moreover have "apply_line l store = (case r of None \<Rightarrow> store | Some (k, v) \<Rightarrow> config_set k v store)"
    by (simp add: apply_line_def r split: option.splits)
  ultimately show ?case
    using Cons by (subst load_lines.simps) (auto simp: r split: option.splits prod.splits)
qed

lemma load_lines_end: "load_lines path n [] store = (Ok (), store)"
  by (subst load_lines.simps) (simp add: getline_def)

lemma load_file_good:
  assumes "\<forall>l \<in> set good. LF \<notin> set l \<and> result_ok (parse_config_line l)"
  shows "load_file path (Some (unlines good)) store = (Ok (), fold apply_line good store)"
  using load_lines_good [OF assms, of path 0 "[]" store]
  by (simp add: load_file_def load_lines_end)

lemma fold_config_set: "fold (\<lambda>(k, v). config_set k v) kvs store = fold (\<lambda>(k, v). AList.update k v) kvs store"
  by (simp add: config_set_def [abs_def])

lemma config_get_set_all:
  "um_ok store \<Longrightarrow>
   config_get (fold (\<lambda>(k, v). config_set k v) kvs store) key =
     (case map_of (rev kvs) key of None \<Rightarrow> config_get store key | Some v \<Rightarrow> Some v)"
  unfolding config_get_def fold_config_set by (rule um.find_put_all)

lemma config_set_all_ok: "um_ok store \<Longrightarrow> um_ok (fold (\<lambda>(k, v). config_set k v) kvs store)"
  unfolding fold_config_set by (rule um.ok_put_all)

lemma load_written:
  assumes "\<forall>(k, v) \<in> set kvs. config_key k \<and> LF \<notin> set k \<and> LF \<notin> set v"
  shows "load_file path (Some (unlines (map write_line kvs))) store =
    (Ok (), fold (\<lambda>(k, v). config_set k v) kvs store)"
proof -
  have lines: "fold apply_line (map write_line kvs) store = fold (\<lambda>(k, v). config_set k v) kvs store"
    using assms by (induction kvs arbitrary: store) (auto simp: apply_line_def)
  have "LF \<notin> set (write_line kv) \<and> result_ok (parse_config_line (write_line kv))" if "kv \<in> set kvs" for kv
  proof -
    obtain k v where kv: "kv = (k, v)" by (cases kv)
    then have "config_key k" "LF \<notin> set k" "LF \<notin> set v" using assms that by auto
    then have "result_ok (parse_config_line (write_line kv))" by (simp add: kv)
    moreover have "LF \<notin> set (write_line kv)"
      using \<open>LF \<notin> set k\<close> \<open>LF \<notin> set v\<close> by (simp add: write_line_def kv LF_def)
    ultimately show ?thesis by simp
  qed
  then show ?thesis using load_file_good [of "map write_line kvs" path store] by (simp add: lines)
qed

text \<open>
  C8. Configuration files round-trip: a file that lists quoted values, whatever characters
  but line feeds they hold, loads without error, and afterwards a key has the value of its
  last line in the file, or, if the file does not name it, the value it had before.
\<close>

theorem config_file_roundtrip:
  assumes "\<forall>(k, v) \<in> set kvs. config_key k \<and> LF \<notin> set k \<and> LF \<notin> set v" and "um_ok store"
    and "load_file path (Some (unlines (map write_line kvs))) store = (r, store')"
  shows "r = Ok () \<and>
         config_get store' key =
           (case map_of (rev kvs) key of None \<Rightarrow> config_get store key | Some v \<Rightarrow> Some v)"
  using assms(3) load_written [OF assms(1), of path store] config_get_set_all [OF assms(2)]
  by auto

theorem config_file_roundtrip_witness:
  "config_get (snd (load_file ''p'' (Some (unlines (map write_line [(''a'', ''1''), (''b'', ''x: # y''), (''a'', ''2'')])))
      [(''a'', ''0''), (''c'', ''3'')])) ''a'' = Some ''2''"
  using config_file_roundtrip
    [of "[(''a'', ''1''), (''b'', ''x: # y''), (''a'', ''2'')]" "[(''a'', ''0''), (''c'', ''3'')]" "''p''"
       _ _ "''a''", OF _ _ prod.collapse [symmetric]]
  by (simp add: config_key_def trimmed_def c_isspace_def char_code_def LF_def)

text \<open>
  C9. A malformed line stops the load and is reported by file and line number; the lines
  before it have already been applied, the lines after it are ignored.
\<close>

theorem load_file_reports_malformed_line:
  assumes "\<forall>l \<in> set good. LF \<notin> set l \<and> result_ok (parse_config_line l)"
    and "LF \<notin> set bad" and "parse_config_line bad = Err e"
  shows "load_file path (Some (unlines good @ bad @ LF # rest)) store =
         (Err (Invalid ''E_CONFIG_SYNTAX''
                (path @ '':'' @ dec_nat (length good + 1) @ '': '' @ err_message e)),
          fold apply_line good store)"
proof -
  have "err_code e = ''E_CONFIG_SYNTAX''"
    using assms(3) by (auto simp: parse_config_line_def Let_def split: if_splits option.splits)
  moreover have "c_str ''E_CONFIG_SYNTAX'' = ''E_CONFIG_SYNTAX''" by (simp add: c_str_def char_code_def)
  ultimately show ?thesis
    using load_lines_good [OF assms(1), of path 0 "bad @ LF # rest" store] assms(2,3)
    by (simp add: load_file_def) (subst load_lines.simps, simp add: getline_unlines)
qed

theorem load_file_reports_malformed_line_witness:
  "load_file ''p'' (Some (unlines [''a: 1'', ''# note''] @ ''nope'' @ LF # ''b: 2'')) [] =
     (Err (Invalid ''E_CONFIG_SYNTAX''
        (''p:'' @ dec_nat (length [''a: 1'', ''# note''] + 1) @ '': '' @ ''expected 'key: value', got: nope'')),
      fold apply_line [''a: 1'', ''# note''] [])"
proof -
  have trims: "trim ''nope'' = ''nope''" "trim ''a: 1'' = ''a: 1''" "trim ''# note'' = ''# note''" "trim ''a'' = ''a''"
    by (rule trimmed_trim, simp add: trimmed_def c_isspace_def char_code_def)+
  have bad: "parse_config_line ''nope'' = Err (Invalid ''E_CONFIG_SYNTAX'' ''expected 'key: value', got: nope'')"
    by (simp add: parse_config_line_def trims)
  show ?thesis
    using load_file_reports_malformed_line [OF _ _ bad, of "[''a: 1'', ''# note'']" "''p''" "''b: 2''" "[]"]
    by (simp add: LF_def parse_config_line_def trims substr_def)
qed

section \<open>The environment\<close>

lemma fold_env_get:
  "config_get (fold (\<lambda>key vals. case getenv (c_str (env_name key)) of
        Some v \<Rightarrow> config_set key v vals | None \<Rightarrow> vals) keys store) key =
   (if key \<in> set keys \<and> getenv (c_str (env_name key)) \<noteq> None
    then getenv (c_str (env_name key)) else config_get store key)"
proof (induction keys arbitrary: store)
  case Nil
  then show ?case by simp
next
  case (Cons k keys)
  then show ?case by (cases "getenv (c_str (env_name k))") (auto simp: config_get_set)
qed

lemma config_get_keys: "key \<in> fst ` set store \<longleftrightarrow> config_get store key \<noteq> None"
  by (auto simp: config_get_def map_of_eq_None_iff)

lemma config_get_environment:
  "config_get (apply_environment getenv store) key =
   (case config_get store key of
      None \<Rightarrow> None
    | Some v \<Rightarrow> Some (case getenv (c_str (env_name key)) of Some v' \<Rightarrow> v' | None \<Rightarrow> v))"
  using config_get_keys [of key store]
  by (auto simp: apply_environment_def fold_env_get split: option.splits)

text \<open>
  The environment overrides the keys the store already has and adds none: a key without
  a value keeps having none, whatever the environment holds.
\<close>

theorem environment_overrides_known_keys_only:
  "config_get (apply_environment getenv store) key =
   (case config_get store key of
      None \<Rightarrow> None
    | Some v \<Rightarrow> Some (case getenv (c_str (env_name key)) of Some v' \<Rightarrow> v' | None \<Rightarrow> v))"
  by (rule config_get_environment)



lemma env_name_eq:
  "env_name key = ''UAOP_'' @ concat (map (\<lambda>c. if c = CHR ''.'' then ''__'' else [c_toupper c]) key)"
proof -
  have "foldl (\<lambda>name c. name @ (if c = CHR ''.'' then ''__'' else [c_toupper c])) acc key =
      acc @ concat (map (\<lambda>c. if c = CHR ''.'' then ''__'' else [c_toupper c]) key)" for acc
    by (induction key arbitrary: acc) auto
  then show ?thesis by (simp add: env_name_def)
qed

text \<open>Keys in lower case without underscores, as the platform's own keys are.\<close>

definition plain_key :: "string \<Rightarrow> bool" where
  "plain_key k \<longleftrightarrow> (\<forall>c \<in> set k. c \<noteq> CHR ''_'' \<and> char_code c \<noteq> 0 \<and>
     \<not> (65 \<le> char_code c \<and> char_code c \<le> 90))"

lemma c_toupper_plain_inj:
  assumes "c_toupper c = c_toupper d"
    and "\<not> (65 \<le> char_code c \<and> char_code c \<le> 90)" and "\<not> (65 \<le> char_code d \<and> char_code d \<le> 90)"
  shows "c = d"
proof -
  have code: "char_code (c_toupper x) = (if 97 \<le> char_code x \<and> char_code x \<le> 122
      then char_code x - 32 else char_code x)" for x
    using char_code_less [of x] by (auto simp: c_toupper_def char_code_def Let_def)
  have "char_code c = char_code d"
    using assms(2,3) arg_cong [OF assms(1), of char_code] unfolding code
    by (auto split: if_splits)
  then show ?thesis by (simp add: char_code_def)
qed

lemma c_toupper_underscore: "c_toupper c = CHR ''_'' \<longleftrightarrow> c = CHR ''_''"
proof
  assume "c_toupper c = CHR ''_''"
  then show "c = CHR ''_''"
    using c_toupper_plain_inj [of c "CHR ''_''"] char_code_less [of c]
    by (auto simp: c_toupper_def char_code_def Let_def split: if_splits)
qed (simp add: c_toupper_def char_code_def)

text \<open>
  Distinct plain keys have distinct environment variables, so one variable overrides one
  of them.
\<close>

theorem env_name_injective_on_plain_keys:
  assumes "plain_key k" and "plain_key k'" and "c_str (env_name k) = c_str (env_name k')"
  shows "k = k'"
proof -
  define enc where "enc = (\<lambda>c. if c = CHR ''.'' then ''__'' else [c_toupper c])"
  have whole: "c_str (env_name k) = ''UAOP_'' @ concat (map enc k)" if "plain_key k" for k
  proof -
    have nz: "char_code (c_toupper c) \<noteq> 0" if "char_code c \<noteq> 0" for c
      using that char_code_less [of c] by (auto simp: c_toupper_def char_code_def Let_def)
    have "char_code c \<noteq> 0" if c: "c \<in> set (''UAOP_'' @ concat (map enc k))" for c
    proof (cases "c \<in> set ''UAOP_''")
      case True
      then show ?thesis by (auto simp: char_code_def)
    next
      case False
      with c obtain d where "d \<in> set k" "c \<in> set (enc d)" by auto
      then show ?thesis
        using nz [of d] \<open>plain_key k\<close> by (auto simp: enc_def plain_key_def char_code_def split: if_splits)
    qed
    then show ?thesis unfolding c_str_def env_name_eq enc_def [symmetric] by (simp only: takeWhile_eq_all_conv) blast
  qed
  have "concat (map enc k) = concat (map enc k') \<Longrightarrow> k = k'"
    using assms(1,2)
  proof (induction k arbitrary: k')
    case Nil
    then show ?case by (cases k') (auto simp: enc_def split: if_splits)
  next
    case (Cons c k)
    then obtain d l where k': "k' = d # l" by (cases k') (auto simp: enc_def split: if_splits)
    have plain: "plain_key k" "plain_key l" "c \<noteq> CHR ''_''" "d \<noteq> CHR ''_''"
      using Cons.prems(2,3) by (auto simp: plain_key_def k')
    have heads: "c = d \<and> concat (map enc k) = concat (map enc l)"
      using Cons.prems c_toupper_plain_inj [of c d] c_toupper_underscore [of c] c_toupper_underscore [of d]
      by (auto simp: k' enc_def plain_key_def split: if_splits)
    then show ?case using Cons.IH [of l] plain by (simp add: k')
  qed
  with assms show ?thesis by (simp add: whole)
qed

theorem env_name_injective_on_plain_keys_witness:
  "c_str (env_name ''nats.url'') \<noteq> c_str (env_name ''natsurl'')"
  using env_name_injective_on_plain_keys [of "''nats.url''" "''natsurl''"]
  by (auto simp: plain_key_def char_code_def)

text \<open>Outside them names collide: a dot and two underscores give one variable.\<close>

lemma env_name_collision: "env_name (a @ ''.'' @ b) = env_name (a @ ''__'' @ b)"
  by (simp add: env_name_eq c_toupper_def char_code_def)

section \<open>Integers\<close>

lemma takeWhile_digits: "\<forall>c \<in> set ds. is_digit c \<Longrightarrow> takeWhile is_digit ds = ds"
  by (simp add: takeWhile_eq_all_conv)

lemma minus_not_digit [simp]: "\<not> is_digit CHR ''-''"
  by (simp add: is_digit_def char_code_def)

definition int_literal :: "string \<Rightarrow> int \<Rightarrow> bool" where
  "int_literal v i \<longleftrightarrow>
     (\<exists>neg ds. v = (if neg then ''-'' else []) @ ds \<and> ds \<noteq> [] \<and> list_all is_digit ds \<and>
        i = (if neg then - int (digits_val ds) else int (digits_val ds)))"

lemma from_chars_full:
  "from_chars_i64 v = Some (i, length v) \<longleftrightarrow> int_literal v i \<and> in_i64 i"
proof
  assume parsed: "from_chars_i64 v = Some (i, length v)"
  define neg where "neg = (v \<noteq> [] \<and> hd v = CHR ''-'')"
  define body where "body = (if neg then tl v else v)"
  define ds where "ds = takeWhile is_digit body"
  have v: "v = (if neg then ''-'' else []) @ body"
    by (auto simp: neg_def body_def intro: hd_Cons_tl [symmetric] dest: hd_Cons_tl)
  have unfolded: "from_chars_i64 v =
      (if ds = [] \<or> \<not> in_i64 (if neg then - int (digits_val ds) else int (digits_val ds)) then None
       else Some (if neg then - int (digits_val ds) else int (digits_val ds),
                  length ds + (if neg then 1 else 0)))"
    by (simp only: from_chars_i64_def Let_def neg_def body_def ds_def)
  from parsed have facts: "ds \<noteq> []" "in_i64 i"
    "i = (if neg then - int (digits_val ds) else int (digits_val ds))"
    "length ds + (if neg then 1 else 0) = length v"
    unfolding unfolded by (auto split: if_splits)
  have "length ds = length body" using facts(4) arg_cong [OF v, of length] by (simp split: if_splits)
  then have "ds = body" by (metis ds_def takeWhile_eq_take take_all order_refl)
  then have "list_all is_digit ds" by (metis ds_def list_all_iff set_takeWhileD)
  with facts v \<open>ds = body\<close> show "int_literal v i \<and> in_i64 i"
    unfolding int_literal_def by blast
next
  assume "int_literal v i \<and> in_i64 i"
  then obtain neg ds where lit: "v = (if neg then ''-'' else []) @ ds" "ds \<noteq> []" "list_all is_digit ds"
      "i = (if neg then - int (digits_val ds) else int (digits_val ds))" "in_i64 i"
    unfolding int_literal_def by blast
  then have digits: "\<forall>c \<in> set ds. is_digit c" by (simp add: list_all_iff)
  then have "hd ds \<noteq> CHR ''-''" using \<open>ds \<noteq> []\<close> by (cases ds) auto
  with lit show "from_chars_i64 v = Some (i, length v)"
    by (cases neg) (simp_all add: from_chars_i64_def Let_def takeWhile_digits [OF digits])
qed

lemma config_get_int_iff:
  "config_get_int store key = Some i \<longleftrightarrow>
   (\<exists>v. config_get store key = Some v \<and> int_literal v i \<and> in_i64 i)"
  by (auto simp: config_get_int_def from_chars_full [symmetric] split: option.splits)

text \<open>
  \<open>get_int\<close> accepts exactly the decimal literals, an optional minus sign and one or more
  digits and nothing else, whose value fits 64 bits, and returns that value; it is absent
  for any other text and for a key that is not there.
\<close>

theorem get_int_accepts_exactly_literals:
  "config_get_int store key = Some i \<longleftrightarrow>
   (\<exists>v. config_get store key = Some v \<and> int_literal v i \<and> in_i64 i)"
  by (rule config_get_int_iff)

lemma int_literal_dec_int: "int_literal (dec_int i) j \<longleftrightarrow> j = i"
proof
  have "int_literal (dec_int i) i"
    unfolding int_literal_def
    by (rule exI [of _ "i < 0"], rule exI [of _ "dec_nat (nat \<bar>i\<bar>)"])
       (auto simp: dec_int_def list_all_iff dec_nat_digits)
  then show "j = i \<Longrightarrow> int_literal (dec_int i) j" by simp
  assume "int_literal (dec_int i) j"
  then obtain neg ds where lit: "dec_int i = (if neg then ''-'' else []) @ ds" "ds \<noteq> []" "list_all is_digit ds"
      "j = (if neg then - int (digits_val ds) else int (digits_val ds))"
    unfolding int_literal_def by blast
  have nd: "dec_nat n \<noteq> CHR ''-'' # xs" for n xs
    using dec_nat_digits [of "CHR ''-''" n] by (metis list.set_intros(1) minus_not_digit)
  show "j = i"
    using lit nd by (cases neg; cases "i < 0") (auto simp: dec_int_def list_all_iff dest: sym)
qed

lemma get_int_of_printed:
  "config_get_int (config_set key (dec_int i) store) key = (if in_i64 i then Some i else None)"
proof -
  have "config_get_int (config_set key (dec_int i) store) key = Some j \<longleftrightarrow> j = i \<and> in_i64 i" for j
    by (auto simp: config_get_int_iff config_get_set int_literal_dec_int)
  then show ?thesis by (cases "config_get_int (config_set key (dec_int i) store) key") auto
qed

section \<open>Booleans\<close>

lemma tolower_toupper [simp]: "c_tolower (c_toupper c) = c_tolower c"
proof -
  have "char_code (c_tolower (c_toupper c)) = char_code (c_tolower c)"
    using char_code_less [of c] by (auto simp: c_tolower_def c_toupper_def char_code_def Let_def)
  then show ?thesis by (simp add: char_code_def)
qed

lemma get_bool_ignores_case:
  "config_get_bool (config_set key (map c_toupper v) store) key =
   config_get_bool (config_set key v store) key"
  by (simp add: config_get_bool_def config_get_set comp_def)

lemma get_bool_of_words:
  "config_get_bool (config_set key (if b then ''true'' else ''false'') store) key = Some b"
proof -
  have "map c_tolower ''true'' = ''true''" "map c_tolower ''false'' = ''false''"
    by (simp_all add: c_tolower_def char_code_def)
  then show ?thesis by (simp add: config_get_bool_def config_get_set del: list.map)
qed

section \<open>Required keys\<close>

fun comma_join :: "string list \<Rightarrow> string" where
  "comma_join [] = []"
| "comma_join (k # ks) = k @ concat (map (\<lambda>k. '', '' @ k) ks)"

lemma comma_join_snoc: "comma_join (ks @ [k]) = (if ks = [] then k else comma_join ks @ '', '' @ k)"
  by (cases ks) auto

definition absent_keys :: "config_store \<Rightarrow> string list \<Rightarrow> string list" where
  "absent_keys store keys =
     dropWhile (\<lambda>k. k = []) (filter (\<lambda>k. config_get store k = None) keys)"

lemma absent_keys_snoc:
  "absent_keys store (keys @ [k]) =
     (if config_get store k = None \<and> (k \<noteq> [] \<or> absent_keys store keys \<noteq> [])
      then absent_keys store keys @ [k] else absent_keys store keys)"
proof -
  define ms where "ms = filter (\<lambda>k. config_get store k = None) keys"
  have "dropWhile (\<lambda>k. k = []) (ms @ [k]) =
      (if dropWhile (\<lambda>k. k = []) ms = [] then (if k = [] then [] else [k])
       else dropWhile (\<lambda>k. k = []) ms @ [k])"
    by (induction ms) auto
  then show ?thesis
    by (cases "config_get store k = None"; cases "k = []")
       (simp_all add: absent_keys_def ms_def del: dropWhile_eq_Nil_conv)
qed

lemma hd_absent: "absent_keys store keys \<noteq> [] \<Longrightarrow> hd (absent_keys store keys) \<noteq> []"
  unfolding absent_keys_def using hd_dropWhile by blast

lemma comma_join_absent [simp]: "comma_join (absent_keys store keys) = [] \<longleftrightarrow> absent_keys store keys = []"
  using hd_absent [of store keys] by (cases "absent_keys store keys") auto

lemma missing_keys_eq: "missing_keys store keys = comma_join (absent_keys store keys)"
proof (induction keys rule: rev_induct)
  case Nil
  then show ?case by (simp add: missing_keys_def absent_keys_def)
next
  case (snoc k keys)
  have "missing_keys store (keys @ [k]) =
      (if config_get store k = None
       then (if missing_keys store keys \<noteq> [] then missing_keys store keys @ '', '' else missing_keys store keys) @ k
       else missing_keys store keys)"
    by (simp add: missing_keys_def)
  then show ?case using snoc by (auto simp: absent_keys_snoc comma_join_snoc)
qed

lemma absent_keys_Nil: "absent_keys store keys = [] \<longleftrightarrow> (\<forall>k \<in> set keys. k \<noteq> [] \<longrightarrow> config_get store k \<noteq> None)"
  by (auto simp: absent_keys_def dropWhile_eq_Nil_conv)

text \<open>
  \<open>require\<close> fails exactly when a key with a non-empty name has no value, with a fatal,
  not retryable error that lists every absent key in the order asked for.
\<close>

theorem require_reports_every_absent_key:
  "config_require store keys =
     (if \<exists>k \<in> set keys. k \<noteq> [] \<and> config_get store k = None
      then Err (Fatal ''E_CONFIG_MISSING''
             (''missing required config keys: '' @ comma_join (absent_keys store keys)))
      else Ok ())"
  using absent_keys_Nil [of store keys]
  by (auto simp: config_require_def missing_keys_eq Let_def)

text \<open>The empty key is never reported, though it has no value.\<close>

lemma require_ignores_empty_key: "config_require [] [[]] = Ok ()"
  by (simp add: config_require_def missing_keys_def config_get_def)

end
