(* ===== verification/Dbl.thy ===== *)
theory Dbl
  imports Prelude
begin

text \<open>
  The \<open>double\<close> values of the services: an IEEE 754 binary64 bit pattern, its decoding into a
  sign and an exact fraction, rounding of a fraction to the nearest pattern (ties to even),
  the conversion from unsigned integers, and the text \<open>operator<<\<close> prints with the default
  precision of six significant digits (\<open>%.6g\<close>).
\<close>

section \<open>Bit patterns\<close>

type_synonym double = u64

datatype dbl_value =
    Nan bool
  | Infinite bool
  | Finite bool nat nat  \<comment> \<open>sign, numerator, denominator\<close>

definition dbl_sign :: "double \<Rightarrow> bool" where
  "dbl_sign b \<longleftrightarrow> 2 ^ 63 \<le> unat b"

definition dbl_exponent :: "double \<Rightarrow> nat" where
  "dbl_exponent b = unat b div 2 ^ 52 mod 2048"

definition dbl_fraction :: "double \<Rightarrow> nat" where
  "dbl_fraction b = unat b mod 2 ^ 52"

definition dbl_decode :: "double \<Rightarrow> dbl_value" where
  "dbl_decode b =
     (let s = dbl_sign b; e = dbl_exponent b; f = dbl_fraction b in
      if e = 2047 then (if f = 0 then Infinite s else Nan s)
      else let m = (if e = 0 then f else 2 ^ 52 + f); k = max e 1 in
        if 1075 \<le> k then Finite s (m * 2 ^ (k - 1075)) 1 else Finite s m (2 ^ (1075 - k)))"

section \<open>Rounding\<close>

definition div_half_even :: "nat \<Rightarrow> nat \<Rightarrow> nat" where
  "div_half_even n d =
     (let q = n div d; r = n mod d in
      if 2 * r < d \<or> 2 * r = d \<and> even q then q else q + 1)"

text \<open>The largest \<open>k\<close> with \<open>b ^ k \<le> n\<close>, and the exponent of a fraction in base \<open>b\<close>.\<close>

fun floor_log_nat :: "nat \<Rightarrow> nat \<Rightarrow> nat" where
  "floor_log_nat b n = (if b \<le> 1 \<or> n < b then 0 else Suc (floor_log_nat b (n div b)))"

declare floor_log_nat.simps [simp del]

definition floor_log_frac :: "nat \<Rightarrow> nat \<Rightarrow> nat \<Rightarrow> int" where
  "floor_log_frac b n d =
     (if d \<le> n then int (floor_log_nat b (n div d))
      else - int (Suc (floor_log_nat b ((d - 1) div n))))"

text \<open>The pattern of a non-negative fraction; \<open>None\<close> when it is too large.\<close>

definition round_dbl :: "nat \<Rightarrow> nat \<Rightarrow> double option" where
  "round_dbl n d =
     (if n = 0 then Some 0
      else let e = max (floor_log_frac 2 n d) (- 1022);
               q = (if 52 \<le> e then div_half_even n (d * 2 ^ nat (e - 52))
                    else div_half_even (n * 2 ^ nat (52 - e)) d);
               bits = nat (e + 1022) * 2 ^ 52 + q
           in if 2047 * 2 ^ 52 \<le> bits then None else Some (of_nat bits))"

definition u64_to_double :: "u64 \<Rightarrow> double" where
  "u64_to_double w = (case round_dbl (unat w) 1 of Some b \<Rightarrow> b | None \<Rightarrow> 0x7FF0000000000000)"

section \<open>Printing\<close>

definition strip_zeros :: "string \<Rightarrow> string" where
  "strip_zeros s = rev (dropWhile (\<lambda>c. c = CHR ''0'') (rev s))"

definition zero_padded :: "nat \<Rightarrow> nat \<Rightarrow> string" where
  "zero_padded k n = (if k = 0 then [] else replicate (k - length (dec_nat n)) CHR ''0'' @ dec_nat n)"

definition with_fraction :: "nat \<Rightarrow> string \<Rightarrow> string" where
  "with_fraction whole frac =
     dec_nat whole @ (if strip_zeros frac = [] then [] else CHR ''.'' # strip_zeros frac)"

text \<open>Six significant digits and the decimal exponent of the first.\<close>

definition g_digits :: "nat \<Rightarrow> nat \<Rightarrow> nat \<times> int" where
  "g_digits n d =
     (let x = floor_log_frac 10 n d;
          q = (if x \<le> 5 then div_half_even (n * 10 ^ nat (5 - x)) d
               else div_half_even n (d * 10 ^ nat (x - 5)))
      in if q = 1000000 then (100000, x + 1) else (q, x))"

definition print_g :: "nat \<Rightarrow> nat \<Rightarrow> string" where
  "print_g n d =
     (if n = 0 then ''0''
      else let (q, x) = g_digits n d in
        if - 4 \<le> x \<and> x < 6
        then let k = nat (5 - x) in with_fraction (q div 10 ^ k) (zero_padded k (q mod 10 ^ k))
        else with_fraction (q div 100000) (zero_padded 5 (q mod 100000)) @ ''e'' @
          (if x < 0 then ''-'' else ''+'') @
          (if \<bar>x\<bar> < 10 then ''0'' else []) @ dec_nat (nat \<bar>x\<bar>))"

definition print_double :: "double \<Rightarrow> string" where
  "print_double b =
     (case dbl_decode b of
        Nan s \<Rightarrow> (if s then ''-nan'' else ''nan'')
      | Infinite s \<Rightarrow> (if s then ''-inf'' else ''inf'')
      | Finite s n d \<Rightarrow> (if s then ''-'' else []) @ print_g n d)"

section \<open>Logarithms\<close>

lemma floor_log_nat_bounds:
  "1 < b \<Longrightarrow> 0 < n \<Longrightarrow> b ^ floor_log_nat b n \<le> n \<and> n < b * b ^ floor_log_nat b n"
proof (induction b n rule: floor_log_nat.induct)
  case (1 b n)
  show ?case
  proof (cases "n < b")
    case True
    then show ?thesis using 1 by (simp add: floor_log_nat.simps [of b n])
  next
    case False
    define k where "k = floor_log_nat b (n div b)"
    have "0 < n div b" using 1(2) False by (simp add: div_greater_zero_iff)
    then have ih: "b ^ k \<le> n div b" "n div b < b * b ^ k"
      using 1 False by (simp_all add: k_def)
    have "b * b ^ k \<le> n"
      using ih(1) 1(2) by (metis (no_types) less_eq_div_iff_mult_less_eq mult.commute less_trans zero_less_one)
    moreover have "n < b * (b * b ^ k)"
      using ih(2) 1(2) by (metis div_less_iff_less_mult less_trans mult.commute zero_less_one)
    moreover have "floor_log_nat b n = Suc k"
      using False 1(2) by (simp add: floor_log_nat.simps [of b n] k_def)
    ultimately show ?thesis by simp
  qed
qed

lemma floor_log_frac_exact:
  "0 < d \<Longrightarrow> 0 < n \<Longrightarrow> floor_log_frac b (n * d) d = int (floor_log_nat b n)"
  by (simp add: floor_log_frac_def)

lemma div_half_even_exact [simp]: "0 < d \<Longrightarrow> div_half_even (n * d) d = n"
  by (simp add: div_half_even_def)

section \<open>Small counts print exactly\<close>

lemma floor_log_less:
  assumes "1 < b" and "0 < n" and "n < b ^ k"
  shows "floor_log_nat b n < k"
proof -
  have "b ^ floor_log_nat b n < b ^ k"
    using floor_log_nat_bounds [OF assms(1,2)] assms(3) by linarith
  then show ?thesis using assms(1) by (simp add: power_strict_increasing_iff)
qed

lemma strip_zero_padded [simp]: "strip_zeros (zero_padded k 0) = []"
proof -
  have "dec_nat 0 = ''0''" by (simp add: dec_nat.simps [of 0] digit_char_def char_of_def bit_0)
  then have "set (zero_padded k 0) \<subseteq> {CHR ''0''}" by (auto simp: zero_padded_def)
  then show ?thesis by (auto simp: strip_zeros_def dropWhile_eq_Nil_conv)
qed

lemma print_g_small:
  assumes "0 < n" and "n < 1000000" and "0 < d"
  shows "print_g (n * d) d = dec_nat n"
proof -
  define x where "x = floor_log_nat 10 n"
  have x: "x < 6" using floor_log_less [of 10 n 6] assms by (simp add: x_def)
  have upper: "n < 10 * 10 ^ x" using floor_log_nat_bounds [of 10 n] assms by (simp add: x_def)
  define k where "k = 5 - x"
  have q: "div_half_even (n * d * 10 ^ k) d = n * 10 ^ k"
    using div_half_even_exact [OF assms(3), of "n * 10 ^ k"] by (simp only: ac_simps)
  have "n * 10 ^ k < 10 * 10 ^ x * 10 ^ k" using upper by simp
  also have "\<dots> = 10 ^ 6" using x by (simp add: k_def flip: power_add power_Suc)
  finally have "n * 10 ^ k \<noteq> 1000000" by simp
  then have digits: "g_digits (n * d) d = (n * 10 ^ k, int x)"
    using x assms q by (simp add: g_digits_def floor_log_frac_exact x_def [symmetric] k_def nat_diff_distrib Let_def)
  have "nat (5 - int x) = k" by (simp add: k_def nat_diff_distrib)
  then show ?thesis
    using x assms by (simp add: print_g_def digits with_fraction_def)
qed

lemma u64_to_double_exact:
  assumes "0 < unat w" and "unat w < 2 ^ 53"
  shows "\<exists>d > 0. dbl_decode (u64_to_double w) = Finite False (unat w * d) d"
proof -
  define n where "n = unat w"
  define k where "k = floor_log_nat 2 n"
  define q where "q = n * 2 ^ (52 - k)"
  have n: "0 < n" "n < 2 ^ 53" using assms by (simp_all add: n_def)
  have k: "k < 53" using floor_log_less [of 2 n 53] n by (simp add: k_def)
  have bounds: "2 ^ k \<le> n" "n < 2 * 2 ^ k"
    using floor_log_nat_bounds [of 2 n] n by (simp_all add: k_def)
  have pow: "2 ^ k * 2 ^ (52 - k) = (2 :: nat) ^ 52" using k by (simp flip: power_add)
  have "2 ^ k * 2 ^ (52 - k) \<le> q" "q < 2 * 2 ^ k * 2 ^ (52 - k)"
    unfolding q_def using bounds by (intro mult_le_mono1, simp, intro mult_strict_right_mono, simp_all)
  then have q: "2 ^ 52 \<le> q" "q < 2 ^ 53" unfolding mult.assoc pow by simp_all
  define bits where "bits = (k + 1022) * 2 ^ 52 + q"
  have small: "bits < 1100 * 2 ^ 52" using k q by (simp add: bits_def)
  have "floor_log_frac 2 n 1 = int k" using floor_log_frac_exact [of 1 n 2] n by (simp add: k_def)
  moreover have "(if 52 \<le> int k then div_half_even n (1 * 2 ^ nat (int k - 52))
      else div_half_even (n * 2 ^ nat (52 - int k)) 1) = q"
    using k div_half_even_exact [of 1] by (auto simp: q_def nat_diff_distrib)
  moreover have "nat (int k + 1022) = k + 1022" by simp
  moreover have "max (int k) (- 1022) = int k" "n \<noteq> 0" "\<not> 2047 * 2 ^ 52 \<le> bits"
    using n small by simp_all
  ultimately have "round_dbl n 1 = Some (of_nat bits)"
    unfolding round_dbl_def Let_def by (simp only: if_False bits_def)
  then have pattern: "u64_to_double w = of_nat bits" by (simp add: u64_to_double_def n_def)
  have unat: "unat (of_nat bits :: u64) = bits"
    using small by (simp add: unat_of_nat)
  have parts: "bits = (k + 1023) * 2 ^ 52 + (q - 2 ^ 52)" "q - 2 ^ 52 < 2 ^ 52"
    using q by (simp_all add: bits_def)
  have frac: "bits mod 2 ^ 52 = q - 2 ^ 52"
    using parts(2) unfolding parts(1) by (simp only: mod_mult_self3 mod_less)
  have "bits div 2 ^ 52 = k + 1023"
    using q by (intro div_nat_eqI) (simp_all add: bits_def)
  then have "dbl_exponent (of_nat bits) = k + 1023" "dbl_fraction (of_nat bits) = q - 2 ^ 52"
    "\<not> dbl_sign (of_nat bits)"
    using k small frac by (simp_all add: dbl_exponent_def dbl_fraction_def dbl_sign_def unat)
  then have "dbl_decode (of_nat bits) = Finite False (n * 2 ^ (52 - k)) (2 ^ (52 - k))"
    using q k by (auto simp: dbl_decode_def Let_def q_def)
  then show ?thesis unfolding pattern n_def [symmetric] by (intro exI [of _ "2 ^ (52 - k)"]) simp
qed

lemma print_small_count:
  assumes "unat w < 1000000"
  shows "print_double (u64_to_double w) = dec_nat (unat w)"
proof (cases "unat w = 0")
  case True
  then show ?thesis
    by (simp add: u64_to_double_def round_dbl_def print_double_def dbl_decode_def dbl_exponent_def
        dbl_fraction_def dbl_sign_def Let_def print_g_def dec_nat.simps [of 0] digit_char_def char_of_def bit_0)
next
  case False
  then obtain d where "0 < d" "dbl_decode (u64_to_double w) = Finite False (unat w * d) d"
    using u64_to_double_exact [of w] assms by auto
  then show ?thesis using assms False by (simp add: print_double_def print_g_small)
qed

end
