(* ===== verification/Dbl_Arith.thy ===== *)
theory Dbl_Arith
  imports Dbl
begin

text \<open>
  Arithmetic and comparison of \<open>double\<close> values as IEEE 754 prescribes them: the exact result
  rounded to nearest, ties to even. The invalid operations give the default NaN of x86-64
  and a NaN operand is handed on, quieted.
\<close>

definition default_nan :: double where "default_nan = 0xFFF8000000000000"
definition dbl_quiet :: "double \<Rightarrow> double" where "dbl_quiet b = or b 0x0008000000000000"

definition dbl_inf :: "bool \<Rightarrow> double" where
  "dbl_inf s = (if s then 0xFFF0000000000000 else 0x7FF0000000000000)"

definition dbl_zero :: "bool \<Rightarrow> double" where
  "dbl_zero s = (if s then 0x8000000000000000 else 0)"

definition dbl_pack :: "bool \<Rightarrow> nat \<Rightarrow> nat \<Rightarrow> double" where
  "dbl_pack s n d =
     (case round_dbl n d of
        None \<Rightarrow> dbl_inf s
      | Some b \<Rightarrow> if s then b + 0x8000000000000000 else b)"

text \<open>A literal of the source, the fraction \<open>n / d\<close>.\<close>

definition dlit :: "nat \<Rightarrow> nat \<Rightarrow> double" where
  "dlit n d = dbl_pack False n d"

definition with_sign :: "bool \<Rightarrow> nat \<Rightarrow> int" where
  "with_sign s n = (if s then - int n else int n)"

definition dbl_neg :: "double \<Rightarrow> double" where
  "dbl_neg b = b + 0x8000000000000000"

definition dbl_abs :: "double \<Rightarrow> double" where
  "dbl_abs b = (if dbl_sign b then dbl_neg b else b)"

definition dbl_add :: "double \<Rightarrow> double \<Rightarrow> double" where
  "dbl_add a b =
     (case (dbl_decode a, dbl_decode b) of
        (Nan _, _) \<Rightarrow> dbl_quiet a
      | (_, Nan _) \<Rightarrow> dbl_quiet b
      | (Infinite s, Infinite t) \<Rightarrow> if s = t then a else default_nan
      | (Infinite s, Finite _ _ _) \<Rightarrow> a
      | (Finite _ _ _, Infinite t) \<Rightarrow> b
      | (Finite s n d, Finite t m e) \<Rightarrow>
          let v = with_sign s n * int e + with_sign t m * int d in
          if v = 0 then dbl_zero (s \<and> t) else dbl_pack (v < 0) (nat \<bar>v\<bar>) (d * e))"

definition dbl_sub :: "double \<Rightarrow> double \<Rightarrow> double" where
  "dbl_sub a b =
     (case (dbl_decode a, dbl_decode b) of
        (Nan _, _) \<Rightarrow> dbl_quiet a
      | (_, Nan _) \<Rightarrow> dbl_quiet b
      | _ \<Rightarrow> dbl_add a (dbl_neg b))"

definition dbl_mul :: "double \<Rightarrow> double \<Rightarrow> double" where
  "dbl_mul a b =
     (case (dbl_decode a, dbl_decode b) of
        (Nan _, _) \<Rightarrow> dbl_quiet a
      | (_, Nan _) \<Rightarrow> dbl_quiet b
      | (Infinite s, Infinite t) \<Rightarrow> dbl_inf (s \<noteq> t)
      | (Infinite s, Finite t m _) \<Rightarrow> if m = 0 then default_nan else dbl_inf (s \<noteq> t)
      | (Finite s n _, Infinite t) \<Rightarrow> if n = 0 then default_nan else dbl_inf (s \<noteq> t)
      | (Finite s n d, Finite t m e) \<Rightarrow>
          if n * m = 0 then dbl_zero (s \<noteq> t) else dbl_pack (s \<noteq> t) (n * m) (d * e))"

definition dbl_div :: "double \<Rightarrow> double \<Rightarrow> double" where
  "dbl_div a b =
     (case (dbl_decode a, dbl_decode b) of
        (Nan _, _) \<Rightarrow> dbl_quiet a
      | (_, Nan _) \<Rightarrow> dbl_quiet b
      | (Infinite s, Infinite t) \<Rightarrow> default_nan
      | (Infinite s, Finite t _ _) \<Rightarrow> dbl_inf (s \<noteq> t)
      | (Finite s _ _, Infinite t) \<Rightarrow> dbl_zero (s \<noteq> t)
      | (Finite s n d, Finite t m e) \<Rightarrow>
          if m = 0 then (if n = 0 then default_nan else dbl_inf (s \<noteq> t))
          else if n = 0 then dbl_zero (s \<noteq> t) else dbl_pack (s \<noteq> t) (n * e) (d * m))"

text \<open>\<open>std::fmod\<close>: exact, with the sign of the first operand.\<close>

definition dbl_fmod :: "double \<Rightarrow> double \<Rightarrow> double" where
  "dbl_fmod a b =
     (case (dbl_decode a, dbl_decode b) of
        (Nan _, _) \<Rightarrow> dbl_quiet a
      | (_, Nan _) \<Rightarrow> dbl_quiet b
      | (Infinite s, _) \<Rightarrow> default_nan
      | (Finite s n d, Infinite t) \<Rightarrow> a
      | (Finite s n d, Finite t m e) \<Rightarrow>
          if m = 0 then default_nan
          else let r = (n * e) mod (m * d) in
            if r = 0 then dbl_zero s else dbl_pack s r (d * e))"

definition dbl_less :: "double \<Rightarrow> double \<Rightarrow> bool" where
  "dbl_less a b =
     (case (dbl_decode a, dbl_decode b) of
        (Nan _, _) \<Rightarrow> False
      | (_, Nan _) \<Rightarrow> False
      | (Infinite s, Infinite t) \<Rightarrow> s \<and> \<not> t
      | (Infinite s, Finite _ _ _) \<Rightarrow> s
      | (Finite _ _ _, Infinite t) \<Rightarrow> \<not> t
      | (Finite s n d, Finite t m e) \<Rightarrow> with_sign s n * int e < with_sign t m * int d)"

definition dbl_is_nan :: "double \<Rightarrow> bool" where
  "dbl_is_nan b = (case dbl_decode b of Nan _ \<Rightarrow> True | _ \<Rightarrow> False)"

definition dbl_le :: "double \<Rightarrow> double \<Rightarrow> bool" where
  "dbl_le a b \<longleftrightarrow> \<not> dbl_is_nan a \<and> \<not> dbl_is_nan b \<and> \<not> dbl_less b a"

text \<open>\<open>qMin\<close>, \<open>qMax\<close> and \<open>qFuzzyCompare\<close> of Qt's global header.\<close>

definition qMin :: "double \<Rightarrow> double \<Rightarrow> double" where
  "qMin a b = (if dbl_less a b then a else b)"

definition qMax :: "double \<Rightarrow> double \<Rightarrow> double" where
  "qMax a b = (if dbl_less a b then b else a)"

definition qFuzzyCompare :: "double \<Rightarrow> double \<Rightarrow> bool" where
  "qFuzzyCompare p1 p2 =
     dbl_le (dbl_mul (dbl_abs (dbl_sub p1 p2)) (dlit 1000000000000 1)) (qMin (dbl_abs p1) (dbl_abs p2))"

section \<open>Order\<close>

lemma dbl_less_irrefl [simp]: "\<not> dbl_less a a"
  by (auto simp: dbl_less_def split: dbl_value.splits)

lemma dbl_less_asym: "dbl_less a b \<Longrightarrow> \<not> dbl_less b a"
  by (auto simp: dbl_less_def split: dbl_value.splits)

lemma dbl_decode_pos: "dbl_decode b = Finite s n d \<Longrightarrow> 0 < d"
  by (auto simp: dbl_decode_def Let_def split: if_splits)

lemma dbl_less_trans: "dbl_less a b \<Longrightarrow> dbl_less b c \<Longrightarrow> dbl_less a c"
proof -
  assume ab: "dbl_less a b" and bc: "dbl_less b c"
  show "dbl_less a c"
  proof (cases "dbl_decode b")
    case (Finite t m e)
    show ?thesis
    proof (cases "dbl_decode a"; cases "dbl_decode c")
      fix s n d u k f
      assume dec: "dbl_decode a = Finite s n d" "dbl_decode c = Finite u k f"
      have pos: "0 < int d" "0 < int e" "0 < int f"
        using dbl_decode_pos dec Finite by (auto simp: of_nat_0_less_iff)
      have "with_sign s n * int e < with_sign t m * int d" "with_sign t m * int f < with_sign u k * int e"
        using ab bc dec Finite by (simp_all add: dbl_less_def)
      then have "with_sign s n * int e * int f < with_sign t m * int d * int f"
        "with_sign t m * int f * int d < with_sign u k * int e * int d"
        using pos by (simp_all add: mult_strict_right_mono)
      then have "(with_sign s n * int f) * int e < (with_sign u k * int d) * int e"
        by (simp add: ac_simps)
      then show ?thesis using pos dec by (simp add: dbl_less_def)
    qed (use ab bc Finite in \<open>auto simp: dbl_less_def split: dbl_value.splits\<close>)
  qed (use ab bc in \<open>auto simp: dbl_less_def split: dbl_value.splits\<close>)
qed

text \<open>\<open>qMax\<close> bounds from below and \<open>qMin\<close> from above, also when an operand is NaN.\<close>

lemma qMax_ge: "\<not> dbl_less (qMax a b) a"
  by (auto simp: qMax_def dest: dbl_less_asym)

lemma qMin_le: "\<not> dbl_less a (qMin a b)"
  by (simp add: qMin_def)

end
