(* ===== verification/Dbl_Round.thy ===== *)
theory Dbl_Round
  imports Complex_Main Dbl_Arith
begin

text \<open>
  What rounding means: the real number a finite bit pattern stands for, and the proof that
  \<open>round_dbl\<close> picks a pattern nearest to the given fraction, the even one of two equally near,
  refuses exactly the fractions from the overflow threshold on, and leaves every number that
  is a pattern's value at that pattern.
\<close>

section \<open>Values of patterns\<close>

abbreviation pow2 :: "int \<Rightarrow> real" where "pow2 i \<equiv> 2 powi i"

definition dbl_finite :: "double \<Rightarrow> bool" where
  "dbl_finite b \<longleftrightarrow> dbl_exponent b \<noteq> 2047"

definition dbl_real :: "double \<Rightarrow> real" where
  "dbl_real b = (case dbl_decode b of Finite s n d \<Rightarrow> (if s then - 1 else 1) * (real n / real d) | _ \<Rightarrow> 0)"

text \<open>Significand and exponent: the value is \<open>significand * 2 ^ (scale - 1075)\<close>.\<close>

definition significand :: "double \<Rightarrow> nat" where
  "significand b = (if dbl_exponent b = 0 then dbl_fraction b else 2 ^ 52 + dbl_fraction b)"

definition scale :: "double \<Rightarrow> nat" where
  "scale b = max (dbl_exponent b) 1"

lemma significand_less: "significand b < 2 ^ 53"
proof -
  have "dbl_fraction b < 2 ^ 52" unfolding dbl_fraction_def by (rule mod_less_divisor) simp
  then show ?thesis by (simp add: significand_def)
qed

lemma pow2_pos [simp]: "0 < pow2 i"
  by simp

lemma pow2_add: "pow2 (i + j) = pow2 i * pow2 j"
  by (simp add: power_int_add)

lemma pow2_mono: "i \<le> j \<Longrightarrow> pow2 i \<le> pow2 j"
  by (rule power_int_increasing) simp_all

lemma pow2_strict: "i < j \<Longrightarrow> pow2 i < pow2 j"
  by (rule power_int_strict_increasing) simp_all

lemma pow2_52: "pow2 (i + 52) = 4503599627370496 * pow2 i"
  by (simp add: pow2_add)

lemma decode_fraction:
  assumes "dbl_finite b"
  shows "\<exists>n d. dbl_decode b = Finite (dbl_sign b) n d \<and> 0 < d \<and>
           real n / real d = real (significand b) * pow2 (int (scale b) - 1075)"
proof (cases "1075 \<le> scale b")
  case True
  then have "pow2 (int (scale b) - 1075) = 2 ^ (scale b - 1075)"
    by (simp add: power_int_nonneg_exp nat_diff_distrib)
  moreover have "dbl_decode b = Finite (dbl_sign b) (significand b * 2 ^ (scale b - 1075)) 1"
    using assms True by (simp add: dbl_decode_def Let_def dbl_finite_def significand_def scale_def)
  ultimately show ?thesis by simp
next
  case False
  then have "int (scale b) - 1075 = - int (1075 - scale b)" by simp
  then have "pow2 (int (scale b) - 1075) = 1 / 2 ^ (1075 - scale b)"
    by (simp only: power_int_minus_divide power_int_of_nat)
  moreover have "dbl_decode b = Finite (dbl_sign b) (significand b) (2 ^ (1075 - scale b))"
    using assms False by (simp add: dbl_decode_def Let_def dbl_finite_def significand_def scale_def)
  ultimately show ?thesis by simp
qed

lemma dbl_real_finite:
  "dbl_finite b \<Longrightarrow>
   dbl_real b = (if dbl_sign b then - 1 else 1) * (real (significand b) * pow2 (int (scale b) - 1075))"
  using decode_fraction [of b] by (auto simp: dbl_real_def)

lemma dbl_real_decode:
  "dbl_decode b = Finite s n d \<Longrightarrow> dbl_finite b \<and> s = dbl_sign b \<and> 0 < d \<and>
   dbl_real b = (if s then - 1 else 1) * (real n / real d)"
  by (auto simp: dbl_real_def dbl_decode_def dbl_finite_def Let_def split: if_splits)

section \<open>Dividing to nearest\<close>

lemma div_half_even_near:
  assumes "0 < d"
  shows "\<bar>real n / real d - real (div_half_even n d)\<bar> \<le> 1 / 2"
    and "\<bar>real n / real d - real (div_half_even n d)\<bar> = 1 / 2 \<Longrightarrow> even (div_half_even n d)"
proof -
  define q r where "q = n div d" and "r = n mod d"
  have r: "r < d" using assms by (simp add: r_def)
  have "real n = real d * real q + real r"
    unfolding q_def r_def by (metis mult_div_mod_eq of_nat_add of_nat_mult)
  then have frac: "real n / real d = real q + real r / real d"
    using assms by (simp add: field_simps)
  have cases: "real r / real d < 1 / 2 \<longleftrightarrow> 2 * r < d" "real r / real d = 1 / 2 \<longleftrightarrow> 2 * r = d"
    using assms by (auto simp: field_simps simp flip: of_nat_mult of_nat_add)
  have dhe: "div_half_even n d = (if 2 * r < d \<or> 2 * r = d \<and> even q then q else q + 1)"
    by (simp add: div_half_even_def q_def r_def Let_def)
  have unit: "real r / real d < 1" "0 \<le> real r / real d" using r by simp_all
  show "\<bar>real n / real d - real (div_half_even n d)\<bar> \<le> 1 / 2"
    unfolding frac dhe using cases unit by auto
  show "\<bar>real n / real d - real (div_half_even n d)\<bar> = 1 / 2 \<Longrightarrow> even (div_half_even n d)"
    unfolding frac dhe using cases unit by (auto split: if_splits)
qed

lemma div_half_even_nearest:
  assumes "0 < d"
  shows "\<bar>real n / real d - real (div_half_even n d)\<bar> \<le> \<bar>real n / real d - of_int z\<bar>"
proof (cases "z = int (div_half_even n d)")
  case False
  then have "1 \<le> \<bar>z - int (div_half_even n d)\<bar>" by linarith
  then have "of_int 1 \<le> (of_int \<bar>z - int (div_half_even n d)\<bar> :: real)" by (simp only: of_int_le_iff)
  then have "1 \<le> \<bar>of_int z - real (div_half_even n d)\<bar>" by simp
  then show ?thesis using div_half_even_near(1) [OF assms, of n] by linarith
qed simp

section \<open>Logarithms\<close>

lemma floor_log_frac_bounds:
  assumes "0 < n" and "0 < d"
  shows "pow2 (floor_log_frac 2 n d) \<le> real n / real d"
    and "real n / real d < pow2 (floor_log_frac 2 n d + 1)"
proof -
  have "pow2 (floor_log_frac 2 n d) \<le> real n / real d \<and> real n / real d < pow2 (floor_log_frac 2 n d + 1)"
  proof (cases "d \<le> n")
    case True
    define k where "k = floor_log_nat 2 (n div d)"
    have "0 < n div d" using True assms by (simp add: div_greater_zero_iff)
    then have "2 ^ k \<le> n div d" "n div d < 2 * 2 ^ k"
      using floor_log_nat_bounds [of 2 "n div d"] by (simp_all add: k_def)
    then have "2 ^ k * d \<le> n" "n < 2 * 2 ^ k * d"
      using assms by (simp_all add: less_eq_div_iff_mult_less_eq div_less_iff_less_mult)
    then have "real (2 ^ k * d) \<le> real n" "real n < real (2 * 2 ^ k * d)" by (simp_all only: of_nat_le_iff of_nat_less_iff)
    then have "2 ^ k \<le> real n / real d" "real n / real d < 2 * 2 ^ k"
      using assms by (simp_all add: field_simps)
    moreover have "floor_log_frac 2 n d = int k" using True by (simp add: floor_log_frac_def k_def)
    ultimately show ?thesis by (simp add: pow2_add)
  next
    case False
    define k where "k = floor_log_nat 2 ((d - 1) div n)"
    have "0 < (d - 1) div n" using False assms by (simp add: div_greater_zero_iff)
    then have "2 ^ k \<le> (d - 1) div n" "(d - 1) div n < 2 * 2 ^ k"
      using floor_log_nat_bounds [of 2 "(d - 1) div n"] by (simp_all add: k_def)
    then have "2 ^ k * n < d" "d \<le> 2 * 2 ^ k * n"
      using assms by (auto simp add: less_eq_div_iff_mult_less_eq div_less_iff_less_mult)
    then have "real (2 ^ k * n) < real d" "real d \<le> real (2 * 2 ^ k * n)" by (simp_all only: of_nat_le_iff of_nat_less_iff)
    then have "1 / 2 ^ Suc k \<le> real n / real d" "real n / real d < 1 / 2 ^ k"
      using assms by (simp_all add: field_simps)
    moreover have "floor_log_frac 2 n d = - int (Suc k)" using False by (simp add: floor_log_frac_def k_def)
    moreover have "pow2 (- int (Suc k)) = 1 / 2 ^ Suc k"
      by (simp only: power_int_minus_divide power_int_of_nat)
    moreover have "pow2 (- int (Suc k) + 1) = 1 / 2 ^ k"
      by (simp add: power_int_minus_divide)
    ultimately show ?thesis by (simp only:)
  qed
  then show "pow2 (floor_log_frac 2 n d) \<le> real n / real d"
    and "real n / real d < pow2 (floor_log_frac 2 n d + 1)" by simp_all
qed


section \<open>The pattern chosen\<close>

definition round_exp :: "nat \<Rightarrow> nat \<Rightarrow> int" where
  "round_exp n d = max (floor_log_frac 2 n d) (- 1022)"

definition round_sig :: "nat \<Rightarrow> nat \<Rightarrow> nat" where
  "round_sig n d =
     (if 52 \<le> round_exp n d then div_half_even n (d * 2 ^ nat (round_exp n d - 52))
      else div_half_even (n * 2 ^ nat (52 - round_exp n d)) d)"

definition round_bits :: "nat \<Rightarrow> nat \<Rightarrow> nat" where
  "round_bits n d = nat (round_exp n d + 1022) * 2 ^ 52 + round_sig n d"

lemma round_dbl_eq:
  "round_dbl n d =
     (if n = 0 then Some 0 else if 2047 * 2 ^ 52 \<le> round_bits n d then None else Some (of_nat (round_bits n d)))"
  by (simp only: round_dbl_def round_bits_def round_sig_def round_exp_def Let_def)

text \<open>\<open>round_sig\<close> is the fraction in units of the last place, divided to nearest even.\<close>

lemma round_sig_unit:
  assumes "0 < d"
  shows "\<exists>n' d'. 0 < d' \<and> round_sig n d = div_half_even n' d' \<and>
           real n' / real d' * pow2 (round_exp n d - 52) = real n / real d"
proof (cases "52 \<le> round_exp n d")
  case True
  then have "pow2 (round_exp n d - 52) = 2 ^ nat (round_exp n d - 52)"
    by (simp add: power_int_nonneg_exp)
  with True assms show ?thesis
    by (intro exI [of _ n] exI [of _ "d * 2 ^ nat (round_exp n d - 52)"]) (simp add: round_sig_def)
next
  case False
  then have "pow2 (round_exp n d - 52) = 1 / 2 ^ nat (52 - round_exp n d)"
    using power_int_minus_divide [of "2 :: real" "52 - round_exp n d"] by (simp add: power_int_nonneg_exp)
  with False assms show ?thesis
    by (intro exI [of _ "n * 2 ^ nat (52 - round_exp n d)"] exI [of _ d]) (simp add: round_sig_def)
qed

lemma round_sig_near:
  fixes n d :: nat
  assumes "0 < d"
  defines "x \<equiv> real n / real d" and "u \<equiv> pow2 (round_exp n d - 52)"
  shows "\<bar>x - real (round_sig n d) * u\<bar> \<le> u / 2"
    and "\<bar>x - real (round_sig n d) * u\<bar> = u / 2 \<Longrightarrow> even (round_sig n d)"
    and "\<bar>x - real (round_sig n d) * u\<bar> \<le> \<bar>x - of_int z * u\<bar>"
proof -
  obtain n' d' where nd: "0 < d'" "round_sig n d = div_half_even n' d'" "real n' / real d' * u = x"
    using round_sig_unit [OF assms(1), of n] by (auto simp: x_def u_def)
  have u: "0 < u" by (simp add: u_def)
  have dist: "\<bar>x - y * u\<bar> = \<bar>real n' / real d' - y\<bar> * u" for y
  proof -
    have "x - y * u = (real n' / real d' - y) * u" by (simp only: nd(3) left_diff_distrib)
    then show ?thesis using u by (simp only: abs_mult abs_of_pos)
  qed
  show "\<bar>x - real (round_sig n d) * u\<bar> \<le> u / 2"
    unfolding dist nd(2) using mult_right_mono [OF div_half_even_near(1) [OF nd(1), of n'], of u] u by simp
  show "\<bar>x - real (round_sig n d) * u\<bar> = u / 2 \<Longrightarrow> even (round_sig n d)"
    unfolding dist nd(2) using div_half_even_near(2) [OF nd(1), of n'] u by simp
  show "\<bar>x - real (round_sig n d) * u\<bar> \<le> \<bar>x - of_int z * u\<bar>"
    unfolding dist nd(2) using div_half_even_nearest [OF nd(1), of n' z] u by simp
qed

lemma round_sig_bounds:
  assumes "0 < n" and "0 < d"
  shows "round_sig n d \<le> 2 ^ 53" and "- 1022 < round_exp n d \<Longrightarrow> 2 ^ 52 \<le> round_sig n d"
proof -
  define u where "u = pow2 (round_exp n d - 52)"
  have u: "0 < u" by (simp add: u_def)
  have units: "pow2 (round_exp n d) = 4503599627370496 * u"
    using pow2_52 [of "round_exp n d - 52"] by (simp add: u_def)
  have near: "\<bar>real n / real d - real (round_sig n d) * u\<bar> \<le> u / 2"
    using round_sig_near(1) [OF assms(2), of n] by (simp add: u_def)
  have "real n / real d < pow2 (round_exp n d + 1)"
    using floor_log_frac_bounds(2) [OF assms] pow2_mono [of "floor_log_frac 2 n d + 1" "round_exp n d + 1"]
    by (simp add: round_exp_def)
  then have "real n / real d < 9007199254740992 * u" using units by (simp add: pow2_add)
  then have "real (round_sig n d) * u < (9007199254740992 + 1) * u"
    using near u unfolding distrib_right by linarith
  then have "real (round_sig n d) < real (9007199254740992 + 1)" using u by simp
  then show "round_sig n d \<le> 2 ^ 53" unfolding of_nat_less_iff by simp
  assume "- 1022 < round_exp n d"
  then have "round_exp n d = floor_log_frac 2 n d" by (simp add: round_exp_def)
  then have "4503599627370496 * u \<le> real n / real d"
    using floor_log_frac_bounds(1) [OF assms] units by simp
  then have "(4503599627370496 - 1) * u < real (round_sig n d) * u"
    using near u unfolding left_diff_distrib by linarith
  then have "real (4503599627370496 - 1) < real (round_sig n d)" using u by simp
  then show "2 ^ 52 \<le> round_sig n d" unfolding of_nat_less_iff by simp
qed

lemma pattern_fields:
  assumes "x < 2047" and "f < 2 ^ 52"
  shows "dbl_exponent (of_nat (x * 2 ^ 52 + f)) = x" "dbl_fraction (of_nat (x * 2 ^ 52 + f)) = f"
    "\<not> dbl_sign (of_nat (x * 2 ^ 52 + f))" "unat (of_nat (x * 2 ^ 52 + f) :: double) = x * 2 ^ 52 + f"
proof -
  have unat_small: "unat (of_nat m :: double) = m" if "m < 2 ^ 63" for m
    using that by (simp add: unat_of_nat)
  have small: "x * 2 ^ 52 + f < 2 ^ 63" using assms by simp
  then show unat: "unat (of_nat (x * 2 ^ 52 + f) :: double) = x * 2 ^ 52 + f"
    by (rule unat_small)
  have "(x * 2 ^ 52 + f) div 2 ^ 52 = x" "(x * 2 ^ 52 + f) mod 2 ^ 52 = f"
    using assms(2) by (simp_all add: div_mult_self3 del: power_numeral)
  then show "dbl_exponent (of_nat (x * 2 ^ 52 + f)) = x" "dbl_fraction (of_nat (x * 2 ^ 52 + f)) = f"
    "\<not> dbl_sign (of_nat (x * 2 ^ 52 + f))"
    using assms(1) small unfolding dbl_exponent_def dbl_fraction_def dbl_sign_def unat by simp_all
qed

lemma pattern_value:
  assumes "x < 2047" and "f < 2 ^ 52"
  shows "dbl_finite (of_nat (x * 2 ^ 52 + f))"
    and "dbl_real (of_nat (x * 2 ^ 52 + f)) =
         (if x = 0 then real f else 4503599627370496 + real f) * pow2 (int (max x 1) - 1075)"
proof -
  show fin: "dbl_finite (of_nat (x * 2 ^ 52 + f))"
    using assms(1) by (simp only: dbl_finite_def pattern_fields [OF assms])
  show "dbl_real (of_nat (x * 2 ^ 52 + f)) =
         (if x = 0 then real f else 4503599627370496 + real f) * pow2 (int (max x 1) - 1075)"
    unfolding dbl_real_finite [OF fin] significand_def scale_def pattern_fields [OF assms]
    using pattern_fields(3) [OF assms] by simp
qed

lemma round_bits_value:
  assumes "0 < n" and "0 < d" and "round_bits n d < 2047 * 2 ^ 52"
  shows "dbl_finite (of_nat (round_bits n d))" "\<not> dbl_sign (of_nat (round_bits n d))"
    "dbl_real (of_nat (round_bits n d)) = real (round_sig n d) * pow2 (round_exp n d - 52)"
    "unat (of_nat (round_bits n d) :: double) = round_bits n d"
proof -
  define k where "k = nat (round_exp n d + 1022)"
  define q where "q = round_sig n d"
  have low: "- 1022 \<le> round_exp n d" by (simp add: round_exp_def)
  have k: "int k = round_exp n d + 1022" using low by (simp add: k_def)
  have bits: "round_bits n d = k * 2 ^ 52 + q" by (simp add: round_bits_def k_def q_def)
  have q: "q \<le> 2 ^ 53" "0 < k \<Longrightarrow> 2 ^ 52 \<le> q"
    using round_sig_bounds [OF assms(1,2)] k by (simp_all add: q_def)
  have small_k: "q < 2 ^ 52 \<Longrightarrow> k = 0" using q(2) by (meson gr0I leD)
  define x f where "x = (if q < 2 ^ 52 then 0 else if q < 2 ^ 53 then k + 1 else k + 2)"
    and "f = (if q < 2 ^ 52 then q else if q < 2 ^ 53 then q - 2 ^ 52 else 0)"
  have eq: "round_bits n d = x * 2 ^ 52 + f" using q(1) small_k by (auto simp: bits x_def f_def)
  have "x < 2047" using assms(3) unfolding eq by simp
  moreover have "f < 2 ^ 52" by (auto simp: f_def)
  ultimately have xf: "x < 2047" "f < 2 ^ 52" .
  show "dbl_finite (of_nat (round_bits n d))" "\<not> dbl_sign (of_nat (round_bits n d))"
    "unat (of_nat (round_bits n d) :: double) = round_bits n d"
    unfolding eq by (rule pattern_value(1) [OF xf], rule pattern_fields(3) [OF xf], rule pattern_fields(4) [OF xf])
  have value_eq: "dbl_real (of_nat (round_bits n d)) =
      (if x = 0 then real f else 4503599627370496 + real f) * pow2 (int (max x 1) - 1075)"
    using pattern_value(2) [OF xf] by (simp only: eq)
  consider "q < 2 ^ 52" "k = 0" | "2 ^ 52 \<le> q" "q < 2 ^ 53" | "q = 2 ^ 53"
    using q(1) small_k by force
  then show "dbl_real (of_nat (round_bits n d)) = real (round_sig n d) * pow2 (round_exp n d - 52)"
  proof cases
    case 1
    then have "round_exp n d = - 1022" using k by simp
    with 1 show ?thesis unfolding value_eq by (simp add: x_def f_def q_def [symmetric])
  next
    case 2
    then have "int (max x 1) - 1075 = round_exp n d - 52" using k by (simp add: x_def)
    with 2 show ?thesis unfolding value_eq by (simp add: x_def f_def q_def [symmetric] of_nat_diff)
  next
    case 3
    then have scaled: "int (max x 1) - 1075 = (round_exp n d - 52) + 1" using k by (simp add: x_def)
    have "pow2 (int (max x 1) - 1075) = 2 * pow2 (round_exp n d - 52)"
      unfolding scaled pow2_add by simp
    with 3 show ?thesis unfolding value_eq by (simp add: x_def f_def q_def [symmetric])
  qed
qed


section \<open>Nearest\<close>

text \<open>
  \<open>b\<close> is the pattern nearest to \<open>x\<close>: no finite pattern is nearer, and when another value is as
  near as \<open>b\<close>'s, the last bit of \<open>b\<close> is zero.
\<close>

definition dbl_nearest :: "double \<Rightarrow> real \<Rightarrow> bool" where
  "dbl_nearest b x \<longleftrightarrow>
     dbl_finite b \<and>
     (\<forall>c. dbl_finite c \<longrightarrow> \<bar>dbl_real b - x\<bar> \<le> \<bar>dbl_real c - x\<bar>) \<and>
     (\<forall>c. dbl_finite c \<and> \<bar>dbl_real c - x\<bar> = \<bar>dbl_real b - x\<bar> \<and> dbl_real c \<noteq> dbl_real b \<longrightarrow> even (unat b))"

text \<open>
  Every finite value is a multiple of the unit of the last place chosen for \<open>n / d\<close>, or lies
  below the power of two that is itself such a multiple and not above \<open>n / d\<close>.
\<close>

lemma pow2_multiple: "0 \<le> i \<Longrightarrow> pow2 (j + i) = of_int (2 ^ nat i) * pow2 j"
  by (simp add: pow2_add power_int_nonneg_exp)

lemma finite_value_cases:
  assumes "dbl_finite c" and "0 < n" and "0 < d"
  obtains (multiple) z where "dbl_real c = of_int z * pow2 (round_exp n d - 52)"
    | (below) "dbl_real c < pow2 (round_exp n d)" "pow2 (round_exp n d) \<le> real n / real d"
proof (cases "round_exp n d - 52 \<le> int (scale c) - 1075")
  case True
  define i where "i = int (scale c) - 1075 - (round_exp n d - 52)"
  have "pow2 (int (scale c) - 1075) = of_int (2 ^ nat i) * pow2 (round_exp n d - 52)"
    using pow2_multiple [of i "round_exp n d - 52"] True by (simp add: i_def)
  then have "dbl_real c =
      of_int ((if dbl_sign c then - 1 else 1) * int (significand c) * 2 ^ nat i) * pow2 (round_exp n d - 52)"
    using dbl_real_finite [OF assms(1)] by simp
  then show ?thesis by (rule multiple)
next
  case False
  then have above: "pow2 (int (scale c) - 1075) \<le> pow2 (round_exp n d - 53)"
    by (intro pow2_mono) simp
  have "1 \<le> scale c" by (simp add: scale_def)
  then have "round_exp n d = floor_log_frac 2 n d" using False by (simp add: round_exp_def)
  then have low: "pow2 (round_exp n d) \<le> real n / real d"
    using floor_log_frac_bounds(1) [OF assms(2,3)] by simp
  have "real (significand c) * pow2 (int (scale c) - 1075) < 9007199254740992 * pow2 (round_exp n d - 53)"
  proof -
    have "real (significand c) < 9007199254740992"
      using significand_less [of c] by (simp add: of_nat_less_numeral_iff)
    then have "real (significand c) * pow2 (int (scale c) - 1075) < 9007199254740992 * pow2 (int (scale c) - 1075)"
      by simp
    then show ?thesis using above by linarith
  qed
  also have "\<dots> = pow2 (round_exp n d)" using pow2_add [of 53 "round_exp n d - 53"] by simp
  finally have upper: "real (significand c) * pow2 (int (scale c) - 1075) < pow2 (round_exp n d)" .
  have "0 \<le> real (significand c) * pow2 (int (scale c) - 1075)" by simp
  moreover have "\<bar>dbl_real c\<bar> = real (significand c) * pow2 (int (scale c) - 1075)"
    unfolding dbl_real_finite [OF assms(1)] abs_mult by simp
  ultimately have "dbl_real c < pow2 (round_exp n d)"
    using upper by linarith
  then show ?thesis using low by (rule below)
qed

lemma pow2_exp_multiple: "pow2 e = of_int (2 ^ 52) * pow2 (e - 52)"
  using pow2_multiple [of 52 "e - 52"] by simp

lemma round_bits_even: "even (round_bits n d) \<longleftrightarrow> even (round_sig n d)"
  by (simp add: round_bits_def)

theorem round_dbl_nearest:
  assumes "round_dbl n d = Some b" and "0 < d"
  shows "dbl_nearest b (real n / real d)"
proof (cases "n = 0")
  case True
  have "dbl_finite 0" "dbl_real 0 = 0"
    by (simp_all add: dbl_finite_def dbl_real_def dbl_decode_def dbl_exponent_def dbl_fraction_def Let_def)
  moreover have "b = 0" using assms True by (simp add: round_dbl_eq)
  ultimately show ?thesis using True by (simp add: dbl_nearest_def)
next
  case False
  then have n: "0 < n" by simp
  have small: "round_bits n d < 2047 * 2 ^ 52" and b: "b = of_nat (round_bits n d)"
    using assms False by (auto simp: round_dbl_eq split: if_splits)
  define x u where "x = real n / real d" and "u = pow2 (round_exp n d - 52)"
  have fin: "dbl_finite b" and val: "dbl_real b = real (round_sig n d) * u" and ev: "even (unat b) = even (round_sig n d)"
    using round_bits_value [OF n assms(2) small] by (simp_all add: b u_def round_bits_even)
  have u: "0 < u" by (simp add: u_def)
  have near: "\<bar>dbl_real b - x\<bar> \<le> \<bar>of_int z * u - x\<bar>" for z
    using round_sig_near(3) [OF assms(2), of n z] by (simp add: val x_def u_def abs_minus_commute)
  have tie: "even (unat b)" if "\<bar>of_int z * u - x\<bar> = \<bar>dbl_real b - x\<bar>" "of_int z * u \<noteq> dbl_real b" for z
  proof -
    have "z \<noteq> int (round_sig n d)" using that(2) by (auto simp: val)
    then have "1 \<le> \<bar>z - int (round_sig n d)\<bar>" by linarith
    then have "of_int 1 \<le> (of_int \<bar>z - int (round_sig n d)\<bar> :: real)" by (simp only: of_int_le_iff)
    then have "1 * u \<le> \<bar>of_int z - real (round_sig n d)\<bar> * u" using u by (intro mult_right_mono) simp_all
    also have "\<dots> = \<bar>of_int z * u - dbl_real b\<bar>"
      using u by (simp only: val left_diff_distrib [symmetric] abs_mult abs_of_pos)
    finally have "u / 2 \<le> \<bar>dbl_real b - x\<bar>" using that(1) by linarith
    moreover have "\<bar>dbl_real b - x\<bar> \<le> u / 2"
      using round_sig_near(1) [OF assms(2), of n] by (simp add: val x_def u_def abs_minus_commute)
    ultimately have "\<bar>x - real (round_sig n d) * u\<bar> = u / 2" by (simp add: val abs_minus_commute)
    then show ?thesis using round_sig_near(2) [OF assms(2), of n] by (simp add: ev x_def u_def)
  qed
  have "\<bar>dbl_real b - x\<bar> \<le> \<bar>dbl_real c - x\<bar> \<and>
      (\<bar>dbl_real c - x\<bar> = \<bar>dbl_real b - x\<bar> \<and> dbl_real c \<noteq> dbl_real b \<longrightarrow> even (unat b))" if "dbl_finite c" for c
  proof (rule finite_value_cases [OF that n assms(2)])
    fix z assume "dbl_real c = of_int z * pow2 (round_exp n d - 52)"
    then show ?thesis using near [of z] tie [of z] by (simp add: u_def)
  next
    assume "dbl_real c < pow2 (round_exp n d)" "pow2 (round_exp n d) \<le> real n / real d"
    moreover from this have "\<bar>dbl_real b - x\<bar> \<le> x - pow2 (round_exp n d)"
      using near [of "2 ^ 52"] pow2_exp_multiple [of "round_exp n d"] by (simp add: x_def u_def)
    ultimately have "\<bar>dbl_real b - x\<bar> < \<bar>dbl_real c - x\<bar>" by (simp add: x_def)
    then show ?thesis by simp
  qed
  then show ?thesis using fin unfolding dbl_nearest_def x_def by blast
qed

lemma round_dbl_sign: "round_dbl n d = Some b \<Longrightarrow> 0 < d \<Longrightarrow> \<not> dbl_sign b"
  using round_bits_value(2) [of n d]
  by (cases "n = 0") (auto simp: round_dbl_eq dbl_sign_def split: if_splits)

section \<open>Overflow\<close>

text \<open>The threshold: the largest finite value and half a unit of its last place.\<close>

definition overflow_threshold :: real where
  "overflow_threshold = 18014398509481983 * pow2 970"

lemma round_bits_overflow_exp:
  assumes "0 < n" and "0 < d"
  shows "2047 * 2 ^ 52 \<le> round_bits n d \<longleftrightarrow>
         1024 \<le> round_exp n d \<or> round_exp n d = 1023 \<and> round_sig n d = 2 ^ 53"
proof -
  define k where "k = nat (round_exp n d + 1022)"
  have low: "- 1022 \<le> round_exp n d" by (simp add: round_exp_def)
  have k: "int k = round_exp n d + 1022" using low by (simp add: k_def)
  have q: "round_sig n d \<le> 2 ^ 53" "0 < k \<Longrightarrow> 2 ^ 52 \<le> round_sig n d"
    using round_sig_bounds [OF assms] k by simp_all
  have bits: "round_bits n d = k * 2 ^ 52 + round_sig n d" by (simp add: round_bits_def k_def)
  have "1024 \<le> round_exp n d \<longleftrightarrow> 2046 \<le> k" "round_exp n d = 1023 \<longleftrightarrow> k = 2045" using k by linarith+
  then have exps: "1024 \<le> round_exp n d \<longleftrightarrow> 2046 \<le> k" "round_exp n d = 1023 \<longleftrightarrow> k = 2045" .
  consider "2046 \<le> k" | "k = 2045" | "k \<le> 2044" by linarith
  then show ?thesis unfolding exps bits by cases (use q in simp_all)
qed

theorem round_dbl_overflow:
  assumes "0 < d"
  shows "round_dbl n d = None \<longleftrightarrow> overflow_threshold \<le> real n / real d"
proof (cases "n = 0")
  case True
  then show ?thesis using pow2_pos [of 970] by (simp add: round_dbl_eq overflow_threshold_def)
next
  case False
  then have n: "0 < n" by simp
  define x where "x = real n / real d"
  define w where "w = pow2 970"
  have w: "0 < w" by (simp add: w_def)
  have p: "pow2 1023 = 9007199254740992 * w" "pow2 1024 = 18014398509481984 * w" "pow2 971 = 2 * w"
    using pow2_add [of 53 970] pow2_add [of 54 970] pow2_add [of 1 970] by (simp_all add: w_def)
  have x: "pow2 (floor_log_frac 2 n d) \<le> x" "x < pow2 (floor_log_frac 2 n d + 1)"
    using floor_log_frac_bounds [OF n assms] by (simp_all add: x_def)
  have thr: "overflow_threshold = 18014398509481983 * w" by (simp add: overflow_threshold_def w_def)
  consider "1024 \<le> floor_log_frac 2 n d" | "floor_log_frac 2 n d = 1023" | "floor_log_frac 2 n d \<le> 1022" by linarith
  then have "1024 \<le> round_exp n d \<or> round_exp n d = 1023 \<and> round_sig n d = 2 ^ 53 \<longleftrightarrow> overflow_threshold \<le> x"
  proof cases
    case 1
    then have "pow2 1024 \<le> x" using x(1) pow2_mono order_trans by blast
    then have "overflow_threshold \<le> x" using p w thr by simp
    then show ?thesis using 1 by (simp add: round_exp_def)
  next
    case 2
    then have e: "round_exp n d = 1023" by (simp add: round_exp_def)
    have near: "\<bar>x - real (round_sig n d) * (2 * w)\<bar> \<le> w"
      "\<bar>x - real (round_sig n d) * (2 * w)\<bar> = w \<Longrightarrow> even (round_sig n d)"
      using round_sig_near(1,2) [OF assms, of n] p(3) by (simp_all add: e x_def)
    have "round_sig n d = 2 ^ 53 \<longleftrightarrow> overflow_threshold \<le> x"
    proof
      assume "round_sig n d = 2 ^ 53"
      then have "\<bar>x - 9007199254740992 * (2 * w)\<bar> \<le> w" using near(1) by simp
      then show "overflow_threshold \<le> x" unfolding thr by linarith
    next
      assume le: "overflow_threshold \<le> x"
      show "round_sig n d = 2 ^ 53"
      proof (rule ccontr)
        assume "round_sig n d \<noteq> 2 ^ 53"
        then have "round_sig n d \<le> 9007199254740991" using round_sig_bounds(1) [OF n assms] by simp
        then have "real (round_sig n d) * (2 * w) \<le> 9007199254740991 * (2 * w)"
          using w by (intro mult_right_mono) simp_all
        then have eq: "real (round_sig n d) * (2 * w) = 9007199254740991 * (2 * w)" "\<bar>x - real (round_sig n d) * (2 * w)\<bar> = w"
          using near(1) le unfolding thr by linarith+
        then have "real (round_sig n d) = 9007199254740991" using w by simp
        then have "round_sig n d = 9007199254740991" by (metis of_nat_eq_iff of_nat_numeral)
        then show False using near(2) [OF eq(2)] by simp
      qed
    qed
    then show ?thesis by (simp add: e)
  next
    case 3
    then have "x < pow2 1023" using x(2) pow2_mono [of "floor_log_frac 2 n d + 1" 1023] by simp
    then have "\<not> overflow_threshold \<le> x" using p w thr by simp
    moreover have "round_exp n d \<le> 1022" using 3 by (simp add: round_exp_def)
    ultimately show ?thesis by simp
  qed
  then show ?thesis
    using round_bits_overflow_exp [OF n assms] n by (simp add: round_dbl_eq x_def)
qed


section \<open>One pattern per value\<close>

lemma unat_fields: "unat b = (if dbl_sign b then 2 ^ 63 else 0) + dbl_exponent b * 2 ^ 52 + dbl_fraction b"
proof -
  define q where "q = unat b div 2 ^ 52"
  have "unat b < 2 ^ 64" by (rule unat_u64_less)
  then have "q < 4096" by (simp add: q_def div_less_iff_less_mult)
  then have "q = (if 2048 \<le> q then 2048 else 0) + q mod 2048" by (cases "2048 \<le> q") (auto simp: mod_if)
  moreover have "dbl_sign b \<longleftrightarrow> 2048 \<le> q"
    by (simp add: dbl_sign_def q_def less_eq_div_iff_mult_less_eq)
  moreover have "unat b = q * 2 ^ 52 + dbl_fraction b" by (simp add: q_def dbl_fraction_def)
  moreover have "dbl_exponent b = q mod 2048" by (simp add: dbl_exponent_def q_def)
  ultimately show ?thesis by (cases "2048 \<le> q") simp_all
qed

lemma fields_determine:
  assumes "dbl_sign b = dbl_sign c" "dbl_exponent b = dbl_exponent c" "dbl_fraction b = dbl_fraction c"
  shows "b = c"
proof -
  have "unat b = unat c" unfolding unat_fields [of b] unat_fields [of c] by (simp add: assms)
  then show ?thesis by (simp add: word_unat_eq_iff)
qed

lemma magnitude_less:
  assumes "scale b < scale c"
  shows "real (significand b) * pow2 (int (scale b) - 1075) < real (significand c) * pow2 (int (scale c) - 1075)"
proof -
  have "real (significand b) < 9007199254740992"
    using significand_less [of b] by (simp add: of_nat_less_numeral_iff)
  then have "real (significand b) * pow2 (int (scale b) - 1075) < 9007199254740992 * pow2 (int (scale b) - 1075)"
    by simp
  also have "\<dots> = 4503599627370496 * pow2 (int (scale b) - 1075 + 1)" unfolding pow2_add by simp
  also have "\<dots> \<le> 4503599627370496 * pow2 (int (scale c) - 1075)"
    using assms by (intro mult_left_mono pow2_mono) simp_all
  also have "\<dots> \<le> real (significand c) * pow2 (int (scale c) - 1075)"
  proof (rule mult_right_mono)
    have "dbl_exponent c \<noteq> 0" using assms by (auto simp: scale_def)
    then show "4503599627370496 \<le> real (significand c)" by (simp add: significand_def)
  qed simp
  finally show ?thesis .
qed

lemma dbl_real_inj:
  assumes "dbl_finite b" "dbl_finite c" "dbl_sign b = dbl_sign c" "dbl_real b = dbl_real c"
  shows "b = c"
proof -
  have mag: "real (significand b) * pow2 (int (scale b) - 1075) = real (significand c) * pow2 (int (scale c) - 1075)"
    using assms(4) unfolding dbl_real_finite [OF assms(1)] dbl_real_finite [OF assms(2)] assms(3)
    by (simp split: if_splits)
  then have s: "scale b = scale c"
    using magnitude_less [of b c] magnitude_less [of c b] by (metis less_irrefl linorder_neqE_nat)
  then have m: "significand b = significand c" using mag by simp
  have f: "dbl_fraction x < 2 ^ 52" for x unfolding dbl_fraction_def by (rule mod_less_divisor) simp
  have "dbl_exponent b = dbl_exponent c"
    using s m f [of b] f [of c] by (auto simp: scale_def significand_def max_def split: if_splits)
  moreover from this have "dbl_fraction b = dbl_fraction c" using m by (simp add: significand_def split: if_splits)
  ultimately show ?thesis using assms(3) by (intro fields_determine)
qed

lemma dbl_finite_below_threshold:
  assumes "dbl_finite b"
  shows "\<bar>dbl_real b\<bar> < overflow_threshold"
proof -
  have "\<bar>dbl_real b\<bar> = real (significand b) * pow2 (int (scale b) - 1075)"
    unfolding dbl_real_finite [OF assms] abs_mult by simp
  also have "\<dots> \<le> real (significand b) * pow2 971"
  proof (intro mult_left_mono pow2_mono)
    have "dbl_exponent b < 2048" by (simp add: dbl_exponent_def)
    then show "int (scale b) - 1075 \<le> 971" using assms by (simp add: scale_def dbl_finite_def)
  qed simp
  also have "\<dots> \<le> 9007199254740991 * pow2 971"
    using significand_less [of b] by (intro mult_right_mono) simp_all
  also have "\<dots> < overflow_threshold" using pow2_add [of 1 970] by (simp add: overflow_threshold_def)
  finally show ?thesis .
qed

text \<open>A fraction that is a pattern's value rounds to that pattern.\<close>

theorem round_dbl_exact:
  assumes "dbl_finite b" "\<not> dbl_sign b" "0 < d" "real n / real d = dbl_real b"
  shows "round_dbl n d = Some b"
proof -
  have "round_dbl n d \<noteq> None"
    using round_dbl_overflow [OF assms(3), of n] dbl_finite_below_threshold [OF assms(1)] assms(4) by auto
  then obtain c where c: "round_dbl n d = Some c" by blast
  have near: "dbl_nearest c (dbl_real b)" using round_dbl_nearest [OF c assms(3)] assms(4) by simp
  then have "\<bar>dbl_real c - dbl_real b\<bar> \<le> \<bar>dbl_real b - dbl_real b\<bar>"
    using assms(1) unfolding dbl_nearest_def by blast
  then have "dbl_real c = dbl_real b" by simp
  moreover have "dbl_finite c" using near by (simp add: dbl_nearest_def)
  moreover have "\<not> dbl_sign c" using round_dbl_sign [OF c assms(3)] .
  ultimately have "c = b" using assms(1,2) by (intro dbl_real_inj) simp_all
  then show ?thesis using c by simp
qed

section \<open>Signs\<close>

lemma neg_fields:
  "dbl_sign (dbl_neg b) = (\<not> dbl_sign b)" "dbl_exponent (dbl_neg b) = dbl_exponent b"
  "dbl_fraction (dbl_neg b) = dbl_fraction b"
proof -
  define u where "u = unat b"
  have u: "u < 2 ^ 64" unfolding u_def by (rule unat_u64_less)
  have neg: "unat (dbl_neg b) = (u + 2 ^ 63) mod 2 ^ 64"
    by (simp add: dbl_neg_def unat_word_ariths u_def)
  have split: "unat (dbl_neg b) = (if u < 2 ^ 63 then u + 2 ^ 63 else u - 2 ^ 63)"
    using u unfolding neg by (auto simp: mod_if)
  have cases: "u < 2 ^ 63 \<and> unat (dbl_neg b) = u + 2048 * 2 ^ 52 \<or>
      2 ^ 63 \<le> u \<and> u = unat (dbl_neg b) + 2048 * 2 ^ 52"
    using split by (auto split: if_splits)
  have shift: "(v + 2048 * 2 ^ 52) div 2 ^ 52 mod 2048 = v div 2 ^ 52 mod 2048"
    "(v + 2048 * 2 ^ 52) mod 2 ^ 52 = v mod 2 ^ 52" for v :: nat
    by (simp_all add: div_mult_self3 del: power_numeral)
  show "dbl_sign (dbl_neg b) = (\<not> dbl_sign b)"
    using split u by (auto simp: dbl_sign_def u_def split: if_splits)
  show "dbl_exponent (dbl_neg b) = dbl_exponent b" "dbl_fraction (dbl_neg b) = dbl_fraction b"
    using cases shift unfolding dbl_exponent_def dbl_fraction_def u_def by (metis, metis)
qed

lemma dbl_neg_finite [simp]: "dbl_finite (dbl_neg b) = dbl_finite b"
  by (simp add: dbl_finite_def neg_fields)

lemma dbl_neg_real: "dbl_finite b \<Longrightarrow> dbl_real (dbl_neg b) = - dbl_real b"
  using dbl_real_finite [of b] dbl_real_finite [of "dbl_neg b"]
  by (simp add: neg_fields significand_def scale_def)

lemma dbl_neg_neg [simp]: "dbl_neg (dbl_neg b) = b"
  by (rule fields_determine) (simp_all add: neg_fields)

lemma even_neg [simp]: "even (unat (dbl_neg b)) = even (unat b)"
  unfolding unat_fields [of b] unat_fields [of "dbl_neg b"] neg_fields by simp

lemma dbl_nearest_neg:
  assumes "dbl_nearest b x"
  shows "dbl_nearest (dbl_neg b) (- x)"
proof -
  have fin: "dbl_finite b" using assms by (simp add: dbl_nearest_def)
  have flip: "\<bar>dbl_real (dbl_neg b) - (- x)\<bar> = \<bar>dbl_real b - x\<bar>"
    using dbl_neg_real [OF fin] by simp
  have "\<bar>dbl_real b - x\<bar> \<le> \<bar>dbl_real c - (- x)\<bar> \<and>
      (\<bar>dbl_real c - (- x)\<bar> = \<bar>dbl_real b - x\<bar> \<and> dbl_real c \<noteq> dbl_real (dbl_neg b) \<longrightarrow> even (unat b))"
    if c: "dbl_finite c" for c
  proof -
    have n: "dbl_finite (dbl_neg c)" "dbl_real (dbl_neg c) = - dbl_real c"
      using c dbl_neg_real by simp_all
    have "\<bar>dbl_real c - (- x)\<bar> = \<bar>dbl_real (dbl_neg c) - x\<bar>" by (simp add: n)
    then show ?thesis
      using assms n dbl_neg_real [OF fin] unfolding dbl_nearest_def by (metis minus_equation_iff)
  qed
  then show ?thesis unfolding dbl_nearest_def flip dbl_neg_finite even_neg using fin by blast
qed

text \<open>\<open>dbl_pack\<close> rounds a signed fraction.\<close>

lemma dbl_pack_nearest:
  assumes "0 < d" and "real n / real d < overflow_threshold"
  shows "dbl_nearest (dbl_pack s n d) ((if s then - 1 else 1) * (real n / real d))"
proof -
  obtain b where b: "round_dbl n d = Some b"
    using round_dbl_overflow [OF assms(1), of n] assms(2) by fastforce
  have "dbl_pack s n d = (if s then dbl_neg b else b)" by (simp add: dbl_pack_def b dbl_neg_def)
  then show ?thesis
    using round_dbl_nearest [OF b assms(1)] dbl_nearest_neg by (cases s) fastforce+
qed

lemma dbl_pack_overflow:
  assumes "0 < d" and "overflow_threshold \<le> real n / real d"
  shows "dbl_pack s n d = dbl_inf s"
  using round_dbl_overflow [OF assms(1), of n] assms(2) by (simp add: dbl_pack_def)

lemma dbl_zero_nearest: "dbl_nearest (dbl_zero s) 0"
proof -
  have "dbl_nearest 0 0" using round_dbl_nearest [of 0 1 0] by (simp add: round_dbl_eq)
  moreover have "dbl_zero True = dbl_neg 0" by (simp add: dbl_zero_def dbl_neg_def)
  ultimately show ?thesis using dbl_nearest_neg [of 0 0] by (cases s) (simp_all add: dbl_zero_def)
qed

text \<open>The sum of finite operands is the nearest pattern to the exact sum, or an infinity.\<close>

theorem dbl_add_nearest:
  assumes "dbl_finite a" "dbl_finite b" and "\<bar>dbl_real a + dbl_real b\<bar> < overflow_threshold"
  shows "dbl_nearest (dbl_add a b) (dbl_real a + dbl_real b)"
proof -
  obtain n d m e where dec: "dbl_decode a = Finite (dbl_sign a) n d" "dbl_decode b = Finite (dbl_sign b) m e"
    using decode_fraction [OF assms(1)] decode_fraction [OF assms(2)] by blast
  have pos: "0 < d" "0 < e" and vals: "dbl_real a = (if dbl_sign a then - 1 else 1) * (real n / real d)"
    "dbl_real b = (if dbl_sign b then - 1 else 1) * (real m / real e)"
    using dbl_real_decode [OF dec(1)] dbl_real_decode [OF dec(2)] by simp_all
  define v where "v = with_sign (dbl_sign a) n * int e + with_sign (dbl_sign b) m * int d"
  have real_v: "of_int v / real (d * e) = dbl_real a + dbl_real b"
    using pos unfolding v_def vals by (simp add: with_sign_def field_simps)
  have sum: "dbl_add a b =
      (if v = 0 then dbl_zero (dbl_sign a \<and> dbl_sign b) else dbl_pack (v < 0) (nat \<bar>v\<bar>) (d * e))"
    by (simp add: dbl_add_def dec v_def Let_def)
  show ?thesis
  proof (cases "v = 0")
    case True
    then show ?thesis using real_v dbl_zero_nearest by (simp add: sum)
  next
    case False
    have "real (nat \<bar>v\<bar>) / real (d * e) = \<bar>dbl_real a + dbl_real b\<bar>"
      unfolding real_v [symmetric] by simp
    moreover have "(if v < 0 then - 1 else 1) * (real (nat \<bar>v\<bar>) / real (d * e)) = dbl_real a + dbl_real b"
      unfolding real_v [symmetric] by simp
    ultimately show ?thesis
      using dbl_pack_nearest [of "d * e" "nat \<bar>v\<bar>" "v < 0"] pos assms(3) False by (simp add: sum)
  qed
qed

end
