(* ===== verification/Config_Double.thy ===== *)
theory Config_Double
  imports Config Dbl_Round
begin

text \<open>
  Floating-point access to the configuration (\<open>ConfigStore::get_double\<close> in src/config.cpp):
  \<open>std::from_chars\<close> for \<open>double\<close> with the general format, as the language standard and its
  library describe it, the grammar of the texts it accepts, and the proof that the number it
  returns is the pattern nearest to the decimal value of the text.
\<close>

section \<open>\<open>std::from_chars\<close> for \<open>double\<close>\<close>

text \<open>The exponent part, if there is a complete one, and what follows it.\<close>

definition scan_exponent :: "string \<Rightarrow> int \<times> string" where
  "scan_exponent s =
     (case s of
        [] \<Rightarrow> (0, s)
      | c # r \<Rightarrow>
          if c = CHR ''e'' \<or> c = CHR ''E''
          then let neg = (r \<noteq> [] \<and> hd r = CHR ''-'');
                   body = (if r \<noteq> [] \<and> (hd r = CHR ''-'' \<or> hd r = CHR ''+'') then tl r else r);
                   ds = takeWhile is_digit body
               in if ds = [] then (0, s)
                  else (if neg then - int (digits_val ds) else int (digits_val ds), dropWhile is_digit body)
          else (0, s))"

text \<open>Digits with an optional point: the significand, the power of ten, what follows.\<close>

definition scan_decimal :: "string \<Rightarrow> (nat \<times> int \<times> string) option" where
  "scan_decimal s =
     (let whole = takeWhile is_digit s;
          rest = dropWhile is_digit s;
          frac = (if rest \<noteq> [] \<and> hd rest = CHR ''.'' then takeWhile is_digit (tl rest) else []);
          rest' = (if rest \<noteq> [] \<and> hd rest = CHR ''.'' then dropWhile is_digit (tl rest) else rest)
      in if whole = [] \<and> frac = [] then None
         else let (ex, rest'') = scan_exponent rest'
              in Some (digits_val (whole @ frac), ex - int (length frac), rest''))"

definition is_nchar :: "char \<Rightarrow> bool" where
  "is_nchar c \<longleftrightarrow> is_digit c \<or> 97 \<le> char_code (c_tolower c) \<and> char_code (c_tolower c) \<le> 122 \<or> c = CHR ''_''"

text \<open>The words for infinity and NaN, in any case of letters.\<close>

definition has_word :: "string \<Rightarrow> string \<Rightarrow> bool" where
  "has_word w s \<longleftrightarrow> map c_tolower (take (length w) s) = w"

definition word_inf :: string where "word_inf = ''inf''"
definition word_infinity :: string where "word_infinity = ''infinity''"
definition word_nan :: string where "word_nan = ''nan''"

lemma word_length: "length word_inf = 3" "length word_infinity = 8" "length word_nan = 3"
  by (simp_all add: word_inf_def word_infinity_def word_nan_def)

definition nan_tail :: "string \<Rightarrow> string" where
  "nan_tail s =
     (let r = dropWhile is_nchar (tl s)
      in if s \<noteq> [] \<and> hd s = CHR ''('' \<and> r \<noteq> [] \<and> hd r = CHR '')'' then tl r else s)"

definition quiet_nan :: double where "quiet_nan = 0x7FF8000000000000"

definition scan_special :: "string \<Rightarrow> (double \<times> string) option" where
  "scan_special s =
     (if has_word word_infinity s then Some (dbl_inf False, drop 8 s)
      else if has_word word_inf s then Some (dbl_inf False, drop 3 s)
      else if has_word word_nan s then Some (quiet_nan, nan_tail (drop 3 s))
      else None)"

text \<open>
  The double of \<open>\<plusminus>m * 10 ^ e\<close>; \<open>None\<close> is \<open>result_out_of_range\<close>, for a value too large and for one
  other than zero that rounds to zero.
\<close>

definition decimal_double :: "bool \<Rightarrow> nat \<Rightarrow> int \<Rightarrow> double option" where
  "decimal_double neg m e =
     (case round_dbl (m * 10 ^ nat e) (10 ^ nat (- e)) of
        None \<Rightarrow> None
      | Some b \<Rightarrow> if m \<noteq> 0 \<and> b = 0 then None else Some (if neg then dbl_neg b else b))"

definition from_chars_double :: "string \<Rightarrow> (double \<times> nat) option" where
  "from_chars_double s =
     (let neg = (s \<noteq> [] \<and> hd s = CHR ''-'');
          body = (if neg then tl s else s)
      in case scan_decimal body of
           Some (m, e, rest) \<Rightarrow>
             (case decimal_double neg m e of
                None \<Rightarrow> None
              | Some b \<Rightarrow> Some (b, length s - length rest))
         | None \<Rightarrow>
             (case scan_special body of
                None \<Rightarrow> None
              | Some (b, rest) \<Rightarrow> Some (if neg then dbl_neg b else b, length s - length rest)))"

definition config_get_double :: "config_store \<Rightarrow> string \<Rightarrow> double option" where
  "config_get_double store key =
     (case config_get store key of
        None \<Rightarrow> None
      | Some v \<Rightarrow>
          (case from_chars_double v of
             None \<Rightarrow> None
           | Some (out, ptr) \<Rightarrow> if ptr \<noteq> length v then None else Some out))"

section \<open>The grammar\<close>

definition digits :: "string \<Rightarrow> bool" where
  "digits s \<longleftrightarrow> list_all is_digit s"

text \<open>An exponent part of value \<open>ex\<close>, possibly empty.\<close>

definition exponent_text :: "string \<Rightarrow> int \<Rightarrow> bool" where
  "exponent_text s ex \<longleftrightarrow>
     s = [] \<and> ex = 0 \<or>
     (\<exists>c sg ds. s = c # sg @ ds \<and> c \<in> {CHR ''e'', CHR ''E''} \<and> sg \<in> {'''', ''-'', ''+''} \<and>
        digits ds \<and> ds \<noteq> [] \<and> ex = (if sg = ''-'' then - int (digits_val ds) else int (digits_val ds)))"

text \<open>A decimal literal of value \<open>m * 10 ^ e\<close>, negated if \<open>neg\<close>.\<close>

definition decimal_text :: "string \<Rightarrow> nat \<Rightarrow> int \<Rightarrow> bool" where
  "decimal_text s m e \<longleftrightarrow>
     (\<exists>whole point frac ex tail.
        s = whole @ point @ frac @ tail \<and> digits whole \<and> digits frac \<and>
        (point = ''.'' \<or> point = [] \<and> frac = []) \<and> (whole \<noteq> [] \<or> frac \<noteq> []) \<and>
        exponent_text tail ex \<and> m = digits_val (whole @ frac) \<and> e = ex - int (length frac))"

definition double_literal :: "string \<Rightarrow> bool \<Rightarrow> nat \<Rightarrow> int \<Rightarrow> bool" where
  "double_literal v neg m e \<longleftrightarrow> (\<exists>s. v = (if neg then ''-'' else []) @ s \<and> decimal_text s m e)"

definition special_text :: "string \<Rightarrow> double \<Rightarrow> bool" where
  "special_text s b \<longleftrightarrow>
     map c_tolower s \<in> {word_inf, word_infinity} \<and> b = dbl_inf False \<or>
     (\<exists>w t. s = w @ t \<and> map c_tolower w = word_nan \<and>
        (t = [] \<or> (\<exists>cs. t = CHR ''('' # cs @ '')'' \<and> list_all is_nchar cs)) \<and> b = quiet_nan)"

definition special_literal :: "string \<Rightarrow> double \<Rightarrow> bool" where
  "special_literal v b \<longleftrightarrow>
     (\<exists>neg s c. v = (if neg then ''-'' else []) @ s \<and> special_text s c \<and> b = (if neg then dbl_neg c else c))"

lemma digits_simps [simp]: "digits []" "digits (c # s) \<longleftrightarrow> is_digit c \<and> digits s"
  "digits (s @ t) \<longleftrightarrow> digits s \<and> digits t"
  by (simp_all add: digits_def)

lemma takeWhile_digits_run:
  "digits ds \<Longrightarrow> r = [] \<or> \<not> is_digit (hd r) \<Longrightarrow> takeWhile is_digit (ds @ r) = ds \<and> dropWhile is_digit (ds @ r) = r"
proof (induction ds)
  case Nil
  then show ?case by (cases r) auto
qed auto

lemma digits_takeWhile [simp]: "digits (takeWhile is_digit s)"
  by (induction s) auto

lemma not_digits [simp]:
  "\<not> is_digit CHR ''.''" "\<not> is_digit CHR ''e''" "\<not> is_digit CHR ''E''" "\<not> is_digit CHR ''+''"
  "\<not> is_digit CHR ''i''" "\<not> is_digit CHR ''n''" "\<not> is_digit CHR ''I''" "\<not> is_digit CHR ''N''"
  by (simp_all add: is_digit_def)

section \<open>Scanning follows the grammar\<close>

lemma scan_exponent_sound:
  assumes "scan_exponent s = (ex, r)"
  shows "\<exists>t. s = t @ r \<and> exponent_text t ex"
proof (cases "s = [] \<or> r = s \<and> ex = 0")
  case True
  then show ?thesis using assms by (auto simp: scan_exponent_def exponent_text_def)
next
  case False
  then obtain c q where s: "s = c # q" by (cases s) auto
  define sg where "sg = (if q \<noteq> [] \<and> (hd q = CHR ''-'' \<or> hd q = CHR ''+'') then [hd q] else [])"
  define body where "body = (if q \<noteq> [] \<and> (hd q = CHR ''-'' \<or> hd q = CHR ''+'') then tl q else q)"
  have q: "q = sg @ body" by (simp add: sg_def body_def)
  have minus: "sg = ''-'' \<longleftrightarrow> q \<noteq> [] \<and> hd q = CHR ''-''" by (auto simp: sg_def)
  have "c = CHR ''e'' \<or> c = CHR ''E''" "takeWhile is_digit body \<noteq> []" "r = dropWhile is_digit body"
    "ex = (if sg = ''-'' then - int (digits_val (takeWhile is_digit body)) else int (digits_val (takeWhile is_digit body)))"
    using assms False unfolding minus
    by (auto simp: scan_exponent_def s Let_def body_def split: if_splits)
  moreover have "sg \<in> {'''', ''-'', ''+''}" by (auto simp: sg_def)
  ultimately have "exponent_text (c # sg @ takeWhile is_digit body) ex"
    unfolding exponent_text_def by (intro disjI2 exI [of _ c] exI [of _ sg] exI [of _ "takeWhile is_digit body"]) simp
  moreover have "s = (c # sg @ takeWhile is_digit body) @ r"
    using \<open>r = dropWhile is_digit body\<close> by (simp add: s q)
  ultimately show ?thesis by blast
qed

lemma scan_exponent_complete:
  assumes "exponent_text t ex"
  shows "scan_exponent t = (ex, [])"
proof (cases "t = []")
  case True
  then show ?thesis using assms by (simp add: exponent_text_def scan_exponent_def)
next
  case False
  then obtain c sg ds where t: "t = c # sg @ ds" "c \<in> {CHR ''e'', CHR ''E''}" "sg \<in> {'''', ''-'', ''+''}"
    "digits ds" "ds \<noteq> []" "ex = (if sg = ''-'' then - int (digits_val ds) else int (digits_val ds))"
    using assms unfolding exponent_text_def by blast
  have run: "takeWhile is_digit ds = ds" "dropWhile is_digit ds = []"
    using takeWhile_digits_run [of ds "[]"] t(4) by simp_all
  have "is_digit (hd ds)" using t(4,5) by (cases ds) auto
  then have "hd ds \<noteq> CHR ''-''" "hd ds \<noteq> CHR ''+''" by auto
  moreover have "\<forall>x \<in> set ds. is_digit x" using t(4) by (simp add: digits_def list_all_iff)
  ultimately show ?thesis using t(2,3,5) by (auto simp: scan_exponent_def t(1) t(6) run Let_def)
qed

lemma exponent_text_head: "exponent_text t ex \<Longrightarrow> t = [] \<or> \<not> is_digit (hd t) \<and> hd t \<noteq> CHR ''.''"
  by (auto simp: exponent_text_def)

lemma scan_decimal_sound:
  assumes "scan_decimal s = Some (m, e, r)"
  shows "\<exists>t. s = t @ r \<and> decimal_text t m e"
proof -
  define whole rest where "whole = takeWhile is_digit s" and "rest = dropWhile is_digit s"
  define dot where "dot = (rest \<noteq> [] \<and> hd rest = CHR ''.'')"
  define frac rest' where "frac = (if dot then takeWhile is_digit (tl rest) else [])"
    and "rest' = (if dot then dropWhile is_digit (tl rest) else rest)"
  obtain ex r' where scan: "scan_exponent rest' = (ex, r')" by fastforce
  have "scan_decimal s =
      (if whole = [] \<and> frac = [] then None else Some (digits_val (whole @ frac), ex - int (length frac), r'))"
    unfolding scan_decimal_def Let_def using scan
    by (simp only: whole_def [symmetric] rest_def [symmetric] dot_def [symmetric] frac_def [symmetric]
        rest'_def [symmetric] prod.case)
  then have facts: "whole \<noteq> [] \<or> frac \<noteq> []" "m = digits_val (whole @ frac)" "e = ex - int (length frac)" "r' = r"
    using assms by (auto split: if_splits)
  obtain tail where tail: "rest' = tail @ r" "exponent_text tail ex"
    using scan_exponent_sound [OF scan] facts(4) by blast
  define point where "point = (if dot then ''.'' else [])"
  have "rest = point @ frac @ rest'"
    by (cases rest) (auto simp: dot_def frac_def rest'_def point_def)
  then have "s = (whole @ point @ frac @ tail) @ r"
    using tail(1) takeWhile_dropWhile_id [of is_digit s] by (simp add: whole_def rest_def)
  moreover have "decimal_text (whole @ point @ frac @ tail) m e"
    unfolding decimal_text_def
    by (rule exI [of _ whole], rule exI [of _ point], rule exI [of _ frac], rule exI [of _ ex], rule exI [of _ tail])
       (use facts tail(2) in \<open>auto simp: point_def frac_def whole_def\<close>)
  ultimately show ?thesis by blast
qed

lemma scan_decimal_complete:
  assumes "decimal_text s m e"
  shows "scan_decimal s = Some (m, e, [])"
proof -
  obtain whole point frac ex tail where s: "s = whole @ point @ frac @ tail" and d: "digits whole" "digits frac"
    and p: "point = ''.'' \<or> point = [] \<and> frac = []" and ne: "whole \<noteq> [] \<or> frac \<noteq> []"
    and tail: "exponent_text tail ex" and m: "m = digits_val (whole @ frac)" and e: "e = ex - int (length frac)"
    using assms unfolding decimal_text_def by blast
  have hd_tail: "tail = [] \<or> \<not> is_digit (hd tail) \<and> hd tail \<noteq> CHR ''.''"
    by (rule exponent_text_head [OF tail])
  have "point @ frac @ tail = [] \<or> \<not> is_digit (hd (point @ frac @ tail))"
    using p hd_tail by auto
  then have run: "takeWhile is_digit s = whole" "dropWhile is_digit s = point @ frac @ tail"
    using takeWhile_digits_run [OF d(1)] by (simp_all add: s)
  have run': "takeWhile is_digit (frac @ tail) = frac" "dropWhile is_digit (frac @ tail) = tail"
    using takeWhile_digits_run [OF d(2)] hd_tail by auto
  have "scan_exponent tail = (ex, [])" by (rule scan_exponent_complete [OF tail])
  then show ?thesis
  proof (cases "point = []")
    case True
    then show ?thesis using p ne hd_tail \<open>scan_exponent tail = (ex, [])\<close>
      by (auto simp: scan_decimal_def run Let_def m e)
  next
    case False
    then have "point = ''.''" using p by simp
    then show ?thesis using ne \<open>scan_exponent tail = (ex, [])\<close>
      by (simp add: scan_decimal_def run run' Let_def m e)
  qed
qed

lemma decimal_text_head:
  assumes "decimal_text s m e"
  shows "s \<noteq> [] \<and> (is_digit (hd s) \<or> hd s = CHR ''.'')"
proof -
  obtain whole point frac tail where "s = whole @ point @ frac @ tail" "digits whole"
    "point = ''.'' \<or> point = [] \<and> frac = []" "whole \<noteq> [] \<or> frac \<noteq> []"
    using assms unfolding decimal_text_def by blast
  then show ?thesis by (cases whole) auto
qed

lemma has_word_append: "has_word w s \<Longrightarrow> length w = n \<Longrightarrow> \<exists>t. s = t @ drop n s \<and> map c_tolower t = w"
  unfolding has_word_def by (metis append_take_drop_id)

lemma has_word_lower: "has_word w s \<longleftrightarrow> take (length w) (map c_tolower s) = w"
  by (simp add: has_word_def take_map)

lemma nan_tail_sound:
  "\<exists>t. s = t @ nan_tail s \<and> (t = [] \<or> (\<exists>cs. t = CHR ''('' # cs @ '')'' \<and> list_all is_nchar cs))"
proof (cases "nan_tail s = s")
  case False
  define cs where "cs = takeWhile is_nchar (tl s)"
  have "s \<noteq> []" "hd s = CHR ''(''" "dropWhile is_nchar (tl s) \<noteq> []" "hd (dropWhile is_nchar (tl s)) = CHR '')''"
    and tail: "nan_tail s = tl (dropWhile is_nchar (tl s))"
    using False by (auto simp: nan_tail_def Let_def split: if_splits)
  then have "s = CHR ''('' # tl s" "tl s = cs @ dropWhile is_nchar (tl s)"
    "dropWhile is_nchar (tl s) = CHR '')'' # nan_tail s"
    unfolding cs_def by (metis list.collapse, simp, metis list.collapse)
  then have "s = (CHR ''('' # cs @ '')'') @ nan_tail s"
    by (metis append.assoc append_Cons append_Nil)
  moreover have "list_all is_nchar cs" by (auto simp: cs_def list_all_iff dest: set_takeWhileD)
  ultimately show ?thesis by blast
qed simp

lemma special_text_infinity:
  "map c_tolower t = word_inf \<or> map c_tolower t = word_infinity \<Longrightarrow> special_text t (dbl_inf False)"
  by (simp only: special_text_def insert_iff) simp

lemma scan_special_sound:
  assumes "scan_special s = Some (b, r)"
  shows "\<exists>t. s = t @ r \<and> special_text t b"
proof -
  consider "has_word word_infinity s" "b = dbl_inf False" "r = drop 8 s"
    | "has_word word_inf s" "b = dbl_inf False" "r = drop 3 s"
    | "has_word word_nan s" "b = quiet_nan" "r = nan_tail (drop 3 s)"
    using assms by (auto simp: scan_special_def split: if_splits)
  then show ?thesis
  proof cases
    case 1
    obtain t where "s = t @ drop 8 s" "map c_tolower t = word_infinity"
      using has_word_append [OF 1(1) word_length(2)] by blast
    then show ?thesis unfolding 1(2,3) using special_text_infinity by blast
  next
    case 2
    obtain t where "s = t @ drop 3 s" "map c_tolower t = word_inf"
      using has_word_append [OF 2(1) word_length(1)] by blast
    then show ?thesis unfolding 2(2,3) using special_text_infinity by blast
  next
    case 3
    obtain w where w: "s = w @ drop 3 s" "map c_tolower w = word_nan"
      using has_word_append [OF 3(1) word_length(3)] by blast
    obtain t where t: "drop 3 s = t @ r" "t = [] \<or> (\<exists>cs. t = CHR ''('' # cs @ '')'' \<and> list_all is_nchar cs)"
      using nan_tail_sound [of "drop 3 s"] 3(3) by blast
    have "special_text (w @ t) b" using w(2) t(2) 3(2) unfolding special_text_def by blast
    moreover have "s = (w @ t) @ r" using w(1) t(1) by simp
    ultimately show ?thesis by blast
  qed
qed

lemma nan_tail_complete: "list_all is_nchar cs \<Longrightarrow> nan_tail (CHR ''('' # cs @ '')'') = []"
proof -
  assume cs: "list_all is_nchar cs"
  have "\<not> is_nchar CHR '')''" by (simp add: is_nchar_def is_digit_def c_tolower_def)
  then have "dropWhile is_nchar (cs @ '')'') = '')''" using cs by (induction cs) auto
  then show ?thesis by (simp add: nan_tail_def Let_def)
qed

lemma lower_letter_not_digit:
  assumes "c_tolower c = CHR ''i'' \<or> c_tolower c = CHR ''n''"
  shows "\<not> is_digit c \<and> c \<noteq> CHR ''.'' \<and> c \<noteq> CHR ''-''"
proof -
  have "char_code c \<in> {65..90} \<union> {97..122}"
  proof (cases "65 \<le> char_code c \<and> char_code c \<le> 90")
    case False
    then have "c_tolower c = c" by (auto simp: c_tolower_def Let_def)
    then show ?thesis using assms by auto
  qed simp
  then show ?thesis by (auto simp: is_digit_def)
qed

lemma special_text_head:
  assumes "special_text s b"
  shows "s \<noteq> [] \<and> \<not> is_digit (hd s) \<and> hd s \<noteq> CHR ''.'' \<and> hd s \<noteq> CHR ''-''"
proof -
  have "s \<noteq> [] \<and> (c_tolower (hd s) = CHR ''i'' \<or> c_tolower (hd s) = CHR ''n'')"
    using assms unfolding special_text_def word_inf_def word_infinity_def word_nan_def
    by (cases s) (auto simp: Cons_eq_append_conv)
  then show ?thesis using lower_letter_not_digit by blast
qed

lemma scan_special_complete:
  assumes "special_text s b"
  shows "scan_decimal s = None" and "scan_special s = Some (b, [])"
proof -
  obtain c r where s: "s = c # r" "\<not> is_digit c" "c \<noteq> CHR ''.''"
    using special_text_head [OF assms] by (cases s) auto
  then show "scan_decimal s = None" by (simp add: scan_decimal_def)
  consider "map c_tolower s = word_inf" "b = dbl_inf False" | "map c_tolower s = word_infinity" "b = dbl_inf False"
    | w t where "s = w @ t" "map c_tolower w = word_nan"
        "t = [] \<or> (\<exists>cs. t = CHR ''('' # cs @ '')'' \<and> list_all is_nchar cs)" "b = quiet_nan"
    using assms unfolding special_text_def insert_iff empty_iff by blast
  then show "scan_special s = Some (b, [])"
  proof cases
    case 1
    have "length s = 3" using arg_cong [OF 1(1), of length] by (simp add: word_length)
    then show ?thesis by (simp add: scan_special_def has_word_lower 1 word_inf_def word_infinity_def word_nan_def)
  next
    case 2
    have "length s = 8" using arg_cong [OF 2(1), of length] by (simp add: word_length)
    then show ?thesis by (simp add: scan_special_def has_word_lower 2 word_inf_def word_infinity_def word_nan_def)
  next
    case 3
    have w: "length w = 3" using arg_cong [OF 3(2), of length] by (simp add: word_length)
    have "nan_tail t = []" using 3(3) nan_tail_complete by (auto simp: nan_tail_def)
    moreover have "\<not> has_word word_infinity s" "\<not> has_word word_inf s" "has_word word_nan s"
      by (simp_all add: has_word_lower 3(1,2) word_inf_def word_infinity_def word_nan_def)
    ultimately show ?thesis using w by (simp add: scan_special_def 3(1,4))
  qed
qed

section \<open>What \<open>get_double\<close> accepts\<close>

lemma length_suffix: "length (t @ r) - length r = length (t @ r) \<longleftrightarrow> t = [] \<and> r = [] \<or> r = []"
  by auto

lemma from_chars_double_full:
  "from_chars_double v = Some (b, length v) \<longleftrightarrow>
   (\<exists>neg m e. double_literal v neg m e \<and> decimal_double neg m e = Some b) \<or> special_literal v b"
  (is "_ \<longleftrightarrow> ?decimal \<or> ?special")
proof
  assume parsed: "from_chars_double v = Some (b, length v)"
  define neg where "neg = (v \<noteq> [] \<and> hd v = CHR ''-'')"
  define body where "body = (if neg then tl v else v)"
  have v: "v = (if neg then ''-'' else []) @ body"
    by (cases v) (auto simp: neg_def body_def)
  have unfolded: "from_chars_double v =
      (case scan_decimal body of
         Some (m, e, rest) \<Rightarrow>
           (case decimal_double neg m e of None \<Rightarrow> None | Some b \<Rightarrow> Some (b, length v - length rest))
       | None \<Rightarrow>
           (case scan_special body of None \<Rightarrow> None
            | Some (b, rest) \<Rightarrow> Some (if neg then dbl_neg b else b, length v - length rest)))"
    by (simp only: from_chars_double_def Let_def neg_def body_def)
  have whole: "r = []" if "body = t @ r" "length v - length r = length v" for t r
    using that by (auto simp: v split: if_splits)
  show "?decimal \<or> ?special"
  proof (cases "scan_decimal body")
    case None
    then obtain c r where s: "scan_special body = Some (c, r)" "b = (if neg then dbl_neg c else c)"
        "length v - length r = length v"
      using parsed unfolding unfolded by (auto split: option.splits)
    obtain t where t: "body = t @ r" "special_text t c" using scan_special_sound [OF s(1)] by blast
    then have "r = []" using whole s(3) by blast
    then show ?thesis using t s(2) v unfolding special_literal_def by auto
  next
    case (Some d)
    then obtain m e r where s: "scan_decimal body = Some (m, e, r)" "decimal_double neg m e = Some b"
        "length v - length r = length v"
      using parsed unfolding unfolded by (cases d) (auto split: option.splits)
    obtain t where t: "body = t @ r" "decimal_text t m e" using scan_decimal_sound [OF s(1)] by blast
    then have "r = []" using whole s(3) by blast
    then show ?thesis using t s(2) v unfolding double_literal_def by auto
  qed
next
  assume "?decimal \<or> ?special"
  then show "from_chars_double v = Some (b, length v)"
  proof
    assume ?decimal
    then obtain neg m e s where lit: "v = (if neg then ''-'' else []) @ s" "decimal_text s m e"
        "decimal_double neg m e = Some b"
      unfolding double_literal_def by blast
    have "s \<noteq> []" "hd s \<noteq> CHR ''-''" using decimal_text_head [OF lit(2)] by auto
    then show ?thesis
      using scan_decimal_complete [OF lit(2)] lit(3) by (auto simp: from_chars_double_def lit(1) Let_def)
  next
    assume ?special
    then obtain neg s c where lit: "v = (if neg then ''-'' else []) @ s" "special_text s c"
        "b = (if neg then dbl_neg c else c)"
      unfolding special_literal_def by blast
    have "s \<noteq> []" "hd s \<noteq> CHR ''-''" using special_text_head [OF lit(2)] by auto
    then show ?thesis
      using scan_special_complete [OF lit(2)] by (auto simp: from_chars_double_def lit(1,3) Let_def)
  qed
qed

lemma config_get_double_iff:
  "config_get_double store key = Some b \<longleftrightarrow>
   (\<exists>v. config_get store key = Some v \<and>
        ((\<exists>neg m e. double_literal v neg m e \<and> decimal_double neg m e = Some b) \<or> special_literal v b))"
  by (auto simp: config_get_double_def from_chars_double_full [symmetric] split: option.splits)

text \<open>
  C10. \<open>get_double\<close> accepts exactly the decimal literals (an optional minus sign, digits with an
  optional point before, between or after them, an optional exponent) whose value is in range,
  and the words for infinity and NaN in any case of letters; nothing else, in particular no
  plus sign, no blank and no hexadecimal literal.
\<close>

theorem get_double_accepts_exactly:
  "config_get_double store key = Some b \<longleftrightarrow>
   (\<exists>v. config_get store key = Some v \<and>
        ((\<exists>neg m e. double_literal v neg m e \<and> decimal_double neg m e = Some b) \<or> special_literal v b))"
  by (rule config_get_double_iff)

section \<open>What \<open>get_double\<close> returns\<close>

lemma decimal_value:
  "real (m * 10 ^ nat e) / real (10 ^ nat (- e)) = real m * 10 powi e"
proof (cases "0 \<le> e")
  case True
  then show ?thesis by (simp add: power_int_nonneg_exp)
next
  case False
  then show ?thesis
    using power_int_minus_divide [of "10 :: real" "- e"] by (simp add: power_int_nonneg_exp)
qed

lemma positive_pattern_least:
  assumes "dbl_finite b" "\<not> dbl_sign b" "b \<noteq> 0"
  shows "pow2 (- 1074) \<le> dbl_real b"
proof -
  have "significand b \<noteq> 0"
  proof
    assume "significand b = 0"
    then have "dbl_exponent b = 0" "dbl_fraction b = 0" by (auto simp: significand_def split: if_splits)
    then have "unat b = 0" using unat_fields [of b] assms(2) by simp
    then show False using assms(3) by (simp add: unat_eq_0)
  qed
  then have "1 * pow2 (- 1074) \<le> real (significand b) * pow2 (int (scale b) - 1075)"
    by (intro mult_mono pow2_mono) (simp_all add: scale_def)
  then show ?thesis unfolding dbl_real_finite [OF assms(1)] using assms(2) by simp
qed

lemma least_pattern: "dbl_finite 1" "dbl_real 1 = pow2 (- 1074)" "\<not> dbl_sign 1"
  using pattern_value [of 0 1] pattern_fields(3) [of 0 1] by simp_all

lemma zero_pattern [simp]: "dbl_finite 0" "dbl_real 0 = 0" "\<not> dbl_sign 0"
  using pattern_value [of 0 0] pattern_fields(3) [of 0 0] by simp_all

lemma pow2_half: "pow2 (- 1074) = 2 * pow2 (- 1075)"
  using pow2_add [of "- 1075" 1] by simp

text \<open>What rounds to zero: everything up to half the least positive number, a tie included.\<close>

lemma round_dbl_zero:
  assumes "round_dbl n d = Some b" "0 < d"
  shows "b = 0 \<longleftrightarrow> real n / real d \<le> pow2 (- 1075)"
proof -
  define x where "x = real n / real d"
  have x: "0 \<le> x" by (simp add: x_def)
  have near: "dbl_nearest b x" unfolding x_def by (rule round_dbl_nearest [OF assms])
  then have fin: "dbl_finite b" by (simp add: dbl_nearest_def)
  have s: "\<not> dbl_sign b" by (rule round_dbl_sign [OF assms])
  show ?thesis
  proof
    assume "b = 0"
    then have "\<bar>0 - x\<bar> \<le> \<bar>pow2 (- 1074) - x\<bar>"
      using near least_pattern(1,2) zero_pattern(2) unfolding dbl_nearest_def by metis
    then show "real n / real d \<le> pow2 (- 1075)"
      using x pow2_pos [of "- 1075"] unfolding pow2_half x_def [symmetric] by linarith
  next
    assume small: "real n / real d \<le> pow2 (- 1075)"
    show "b = 0"
    proof (rule ccontr)
      assume "b \<noteq> 0"
      then have ge: "pow2 (- 1074) \<le> dbl_real b" using positive_pattern_least fin s by blast
      have "\<bar>dbl_real b - x\<bar> \<le> \<bar>dbl_real 0 - x\<bar>"
        using near zero_pattern(1) unfolding dbl_nearest_def by blast
      then have eq: "dbl_real b = pow2 (- 1074)" "x = pow2 (- 1075)"
        using small x ge unfolding pow2_half x_def [symmetric] zero_pattern(2) by linarith+
      have "b = 1" using eq(1) least_pattern fin s by (intro dbl_real_inj) simp_all
      moreover have "\<bar>dbl_real 0 - x\<bar> = \<bar>dbl_real b - x\<bar>" "dbl_real 0 \<noteq> dbl_real b"
        using eq pow2_pos [of "- 1075"] unfolding pow2_half zero_pattern(2) by linarith+
      then have "even (unat b)" using near zero_pattern(1) unfolding dbl_nearest_def by blast
      ultimately show False by simp
    qed
  qed
qed

lemma config_get_double_literal:
  assumes "config_get store key = Some v" and "double_literal v neg m e"
  shows "config_get_double store key = decimal_double neg m e"
proof -
  obtain s where s: "v = (if neg then ''-'' else []) @ s" "decimal_text s m e"
    using assms(2) unfolding double_literal_def by blast
  have "s \<noteq> []" "hd s \<noteq> CHR ''-''" using decimal_text_head [OF s(2)] by auto
  then show ?thesis
    using scan_decimal_complete [OF s(2)]
    by (auto simp: config_get_double_def assms(1) from_chars_double_def s(1) Let_def split: option.splits)
qed

text \<open>
  C11. The number returned for a decimal literal is the double nearest to its value, ties to
  even; nothing is returned exactly when the value reaches the overflow threshold or is not
  zero but at most half the least positive double.
\<close>

theorem get_double_is_correctly_rounded:
  assumes "config_get store key = Some v" and "double_literal v neg m e"
  defines "x \<equiv> (if neg then - 1 else 1) * (real m * 10 powi e)"
  shows "case config_get_double store key of
           Some b \<Rightarrow> dbl_nearest b x \<and> \<bar>x\<bar> < overflow_threshold \<and> (x = 0 \<or> pow2 (- 1075) < \<bar>x\<bar>)
         | None \<Rightarrow> overflow_threshold \<le> \<bar>x\<bar> \<or> x \<noteq> 0 \<and> \<bar>x\<bar> \<le> pow2 (- 1075)"
proof -
  note get = config_get_double_literal [OF assms(1,2)]
  define n d where "n = m * 10 ^ nat e" and "d = (10 :: nat) ^ nat (- e)"
  have d: "0 < d" by (simp add: d_def)
  have val: "real n / real d = real m * 10 powi e" unfolding n_def d_def by (rule decimal_value)
  have abs: "\<bar>x\<bar> = real m * 10 powi e" unfolding x_def abs_mult by (simp add: abs_mult)
  have zero: "x = 0 \<longleftrightarrow> m = 0" unfolding x_def by simp
  show ?thesis
  proof (cases "round_dbl n d")
    case None
    then show ?thesis
      using round_dbl_overflow [OF d, of n]
      by (simp add: get decimal_double_def n_def [symmetric] d_def [symmetric] val abs)
  next
    case (Some b)
    have "\<bar>x\<bar> < overflow_threshold" using round_dbl_overflow [OF d, of n] Some val abs by auto
    moreover have "dbl_nearest (if neg then dbl_neg b else b) x"
      using round_dbl_nearest [OF Some d] dbl_nearest_neg [of b "real m * 10 powi e"] by (simp add: val x_def)
    moreover have "b = 0 \<longleftrightarrow> \<bar>x\<bar> \<le> pow2 (- 1075)" using round_dbl_zero [OF Some d] val abs by simp
    ultimately show ?thesis
      by (auto simp: get decimal_double_def n_def [symmetric] d_def [symmetric] Some zero)
  qed
qed

lemma quarter_literal: "double_literal ''-2.5e-1'' True 25 (- 2)"
proof -
  have "exponent_text ''e-1'' (- 1)"
    unfolding exponent_text_def
    by (rule disjI2, rule exI [of _ "CHR ''e''"], rule exI [of _ "''-''"], rule exI [of _ "''1''"])
       (simp add: is_digit_def digits_val_def digit_val_def)
  then have "decimal_text ''2.5e-1'' 25 (- 2)"
    unfolding decimal_text_def
    by (intro exI [of _ "''2''"] exI [of _ "''.''"] exI [of _ "''5''"] exI [of _ "- 1"] exI [of _ "''e-1''"])
       (simp add: is_digit_def digits_val_def digit_val_def)
  then show ?thesis unfolding double_literal_def by (intro exI [of _ "''2.5e-1''"]) simp
qed

theorem get_double_is_correctly_rounded_witness:
  "\<exists>b. config_get_double (config_set ''k'' ''-2.5e-1'' []) ''k'' = Some b \<and> dbl_nearest b (- (1 / 4))"
proof -
  have x: "(if True then - 1 else 1) * (real 25 * 10 powi - 2) = - (1 / 4)"
    by (simp add: power_int_minus_divide)
  have "1 \<le> pow2 970" by (rule one_le_power_int) simp_all
  then have "\<not> overflow_threshold \<le> \<bar>- (1 / 4)\<bar>" by (simp add: overflow_threshold_def)
  moreover have "pow2 (- 1075) \<le> pow2 (- 3)" by (rule pow2_mono) simp
  then have "\<not> \<bar>- (1 / 4)\<bar> \<le> pow2 (- 1075)" by (simp add: power_int_minus_divide)
  ultimately show ?thesis
    using get_double_is_correctly_rounded [OF config_get_set [of "''k''" "''-2.5e-1''" "[]" "''k''", simplified] quarter_literal]
    unfolding x by (simp split: option.splits)
qed

section \<open>Every finite double can be written\<close>

text \<open>The exact decimal expansion of a finite double, \<open>n / 2 ^ k\<close> as \<open>n * 5 ^ k\<close> and the exponent \<open>-k\<close>.\<close>

definition exact_decimal :: "double \<Rightarrow> string" where
  "exact_decimal b =
     (let k = 1075 - scale b in
      (if dbl_sign b then ''-'' else []) @
      dec_nat (significand b * 2 ^ (scale b - 1075) * 5 ^ k) @ ''e-'' @ dec_nat k)"

lemma digits_dec_nat [simp]: "digits (dec_nat n)"
  by (simp add: digits_def list_all_iff dec_nat_digits)

lemma exact_decimal_literal:
  "double_literal (exact_decimal b) (dbl_sign b)
     (significand b * 2 ^ (scale b - 1075) * 5 ^ (1075 - scale b)) (- int (1075 - scale b))"
proof -
  define m k where "m = significand b * 2 ^ (scale b - 1075) * 5 ^ (1075 - scale b)" and "k = 1075 - scale b"
  have "exponent_text (''e-'' @ dec_nat k) (- int k)"
    unfolding exponent_text_def
    by (rule disjI2, rule exI [of _ "CHR ''e''"], rule exI [of _ "''-''"], rule exI [of _ "dec_nat k"]) simp
  then have "decimal_text (dec_nat m @ ''e-'' @ dec_nat k) m (- int k)"
    unfolding decimal_text_def
    by (intro exI [of _ "dec_nat m"] exI [of _ "[]"] exI [of _ "- int k"] exI [of _ "''e-'' @ dec_nat k"]) simp
  moreover have "exact_decimal b = (if dbl_sign b then ''-'' else []) @ dec_nat m @ ''e-'' @ dec_nat k"
    by (simp add: exact_decimal_def Let_def m_def k_def)
  ultimately have "double_literal (exact_decimal b) (dbl_sign b) m (- int k)"
    unfolding double_literal_def by (intro exI conjI)
  then show ?thesis by (simp only: m_def k_def)
qed

lemma exact_decimal_value:
  assumes "dbl_finite b"
  shows "real (significand b * 2 ^ (scale b - 1075) * 5 ^ (1075 - scale b)) / real (10 ^ (1075 - scale b)) =
         real (significand b) * pow2 (int (scale b) - 1075)"
proof (cases "1075 \<le> scale b")
  case True
  then have "pow2 (int (scale b) - 1075) = 2 ^ (scale b - 1075)"
    by (simp add: power_int_nonneg_exp nat_diff_distrib)
  with True show ?thesis by simp
next
  case False
  define k where "k = 1075 - scale b"
  have "int (scale b) - 1075 = - int k" using False by (simp add: k_def)
  then have "pow2 (int (scale b) - 1075) = 1 / 2 ^ k" by (simp only: power_int_minus_divide power_int_of_nat)
  moreover have "(10 :: real) ^ k = 5 ^ k * 2 ^ k" by (simp flip: power_mult_distrib)
  ultimately show ?thesis using False by (simp add: k_def [symmetric])
qed

text \<open>
  C12. Every finite double can be configured: the text of its exact decimal expansion is read
  back as the same bit pattern, the sign of zero included.
\<close>

theorem every_finite_double_is_read_back:
  assumes "dbl_finite b"
  shows "config_get_double (config_set key (exact_decimal b) store) key = Some b"
proof -
  define m k where "m = significand b * 2 ^ (scale b - 1075) * 5 ^ (1075 - scale b)" and "k = 1075 - scale b"
  define c where "c = (if dbl_sign b then dbl_neg b else b)"
  have c: "dbl_finite c" "\<not> dbl_sign c" "(if dbl_sign b then dbl_neg c else c) = b"
    using assms by (auto simp: c_def neg_fields)
  have val: "real m / real (10 ^ k) = dbl_real c"
    unfolding m_def k_def exact_decimal_value [OF assms] c_def
    using dbl_real_finite [OF assms] dbl_neg_real [OF assms] by simp
  have round: "round_dbl m (10 ^ k) = Some c"
    by (rule round_dbl_exact [OF c(1,2) _ val]) simp
  have "m = 0" if "c = 0" using val that by simp
  then have "decimal_double (dbl_sign b) m (- int k) = Some b"
    using round c(3) by (auto simp: decimal_double_def)
  then show ?thesis
    using config_get_double_literal [OF _ exact_decimal_literal, of "config_set key (exact_decimal b) store" key b]
    by (simp add: config_get_set m_def k_def)
qed

theorem every_finite_double_is_read_back_witness:
  "config_get_double (config_set ''k'' (exact_decimal 0x3FB999999999999A) []) ''k'' = Some 0x3FB999999999999A"
  by (rule every_finite_double_is_read_back) (simp add: dbl_finite_def dbl_exponent_def)

end
