(* ===== verification/Encoding.thy ===== *)
theory Encoding
  imports Prelude
begin

text \<open>
  The contract the text renderers rely on: an encoding is self-delimiting when a reader
  that knows the encoding can tell where an encoded item ends, whatever follows it. Lists
  of such items with a terminator that starts no item, or with a separator between the
  items, are self-delimiting again, so the JSON renderers of the services are shown
  injective item by item.
\<close>

locale prefix_code =
  fixes enc :: "'a \<Rightarrow> 'c list"
  assumes enc_unique: "enc a @ r = enc b @ r' \<Longrightarrow> a = b \<and> r = r'"
begin

lemma enc_inject: "enc a = enc b \<longleftrightarrow> a = b"
  using enc_unique [of a "[]" b "[]"] by auto

lemma enc_append_inject: "enc a @ r = enc b @ r' \<longleftrightarrow> a = b \<and> r = r'"
  using enc_unique by blast

end

locale stopped_code = prefix_code +
  fixes stop :: 'c
  assumes enc_not_stop: "enc a @ r \<noteq> stop # r'"
begin

lemma items_unique:
  "concat (map enc xs) @ stop # r = concat (map enc ys) @ stop # r' \<Longrightarrow> xs = ys \<and> r = r'"
proof (induction xs arbitrary: ys)
  case Nil
  then show ?case by (cases ys) (auto dest: sym simp: enc_not_stop dest!: sym [of "stop # _"])
next
  case (Cons x xs)
  then show ?case by (cases ys) (auto simp: enc_not_stop enc_append_inject)
qed

end

sublocale stopped_code \<subseteq> items: prefix_code "\<lambda>xs. concat (map enc xs) @ [stop]"
  by unfold_locales (use items_unique in auto)

text \<open>Items with a separator between them, as the comma of a JSON object.\<close>

fun sep_items :: "('a \<Rightarrow> 'c list) \<Rightarrow> 'c \<Rightarrow> 'a list \<Rightarrow> 'c list" where
  "sep_items enc sep [] = []"
| "sep_items enc sep (x # xs) = enc x @ concat (map (\<lambda>y. sep # enc y) xs)"

lemma sep_items_snoc:
  "sep_items enc sep (xs @ [y]) =
     sep_items enc sep xs @ (if xs = [] then enc y else sep # enc y)"
  by (cases xs) auto

locale separated_code = stopped_code +
  fixes sep :: 'c
  assumes sep_not_stop: "sep \<noteq> stop"

sublocale separated_code \<subseteq> tail: stopped_code "\<lambda>a. sep # enc a" stop
  by unfold_locales (auto simp: sep_not_stop dest: enc_unique)

context separated_code begin

lemma sep_items_unique:
  assumes "sep_items enc sep xs @ stop # r = sep_items enc sep ys @ stop # r'"
  shows "xs = ys \<and> r = r'"
proof (cases xs)
  case Nil
  with assms show ?thesis by (cases ys) (auto dest!: sym [of "stop # _"] simp: enc_not_stop)
next
  case (Cons x xs')
  with assms obtain y ys' where ys: "ys = y # ys'" by (cases ys) (auto simp: enc_not_stop)
  with assms Cons have "x = y \<and> concat (map (\<lambda>y. sep # enc y) xs') @ stop # r =
      concat (map (\<lambda>y. sep # enc y) ys') @ stop # r'"
    by (simp add: enc_append_inject)
  with Cons ys show ?thesis using tail.items_unique by blast
qed

lemma sep_items_inject: "sep_items enc sep xs = sep_items enc sep ys \<longleftrightarrow> xs = ys"
  using sep_items_unique [of xs "[]" ys "[]"] by auto

end

sublocale separated_code \<subseteq> seps: prefix_code "\<lambda>xs. sep_items enc sep xs @ [stop]"
  by unfold_locales (use sep_items_unique in auto)

end
