(* ===== verification/Timestamp.thy ===== *)
theory Timestamp
  imports Prelude "HOL-Library.Signed_Division"
begin

text \<open>
  The time stamp of a log record (src/logger.cpp, \<open>rfc3339_now\<close>): RFC 3339 in UTC with
  milliseconds, from a reading of the system clock in nanoseconds since the epoch.
\<close>

section \<open>Calendar and format\<close>

text \<open>\<open>gmtime_r\<close> of a time at or after the epoch, by counting years and months.\<close>

definition leap_year :: "nat \<Rightarrow> bool" where
  "leap_year y \<longleftrightarrow> y mod 4 = 0 \<and> (y mod 100 \<noteq> 0 \<or> y mod 400 = 0)"

definition year_days :: "nat \<Rightarrow> nat" where
  "year_days y = (if leap_year y then 366 else 365)"

definition month_days :: "nat \<Rightarrow> nat list" where
  "month_days y = [31, if leap_year y then 29 else 28, 31, 30, 31, 30, 31, 31, 30, 31, 30, 31]"

lemma year_days_shrink [termination_simp]: "\<not> d < year_days y \<Longrightarrow> d - year_days y < d"
  by (simp add: year_days_def split: if_splits)

fun year_of_days :: "nat \<Rightarrow> nat \<Rightarrow> nat \<times> nat" where
  "year_of_days y d = (if d < year_days y then (y, d) else year_of_days (y + 1) (d - year_days y))"

declare year_of_days.simps [simp del]

fun month_of_days :: "nat list \<Rightarrow> nat \<Rightarrow> nat \<Rightarrow> nat \<times> nat" where
  "month_of_days [] m d = (m, d + 1)"
| "month_of_days (len # lens) m d = (if d < len then (m, d + 1) else month_of_days lens (m + 1) (d - len))"

definition civil_of_days :: "nat \<Rightarrow> nat \<times> nat \<times> nat" where
  "civil_of_days d =
     (let (y, yd) = year_of_days 1970 d; (m, day) = month_of_days (month_days y) 1 yd in (y, m, day))"

definition two_digits :: "nat \<Rightarrow> string" where
  "two_digits n = [digit_char (n div 10), digit_char (n mod 10)]"

definition pad3 :: "string \<Rightarrow> string" where
  "pad3 s = replicate (3 - length s) CHR ''0'' @ s"

definition rfc3339 :: "int \<Rightarrow> string" where
  "rfc3339 now =
     (let ms = (now sdiv 1000000) smod 1000;
          t = nat (now sdiv 1000000000);
          (y, m, d) = civil_of_days (t div 86400);
          s = t mod 86400
      in dec_nat y @ ''-'' @ two_digits m @ ''-'' @ two_digits d @ ''T'' @
         two_digits (s div 3600) @ '':'' @ two_digits (s mod 3600 div 60) @ '':'' @ two_digits (s mod 60) @
         ''.'' @ pad3 (dec_int ms) @ ''Z'')"

section \<open>The calendar\<close>

text \<open>The number of a day since 1970-01-01, counted from its date.\<close>

definition day_number :: "nat \<Rightarrow> nat \<Rightarrow> nat \<Rightarrow> nat" where
  "day_number y m d = sum_list (map year_days [1970..<y]) + sum_list (take (m - 1) (month_days y)) + (d - 1)"

lemma year_of_days_spec:
  "year_of_days y d = (y', d') \<Longrightarrow>
   y \<le> y' \<and> d' < year_days y' \<and> d = sum_list (map year_days [y..<y']) + d'"
proof (induction y d rule: year_of_days.induct)
  case (1 y d)
  show ?case
  proof (cases "d < year_days y")
    case True
    then show ?thesis using 1(2) by (simp add: year_of_days.simps [of y d])
  next
    case False
    then have "year_of_days (y + 1) (d - year_days y) = (y', d')"
      using 1(2) by (simp add: year_of_days.simps [of y d])
    from 1(1) [OF False this] False show ?thesis by (auto simp: upt_conv_Cons)
  qed
qed

lemma month_of_days_spec:
  "month_of_days lens m d = (m', d') \<Longrightarrow> d < sum_list lens \<Longrightarrow>
   m \<le> m' \<and> m' - m < length lens \<and> 1 \<le> d' \<and> d' \<le> lens ! (m' - m) \<and>
   d = sum_list (take (m' - m) lens) + (d' - 1)"
proof (induction lens m d rule: month_of_days.induct)
  case (1 m d)
  then show ?case by simp
next
  case (2 len lens m d)
  show ?case
  proof (cases "d < len")
    case True
    then show ?thesis using 2 by auto
  next
    case False
    have "d - len < sum_list lens" using 2(3) False by simp
    with 2 False have ih: "m + 1 \<le> m' \<and> m' - (m + 1) < length lens \<and> 1 \<le> d' \<and> d' \<le> lens ! (m' - (m + 1)) \<and>
        d - len = sum_list (take (m' - (m + 1)) lens) + (d' - 1)"
      by (simp del: One_nat_def add: Suc_eq_plus1)
    then obtain k where k: "m' - m = Suc k" "m' - (m + 1) = k" by (metis Suc_diff_le Suc_eq_plus1 diff_Suc_Suc)
    show ?thesis using ih False unfolding k by auto
  qed
qed

lemma month_days_sum: "sum_list (month_days y) = year_days y"
  by (simp add: month_days_def year_days_def)

lemma civil_of_days_spec:
  assumes "civil_of_days n = (y, m, d)"
  shows "1970 \<le> y \<and> 1 \<le> m \<and> m \<le> 12 \<and> 1 \<le> d \<and> d \<le> month_days y ! (m - 1) \<and> day_number y m d = n"
proof -
  obtain yd where yd: "year_of_days 1970 n = (y, yd)" and md: "month_of_days (month_days y) 1 yd = (m, d)"
    using assms by (auto simp: civil_of_days_def split: prod.splits)
  have y: "1970 \<le> y" "yd < year_days y" "n = sum_list (map year_days [1970..<y]) + yd"
    using year_of_days_spec [OF yd] by auto
  have "yd < sum_list (month_days y)" using y(2) by (simp add: month_days_sum)
  from month_of_days_spec [OF md this] have "1 \<le> m" "m - 1 < length (month_days y)" "1 \<le> d"
    "d \<le> month_days y ! (m - 1)" "yd = sum_list (take (m - 1) (month_days y)) + (d - 1)" by auto
  moreover have "length (month_days y) = 12" by (simp add: month_days_def)
  ultimately show ?thesis using y by (auto simp: day_number_def add.assoc)
qed

lemma month_days_le: "i < 12 \<Longrightarrow> month_days y ! i \<le> 31"
  by (simp add: month_days_def nth_Cons split: nat.split)

lemma civil_of_days_small: "civil_of_days n = (y, m, d) \<Longrightarrow> m < 100 \<and> d < 100"
proof -
  assume "civil_of_days n = (y, m, d)"
  from civil_of_days_spec [OF this] have "m - 1 < 12" "m \<le> 12" "d \<le> month_days y ! (m - 1)" by auto
  moreover have "month_days y ! (m - 1) \<le> 31" by (rule month_days_le) fact
  ultimately show ?thesis by linarith
qed

text \<open>
  The calendar is right: the date computed for a day count is a date of the Gregorian
  calendar, month 1 to 12 and day within the month, leap years included, and counting the
  days up to that date gives the count back.
\<close>

theorem civil_date_is_calendar_date:
  "case civil_of_days n of (y, m, d) \<Rightarrow>
     1970 \<le> y \<and> 1 \<le> m \<and> m \<le> 12 \<and> 1 \<le> d \<and> d \<le> month_days y ! (m - 1) \<and> day_number y m d = n"
  using civil_of_days_spec [of n] by (cases "civil_of_days n") auto

section \<open>Time stamps determine the time\<close>

lemma digit_char_inject: "a < 10 \<Longrightarrow> b < 10 \<Longrightarrow> digit_char a = digit_char b \<longleftrightarrow> a = b"
  by (metis digit_val_char)

lemma two_digits_inject: "a < 100 \<Longrightarrow> b < 100 \<Longrightarrow> two_digits a = two_digits b \<longleftrightarrow> a = b"
proof -
  assume "a < 100" "b < 100"
  then have "two_digits a = two_digits b \<longleftrightarrow> a div 10 = b div 10 \<and> a mod 10 = b mod 10"
    by (simp add: two_digits_def digit_char_inject less_mult_imp_div_less)
  then show ?thesis by (metis div_mult_mod_eq)
qed

lemma two_digits_append:
  "a < 100 \<Longrightarrow> b < 100 \<Longrightarrow> two_digits a @ r = two_digits b @ r' \<longleftrightarrow> a = b \<and> r = r'"
  using two_digits_inject [of a b] by (auto simp: two_digits_def)

lemma digits_val_zeros: "digits_val (replicate k CHR ''0'' @ s) = digits_val s"
  by (induction k) (simp_all add: digits_val_def digit_val_def)

lemma pad3_inject: "0 \<le> a \<Longrightarrow> 0 \<le> b \<Longrightarrow> pad3 (dec_int a) = pad3 (dec_int b) \<longleftrightarrow> a = b"
proof
  assume "0 \<le> a" "0 \<le> b" "pad3 (dec_int a) = pad3 (dec_int b)"
  then have "digits_val (pad3 (dec_int a)) = digits_val (pad3 (dec_int b))" by simp
  with \<open>0 \<le> a\<close> \<open>0 \<le> b\<close> show "a = b" by (simp add: pad3_def digits_val_zeros dec_int_def)
qed simp

lemma rfc3339_eq:
  assumes "0 \<le> now" and "civil_of_days (nat (now div 86400000000000)) = (y, m, d)"
    and "s = nat (now div 1000000000 mod 86400)"
  shows "rfc3339 now = dec_nat y @ CHR ''-'' # two_digits m @ CHR ''-'' # two_digits d @ CHR ''T'' #
    two_digits (s div 3600) @ CHR '':'' # two_digits (s mod 3600 div 60) @ CHR '':'' # two_digits (s mod 60) @
    CHR ''.'' # pad3 (dec_int (now div 1000000 mod 1000)) @ ''Z''"
proof -
  have sec: "now sdiv 1000000000 = now div 1000000000" "now sdiv 1000000 = now div 1000000"
    using assms(1) by (cases "now = 0"; simp add: signed_divide_int_def)+
  have "nat (now sdiv 1000000000) div 86400 = nat (now div 86400000000000)"
    "nat (now sdiv 1000000000) mod 86400 = s"
    using assms(1) sec by (simp_all add: assms(3) nat_div_distrib nat_mod_distrib flip: div_mult2_eq)
  moreover have "(now sdiv 1000000) smod 1000 = now div 1000000 mod 1000"
  proof -
    have "x smod 1000 = x mod 1000" if "0 \<le> x" for x :: int
      using that by (cases "x = 0"; simp add: signed_modulo_int_def signed_divide_int_def minus_mult_div_eq_mod)
    then show ?thesis using assms(1) unfolding sec by simp
  qed
  ultimately show ?thesis using assms(2) by (simp add: rfc3339_def Let_def)
qed

text \<open>
  Time stamps determine the time to the millisecond: two readings of the clock at or
  after the epoch are written alike only if they are in the same millisecond.
\<close>

theorem rfc3339_injective:
  assumes "0 \<le> a" and "0 \<le> b" and "rfc3339 a = rfc3339 b"
  shows "a div 1000000 = b div 1000000"
proof -
  obtain y m d where A: "civil_of_days (nat (a div 86400000000000)) = (y, m, d)" by (rule prod_cases3)
  obtain y' m' d' where B: "civil_of_days (nat (b div 86400000000000)) = (y', m', d')" by (rule prod_cases3)
  define s where "s = nat (a div 1000000000 mod 86400)"
  define s' where "s' = nat (b div 1000000000 mod 86400)"
  have small: "s < 86400" "s' < 86400" by (simp_all add: s_def s'_def nat_less_iff)
  have hms: "s div 3600 < 100" "s mod 3600 div 60 < 100" "s mod 60 < 100"
    "s' div 3600 < 100" "s' mod 3600 div 60 < 100" "s' mod 60 < 100"
    using small by (simp_all add: less_mult_imp_div_less order.strict_trans [OF mod_less_divisor])
  have md: "m < 100" "d < 100" "m' < 100" "d' < 100"
    using civil_of_days_small [OF A] civil_of_days_small [OF B] by auto
  have "CHR ''-'' \<notin> set (dec_nat k)" for k
    using dec_nat_digits [of "CHR ''-''" k] by (auto simp: is_digit_def)
  then have eq: "y = y'" "m = m'" "d = d'" "s div 3600 = s' div 3600" "s mod 3600 div 60 = s' mod 3600 div 60"
    "s mod 60 = s' mod 60"
    and ms: "pad3 (dec_int (a div 1000000 mod 1000)) = pad3 (dec_int (b div 1000000 mod 1000))"
    using assms(3) unfolding rfc3339_eq [OF assms(1) A s_def] rfc3339_eq [OF assms(2) B s'_def]
    by (simp_all add: split_at_unique two_digits_append hms md dec_nat_inj)
  have "s = s'"
  proof -
    have "x = 3600 * (x div 3600) + 60 * (x mod 3600 div 60) + x mod 60" for x :: nat
    proof -
      have "x mod 3600 mod 60 = x mod 60" by (rule mod_mod_cancel) simp
      then show ?thesis
        using mult_div_mod_eq [of 3600 x] mult_div_mod_eq [of 60 "x mod 3600"] by linarith
    qed
    from this [of s] this [of s'] eq show ?thesis by simp
  qed
  moreover have "nat (a div 86400000000000) = nat (b div 86400000000000)"
    using civil_of_days_spec [OF A] civil_of_days_spec [OF B] eq by simp
  moreover have "a div 1000000 mod 1000 = b div 1000000 mod 1000"
    using ms by (simp add: pad3_inject)
  moreover have "x div 1000000 =
      86400000 * int (nat (x div 86400000000000)) + 1000 * int (nat (x div 1000000000 mod 86400)) +
      x div 1000000 mod 1000" if "0 \<le> x" for x :: int
  proof -
    have z: "z = 86400000 * (z div 86400000) + 1000 * (z div 1000 mod 86400) + z mod 1000" for z :: int
    proof -
      have "z div 86400000 = z div 1000 div 86400" using zdiv_zmult2_eq [of 86400 z 1000] by simp
      then show ?thesis
        using mult_div_mod_eq [of 1000 z] mult_div_mod_eq [of 86400 "z div 1000"] by linarith
    qed
    have d: "x div 86400000000000 = x div 1000000 div 86400000" "x div 1000000000 = x div 1000000 div 1000"
      using that by (simp_all flip: zdiv_zmult2_eq)
    have "int (nat (x div 86400000000000)) = x div 86400000000000"
      "int (nat (x div 1000000000 mod 86400)) = x div 1000000000 mod 86400"
      using that by simp_all
    then have parts: "int (nat (x div 86400000000000)) = x div 1000000 div 86400000"
      "int (nat (x div 1000000000 mod 86400)) = x div 1000000 div 1000 mod 86400"
      by (simp_all only: d)
    show ?thesis unfolding parts by (rule z)
  qed
  ultimately show ?thesis using assms(1,2) unfolding s_def s'_def by metis
qed

theorem rfc3339_injective_witness:
  "rfc3339 0 \<noteq> rfc3339 1000000"
  using rfc3339_injective [of 0 1000000] by auto

end
