(* ===== verification/Logger.thy ===== *)
theory Logger
  imports Encoding Dbl Timestamp
begin

text \<open>
  Structured JSON logging (include/uaop/common/logger.h, src/logger.cpp). A logger's stream
  is the text written to it so far; each emission takes the reading of the system clock,
  nanoseconds since the epoch, as an argument.
\<close>

section \<open>Levels and events\<close>

datatype log_level = Debug | Info | Warn | Error

fun level_code :: "log_level \<Rightarrow> nat" where
  "level_code Debug = 0"
| "level_code Info = 1"
| "level_code Warn = 2"
| "level_code Error = 3"

fun level_to_string :: "log_level \<Rightarrow> string" where
  "level_to_string Debug = ''DEBUG''"
| "level_to_string Info = ''INFO''"
| "level_to_string Warn = ''WARN''"
| "level_to_string Error = ''ERROR''"

lemma level_code_inject [simp]: "level_code a = level_code b \<longleftrightarrow> a = b"
  by (cases a; cases b) simp_all

instantiation log_level :: linorder
begin

definition less_eq_log_level :: "log_level \<Rightarrow> log_level \<Rightarrow> bool" where
  "a \<le> b \<longleftrightarrow> level_code a \<le> level_code b"

definition less_log_level :: "log_level \<Rightarrow> log_level \<Rightarrow> bool" where
  "a < b \<longleftrightarrow> level_code a < level_code b"

instance
  by standard (auto simp: less_eq_log_level_def less_log_level_def)

end

datatype field_value = FString string | FInt i64 | FDouble double | FBool bool

record log_event =
  le_level :: log_level
  le_event :: string
  le_msg :: string
  le_vehicle :: string
  le_corr :: string
  le_fields :: "(string \<times> field_value) list"
  le_emitted :: bool

record logger =
  log_service :: string
  log_out :: string
  min_level :: log_level

definition new_logger :: "string \<Rightarrow> string \<Rightarrow> log_level \<Rightarrow> logger" where
  "new_logger service out lvl = \<lparr>log_service = service, log_out = out, min_level = lvl\<rparr>"

definition new_log_event :: "log_level \<Rightarrow> string \<Rightarrow> log_event" where
  "new_log_event lvl event =
     \<lparr>le_level = lvl, le_event = event, le_msg = [], le_vehicle = [], le_corr = [],
      le_fields = [], le_emitted = False\<rparr>"

text \<open>The entry points \<open>debug\<close>, \<open>info\<close>, \<open>warn\<close> and \<open>error\<close> of a logger.\<close>

definition log_debug :: "string \<Rightarrow> log_event" where "log_debug = new_log_event Debug"
definition log_info :: "string \<Rightarrow> log_event" where "log_info = new_log_event Info"
definition log_warn :: "string \<Rightarrow> log_event" where "log_warn = new_log_event Warn"
definition log_error :: "string \<Rightarrow> log_event" where "log_error = new_log_event Error"

definition set_min_level :: "log_level \<Rightarrow> logger \<Rightarrow> logger" where
  "set_min_level lvl lg = lg\<lparr>min_level := lvl\<rparr>"

definition set_msg :: "string \<Rightarrow> log_event \<Rightarrow> log_event" where
  "set_msg text ev = ev\<lparr>le_msg := text\<rparr>"

definition set_vehicle :: "string \<Rightarrow> log_event \<Rightarrow> log_event" where
  "set_vehicle vehicle_id ev = ev\<lparr>le_vehicle := vehicle_id\<rparr>"

definition set_corr :: "string \<Rightarrow> log_event \<Rightarrow> log_event" where
  "set_corr correlation_id ev = ev\<lparr>le_corr := correlation_id\<rparr>"

definition add_field :: "string \<Rightarrow> field_value \<Rightarrow> log_event \<Rightarrow> log_event" where
  "add_field key v ev = ev\<lparr>le_fields := le_fields ev @ [(key, v)]\<rparr>"

section \<open>Escaping\<close>

definition hex_char :: "nat \<Rightarrow> char" where
  "hex_char d = (if d < 10 then char_of (48 + d) else char_of (87 + d))"

definition log_escape_char :: "char \<Rightarrow> string" where
  "log_escape_char c =
     (let n = char_code c in
      if n = 0x22 then [CHR 0x5C, CHR 0x22]
      else if n = 0x5C then [CHR 0x5C, CHR 0x5C]
      else if n = 0x0A then [CHR 0x5C, CHR ''n'']
      else if n = 0x0D then [CHR 0x5C, CHR ''r'']
      else if n = 0x09 then [CHR 0x5C, CHR ''t'']
      else if n < 0x20 then [CHR 0x5C, CHR ''u'', CHR ''0'', CHR ''0'', hex_char (n div 16), hex_char (n mod 16)]
      else [c])"

definition log_escaped :: "string \<Rightarrow> string" where
  "log_escaped s = CHR 0x22 # concat (map log_escape_char s) @ [CHR 0x22]"

section \<open>Emission\<close>

fun render_value :: "field_value \<Rightarrow> string" where
  "render_value (FString s) = log_escaped s"
| "render_value (FInt i) = dec_int i"
| "render_value (FDouble d) = print_double d"
| "render_value (FBool b) = (if b then ''true'' else ''false'')"

definition render_field :: "string \<times> field_value \<Rightarrow> string" where
  "render_field kv = '','' @ log_escaped (fst kv) @ '':'' @ render_value (snd kv)"

definition optional_member :: "string \<Rightarrow> string \<Rightarrow> string" where
  "optional_member label text = (if text = [] then [] else label @ log_escaped text)"

definition log_line :: "int \<Rightarrow> string \<Rightarrow> log_event \<Rightarrow> string" where
  "log_line now service ev =
     ''{\"ts\":'' @ log_escaped (rfc3339 now) @
     '',\"lvl\":\"'' @ level_to_string (le_level ev) @ ''\"'' @
     '',\"svc\":'' @ log_escaped service @
     optional_member '',\"vehicle\":'' (le_vehicle ev) @
     optional_member '',\"corr\":'' (le_corr ev) @
     '',\"event\":'' @ log_escaped (le_event ev) @
     optional_member '',\"msg\":'' (le_msg ev) @
     concat (map render_field (le_fields ev)) @ ''}'' @ [CHR 0x0A]"

definition log_emit :: "int \<Rightarrow> log_event \<times> logger \<Rightarrow> log_event \<times> logger" where
  "log_emit now st =
     (let (ev, lg) = st in
      if le_emitted ev then (ev, lg)
      else
        let ev' = ev\<lparr>le_emitted := True\<rparr> in
        if le_level ev < min_level lg then (ev', lg)
        else (ev', lg\<lparr>log_out := log_out lg @ log_line now (log_service lg) ev'\<rparr>))"

text \<open>
  The move constructor: the new event and the one moved from, whose strings and fields are
  left empty and whose destructor does nothing.
\<close>

definition log_move :: "log_event \<Rightarrow> log_event \<times> log_event" where
  "log_move other =
     (other, other\<lparr>le_event := [], le_msg := [], le_vehicle := [], le_corr := [], le_fields := [],
                   le_emitted := True\<rparr>)"

definition log_destroy :: "int \<Rightarrow> log_event \<times> logger \<Rightarrow> logger" where
  "log_destroy now st = (if \<not> le_emitted (fst st) then snd (log_emit now st) else snd st)"

section \<open>One line per event\<close>

text \<open>What a client does between creating an event and the end of its life.\<close>

datatype event_op =
    Set_msg string
  | Set_vehicle string
  | Set_corr string
  | Add_field string field_value
  | Emit int
  | Move int
  | Set_level log_level

fun event_step :: "event_op \<Rightarrow> log_event \<times> logger \<Rightarrow> log_event \<times> logger" where
  "event_step (Set_msg s) (ev, lg) = (set_msg s ev, lg)"
| "event_step (Set_vehicle s) (ev, lg) = (set_vehicle s ev, lg)"
| "event_step (Set_corr s) (ev, lg) = (set_corr s ev, lg)"
| "event_step (Add_field k v) (ev, lg) = (add_field k v ev, lg)"
| "event_step (Emit now) (ev, lg) = log_emit now (ev, lg)"
| "event_step (Move now) (ev, lg) = (let (new, other) = log_move ev in (new, log_destroy now (other, lg)))"
| "event_step (Set_level lvl) (ev, lg) = (ev, set_min_level lvl lg)"

definition event_life :: "event_op list \<Rightarrow> int \<Rightarrow> log_event \<times> logger \<Rightarrow> logger" where
  "event_life ops now st = log_destroy now (fold event_step ops st)"

fun is_emit :: "event_op \<Rightarrow> bool" where
  "is_emit (Emit _) = True"
| "is_emit _ = False"

fun emit_time :: "event_op list \<Rightarrow> int \<Rightarrow> int" where
  "emit_time [] tend = tend"
| "emit_time (Emit now # ops) tend = now"
| "emit_time (op # ops) tend = emit_time ops tend"

lemmas event_ops = set_msg_def set_vehicle_def set_corr_def add_field_def set_min_level_def
  log_move_def log_destroy_def log_emit_def

lemma log_line_emitted [simp]: "log_line now service (ev\<lparr>le_emitted := b\<rparr>) = log_line now service ev"
  by (simp add: log_line_def)

lemma event_step_emitted:
  "le_emitted ev \<Longrightarrow> event_step op (ev, lg) = (ev', lg') \<Longrightarrow> le_emitted ev' \<and> log_out lg' = log_out lg"
  by (cases op) (auto simp: event_ops)

lemma event_life_emitted:
  "le_emitted ev \<Longrightarrow> log_out (event_life ops tend (ev, lg)) = log_out lg"
proof (induction ops arbitrary: ev lg)
  case Nil
  then show ?case by (simp add: event_life_def event_ops)
next
  case (Cons op ops)
  obtain ev' lg' where "event_step op (ev, lg) = (ev', lg')" by fastforce
  with Cons event_step_emitted [OF Cons.prems this] show ?case by (simp add: event_life_def)
qed

lemma event_step_quiet:
  "\<not> is_emit op \<Longrightarrow> \<not> le_emitted ev \<Longrightarrow> event_step op (ev, lg) = (ev', lg') \<Longrightarrow>
   \<not> le_emitted ev' \<and> log_out lg' = log_out lg \<and> log_service lg' = log_service lg \<and> le_level ev' = le_level ev"
  by (cases op) (auto simp: event_ops)

lemma emit_time_quiet: "\<not> is_emit op \<Longrightarrow> emit_time (op # ops) tend = emit_time ops tend"
  by (cases op) auto

lemma event_life_fresh:
  "\<not> le_emitted ev \<Longrightarrow>
   log_out (event_life ops tend (ev, lg)) =
   log_out lg @
   (let (ev', lg') = fold event_step (takeWhile (\<lambda>op. \<not> is_emit op) ops) (ev, lg)
    in if le_level ev < min_level lg' then []
       else log_line (emit_time ops tend) (log_service lg) ev')"
proof (induction ops arbitrary: ev lg)
  case Nil
  then show ?case by (simp add: event_life_def log_destroy_def log_emit_def)
next
  case (Cons op ops)
  show ?case
  proof (cases "is_emit op")
    case True
    then obtain now where op: "op = Emit now" by (cases op) auto
    obtain ev' lg' where step: "event_step op (ev, lg) = (ev', lg')" by fastforce
    then have "log_out (event_life (op # ops) tend (ev, lg)) = log_out lg'"
      using event_life_emitted [of ev' ops tend lg'] Cons.prems
      by (auto simp: event_life_def op log_emit_def Let_def split: if_splits)
    then show ?thesis using step Cons.prems by (auto simp: op log_emit_def Let_def split: if_splits)
  next
    case False
    obtain ev' lg' where step: "event_step op (ev, lg) = (ev', lg')" by fastforce
    have "event_life (op # ops) tend (ev, lg) = event_life ops tend (ev', lg')"
      by (simp add: event_life_def step)
    then show ?thesis
      using Cons.IH [of ev' lg'] event_step_quiet [OF False Cons.prems step] False
      by (simp add: step emit_time_quiet split: prod.splits)
  qed
qed

text \<open>
  C13. An event is logged exactly once: whatever the client does with it, setting its parts,
  moving it, emitting it any number of times or never, its life adds to the stream one line
  with the contents it had at the first emission, or at its destruction when it was never
  emitted, and adds nothing when its level is then below the logger's minimum.
\<close>

theorem event_is_logged_exactly_once:
  "log_out (event_life ops tend (new_log_event lvl event, lg)) =
   log_out lg @
   (let (ev', lg') = fold event_step (takeWhile (\<lambda>op. \<not> is_emit op) ops) (new_log_event lvl event, lg)
    in if lvl < min_level lg' then [] else log_line (emit_time ops tend) (log_service lg) ev')"
  using event_life_fresh [of "new_log_event lvl event" ops tend lg] by (simp add: new_log_event_def)

section \<open>No control characters\<close>

abbreviation printable :: "string \<Rightarrow> bool" where
  "printable s \<equiv> list_all (\<lambda>c. 32 \<le> char_code c) s"

lemma char_code_char_of: "n < 256 \<Longrightarrow> char_code (char_of n) = n"
  by (simp add: char_code_def)

lemma printable_escape_char: "printable (log_escape_char c)"
proof -
  have "32 \<le> char_code (hex_char d)" if "d < 16" for d
    using that by (simp add: hex_char_def char_code_char_of)
  moreover have "char_code c div 16 < 16" using char_code_less [of c] by (simp add: less_mult_imp_div_less)
  ultimately show ?thesis by (simp add: log_escape_char_def Let_def)
qed

lemma printable_escaped [simp]: "printable (log_escaped s)"
  using printable_escape_char by (induction s) (auto simp: log_escaped_def)

lemma printable_dec_nat [simp]: "printable (dec_nat n)"
  using dec_nat_digits [of _ n] by (fastforce simp: list_all_iff is_digit_def)

lemma printable_dec_int [simp]: "printable (dec_int i)"
  by (simp add: dec_int_def)

lemma printable_strip: "printable s \<Longrightarrow> printable (strip_zeros s)"
  by (auto simp: strip_zeros_def list_all_iff dest: set_dropWhileD)

lemma printable_with_fraction: "printable (with_fraction a (zero_padded k n))"
proof -
  have "printable (replicate m CHR ''0'')" for m by (induction m) simp_all
  then have "printable (strip_zeros (zero_padded k n))"
    by (intro printable_strip) (simp add: zero_padded_def)
  then show ?thesis by (simp add: with_fraction_def)
qed

lemma printable_double [simp]: "printable (print_double d)"
  by (simp add: print_double_def print_g_def printable_with_fraction Let_def
      split: dbl_value.split prod.split)

lemma printable_field: "printable (render_field kv)"
  by (cases "snd kv") (simp_all add: render_field_def)

lemma printable_fields [simp]: "printable (concat (map render_field fs))"
  using printable_field by (induction fs) auto

lemma printable_optional [simp]: "printable label \<Longrightarrow> printable (optional_member label text)"
  by (simp add: optional_member_def)

lemma printable_level [simp]: "printable (level_to_string l)"
  by (cases l) simp_all

lemma log_line_body:
  "\<exists>body. log_line now service ev = body @ [CHR 0x0A] \<and> printable body"
  unfolding log_line_def append_assoc [symmetric]
  by (rule exI, rule conjI, rule refl) simp

text \<open>
  A record is one line: it ends with a line feed and holds no other, nor any control
  character, whatever the event's texts, keys and values contain.
\<close>

theorem log_record_is_one_line:
  "\<exists>body. log_line now service ev = body @ [CHR 0x0A] \<and> list_all (\<lambda>c. 32 \<le> char_code c) body"
  by (rule log_line_body)

section \<open>Reading texts back\<close>

text \<open>
  A reader of JSON strings (RFC 8259, escapes up to U+00FF), which refuses control
  characters inside a string.
\<close>

definition hex_val :: "char \<Rightarrow> nat option" where
  "hex_val c =
     (let n = char_code c in
      if 48 \<le> n \<and> n \<le> 57 then Some (n - 48)
      else if 97 \<le> n \<and> n \<le> 102 then Some (n - 87)
      else if 65 \<le> n \<and> n \<le> 70 then Some (n - 55) else None)"

definition simple_escape :: "char \<Rightarrow> char option" where
  "simple_escape e =
     (if e = CHR 0x22 \<or> e = CHR 0x5C \<or> e = CHR ''/'' then Some e
      else if e = CHR ''n'' then Some (CHR 0x0A)
      else if e = CHR ''r'' then Some (CHR 0x0D)
      else if e = CHR ''t'' then Some (CHR 0x09)
      else if e = CHR ''b'' then Some (CHR 0x08)
      else if e = CHR ''f'' then Some (CHR 0x0C) else None)"

fun read_string :: "string \<Rightarrow> (string \<times> string) option" where
  "read_string [] = None"
| "read_string (c # cs) =
     (if c = CHR 0x22 then Some ([], cs)
      else if c = CHR 0x5C then
        (case cs of
           [] \<Rightarrow> None
         | e # r \<Rightarrow>
             (case simple_escape e of
                Some x \<Rightarrow> map_option (apfst (Cons x)) (read_string r)
              | None \<Rightarrow>
                  (case r of
                     h1 # h2 # h3 # h4 # r' \<Rightarrow>
                       (if e = CHR ''u'' \<and> h1 = CHR ''0'' \<and> h2 = CHR ''0''
                        then (case (hex_val h3, hex_val h4) of
                                (Some a, Some b) \<Rightarrow>
                                  map_option (apfst (Cons (char_of (16 * a + b)))) (read_string r')
                              | _ \<Rightarrow> None)
                        else None)
                   | _ \<Rightarrow> None)))
      else if char_code c < 32 then None
      else map_option (apfst (Cons c)) (read_string cs))"

definition read_json_string :: "string \<Rightarrow> (string \<times> string) option" where
  "read_json_string s = (if s \<noteq> [] \<and> hd s = CHR 0x22 then read_string (tl s) else None)"

lemma hex_val_char: "d < 16 \<Longrightarrow> hex_val (hex_char d) = Some d"
  by (simp add: hex_val_def hex_char_def char_code_char_of)

lemma char_code_eq: "char_code c = n \<longleftrightarrow> n < 256 \<and> c = char_of n"
  using char_code_less [of c] by (auto simp: char_code_def)

lemma read_escaped_char:
  "read_string (log_escape_char c @ r) = map_option (apfst (Cons c)) (read_string r)"
proof -
  have named: "char_code c = char_code d \<longleftrightarrow> c = d" for d by (simp add: char_code_def)
  consider "c = CHR 0x22" | "c = CHR 0x5C" | "c = CHR 0x0A" | "c = CHR 0x0D" | "c = CHR 0x09"
    | (control) "char_code c < 32" "c \<notin> {CHR 0x0A, CHR 0x0D, CHR 0x09}"
    | (plain) "32 \<le> char_code c" "c \<noteq> CHR 0x22" "c \<noteq> CHR 0x5C"
    by (cases "char_code c < 32") auto
  then show ?thesis
  proof cases
    case control
    have codes: "char_code c \<noteq> 0x0A" "char_code c \<noteq> 0x0D" "char_code c \<noteq> 0x09"
      using control(2) named [of "CHR 0x0A"] named [of "CHR 0x0D"] named [of "CHR 0x09"] by auto
    have "char_code c div 16 < 16" "char_code c mod 16 < 16"
      using char_code_less [of c] by (simp_all add: less_mult_imp_div_less)
    moreover have "char_of (16 * (char_code c div 16) + char_code c mod 16) = c"
      by (simp only: mult_div_mod_eq) (simp add: char_code_def)
    ultimately show ?thesis
      using control(1) codes by (simp add: log_escape_char_def Let_def simple_escape_def hex_val_char)
  next
    case plain
    have "char_code c \<noteq> 0x22" "char_code c \<noteq> 0x5C"
      using plain(2,3) named [of "CHR 0x22"] named [of "CHR 0x5C"] by auto
    then show ?thesis using plain by (simp add: log_escape_char_def Let_def)
  qed (simp_all add: log_escape_char_def simple_escape_def)
qed

lemma read_log_escaped: "read_json_string (log_escaped s @ rest) = Some (s, rest)"
proof -
  have "read_string (concat (map log_escape_char s) @ CHR 0x22 # rest) = Some (s, rest)"
    by (induction s) (auto simp: read_escaped_char)
  then show ?thesis by (simp add: read_json_string_def log_escaped_def)
qed

text \<open>
  Texts survive logging: a JSON reader gets back every text the logger writes, whatever
  bytes it holds, and knows where it ends.
\<close>

theorem logged_text_reads_back: "read_json_string (log_escaped s @ rest) = Some (s, rest)"
  by (rule read_log_escaped)

lemma log_escaped_unique:
  assumes "log_escaped a @ r = log_escaped b @ r'"
  shows "a = b \<and> r = r'"
proof -
  have "Some (a, r) = read_json_string (log_escaped a @ r)" by (rule read_log_escaped [symmetric])
  also have "\<dots> = read_json_string (log_escaped b @ r')" by (rule arg_cong [OF assms])
  also have "\<dots> = Some (b, r')" by (rule read_log_escaped)
  finally show ?thesis by simp
qed

interpretation log_text: prefix_code log_escaped
  by (unfold_locales, erule log_escaped_unique)

section \<open>Numbers\<close>

text \<open>
  A NaN or an infinity is written as a bare word, which no JSON reader accepts as a
  value: a field with one makes the whole record unreadable.
\<close>

theorem non_finite_field_is_not_json:
  assumes "dbl_exponent d = 2047"
  shows "render_field (key, FDouble d) \<in>
    (\<lambda>w. '','' @ log_escaped key @ '':'' @ w) ` {''nan'', ''-nan'', ''inf'', ''-inf''}"
  using assms by (auto simp: render_field_def print_double_def dbl_decode_def Let_def)

theorem non_finite_field_is_not_json_witness:
  "render_field (''x'', FDouble 0x7FF0000000000000) \<in>
    (\<lambda>w. '','' @ log_escaped ''x'' @ '':'' @ w) ` {''nan'', ''-nan'', ''inf'', ''-inf''}"
  by (rule non_finite_field_is_not_json) (simp add: dbl_exponent_def)

end
