(* ===== verification/Logger_Threads.thy ===== *)
theory Logger_Threads
  imports Logger
begin

text \<open>
  Several threads that log to one stream (\<open>LogEvent::emit\<close> in src/logger.cpp). The logger has
  no lock: \<open>emit\<close> reads the minimum level once, atomically, and then writes its record piece by
  piece. A synchronized standard stream, such as the standard output, takes the characters of
  concurrent writers without a data race but in any order between writers, so a step writes
  one character. Each event belongs to one thread.
\<close>

section \<open>Steps\<close>

record log_threads =
  lt_logger :: logger
  unwritten :: "nat \<Rightarrow> string option"  \<comment> \<open>what is left of the record a thread is writing\<close>

datatype lt_action =
    Lt_begin nat int log_event   \<comment> \<open>thread, clock reading, event: \<open>emit\<close> up to the first piece\<close>
  | Lt_write nat char
  | Lt_end nat
  | Lt_level log_level           \<comment> \<open>\<open>set_min_level\<close>, by any thread\<close>

definition passes :: "logger \<Rightarrow> log_event \<Rightarrow> bool" where
  "passes lg ev \<longleftrightarrow> \<not> le_emitted ev \<and> \<not> le_level ev < min_level lg"

inductive lt_step :: "lt_action \<Rightarrow> log_threads \<Rightarrow> log_threads \<Rightarrow> bool" where
  lt_begin: "unwritten s t = None \<Longrightarrow> passes (lt_logger s) ev \<Longrightarrow>
    lt_step (Lt_begin t now ev) s
      (s\<lparr>unwritten := (unwritten s)(t \<mapsto> log_line now (log_service (lt_logger s)) ev)\<rparr>)"
| lt_skip: "unwritten s t = None \<Longrightarrow> \<not> passes (lt_logger s) ev \<Longrightarrow> lt_step (Lt_begin t now ev) s s"
| lt_write: "unwritten s t = Some (c # cs) \<Longrightarrow>
    lt_step (Lt_write t c) s
      (s\<lparr>lt_logger := (lt_logger s)\<lparr>log_out := log_out (lt_logger s) @ [c]\<rparr>,
         unwritten := (unwritten s)(t \<mapsto> cs)\<rparr>)"
| lt_end: "unwritten s t = Some [] \<Longrightarrow> lt_step (Lt_end t) s (s\<lparr>unwritten := (unwritten s)(t := None)\<rparr>)"
| lt_level: "lt_step (Lt_level lvl) s (s\<lparr>lt_logger := set_min_level lvl (lt_logger s)\<rparr>)"

inductive lt_path :: "log_threads \<Rightarrow> lt_action list \<Rightarrow> log_threads \<Rightarrow> bool" where
  lt_nil: "lt_path s [] s"
| lt_cons: "lt_step a s s1 \<Longrightarrow> lt_path s1 tr s' \<Longrightarrow> lt_path s (a # tr) s'"

inductive_simps lt_path_Nil [simp]: "lt_path s [] s'"
inductive_simps lt_path_Cons [simp]: "lt_path s (a # tr) s'"
inductive_simps lt_step_simps [simp]:
  "lt_step (Lt_begin t now ev) s s'" "lt_step (Lt_write t c) s s'" "lt_step (Lt_end t) s s'"
  "lt_step (Lt_level lvl) s s'"
inductive_cases lt_stepE: "lt_step a s s'"

definition lt_quiet :: "log_threads \<Rightarrow> bool" where
  "lt_quiet s \<longleftrightarrow> unwritten s = (\<lambda>_. None)"

lemma lt_path_append: "lt_path s tr1 s1 \<Longrightarrow> lt_path s1 tr2 s2 \<Longrightarrow> lt_path s (tr1 @ tr2) s2"
  by (induction rule: lt_path.induct) auto

text \<open>A thread alone is \<open>log_emit\<close>.\<close>

lemma write_all:
  "unwritten s t = Some cs \<Longrightarrow>
   lt_path s (map (Lt_write t) cs @ [Lt_end t])
     (s\<lparr>lt_logger := (lt_logger s)\<lparr>log_out := log_out (lt_logger s) @ cs\<rparr>, unwritten := (unwritten s)(t := None)\<rparr>)"
proof (induction cs arbitrary: s)
  case (Cons c cs)
  define s1 where "s1 = s\<lparr>lt_logger := (lt_logger s)\<lparr>log_out := log_out (lt_logger s) @ [c]\<rparr>,
    unwritten := (unwritten s)(t \<mapsto> cs)\<rparr>"
  have "lt_step (Lt_write t c) s s1" using Cons.prems by (simp add: s1_def)
  moreover have "unwritten s1 t = Some cs" by (simp add: s1_def)
  from Cons.IH [OF this] have "lt_path s1 (map (Lt_write t) cs @ [Lt_end t])
     (s\<lparr>lt_logger := (lt_logger s)\<lparr>log_out := log_out (lt_logger s) @ c # cs\<rparr>, unwritten := (unwritten s)(t := None)\<rparr>)"
    by (simp add: s1_def del: fun_upd_apply)
  ultimately show ?case unfolding list.map append_Cons by (rule lt_cons)
qed simp

lemma undisturbed_emit:
  assumes "unwritten s t = None" "passes (lt_logger s) ev"
  shows "lt_path s (Lt_begin t now ev # map (Lt_write t) (log_line now (log_service (lt_logger s)) ev) @ [Lt_end t])
    (s\<lparr>lt_logger := snd (log_emit now (ev, lt_logger s))\<rparr>)"
proof -
  let ?l = "log_line now (log_service (lt_logger s)) ev"
  define s1 where "s1 = s\<lparr>unwritten := (unwritten s)(t \<mapsto> ?l)\<rparr>"
  have "s\<lparr>lt_logger := snd (log_emit now (ev, lt_logger s))\<rparr> =
      s1\<lparr>lt_logger := (lt_logger s1)\<lparr>log_out := log_out (lt_logger s1) @ ?l\<rparr>, unwritten := (unwritten s1)(t := None)\<rparr>"
    using assms by (simp add: s1_def log_emit_def passes_def Let_def fun_upd_idem)
  moreover have "lt_step (Lt_begin t now ev) s s1" using assms by (simp add: s1_def)
  moreover have "unwritten s1 t = Some ?l" by (simp add: s1_def)
  ultimately show ?thesis using write_all [of s1 t ?l] by (auto intro: lt_cons)
qed

section \<open>What reaches the stream\<close>

text \<open>The characters written along a trace, each with its thread, and the records begun.\<close>

fun stamped :: "lt_action list \<Rightarrow> (nat \<times> char) list" where
  "stamped [] = []"
| "stamped (Lt_write t c # tr) = (t, c) # stamped tr"
| "stamped (_ # tr) = stamped tr"

fun begun :: "logger \<Rightarrow> lt_action list \<Rightarrow> (nat \<times> string) list" where
  "begun lg [] = []"
| "begun lg (Lt_begin t now ev # tr) =
     (if passes lg ev then (t, log_line now (log_service lg) ev) # begun lg tr else begun lg tr)"
| "begun lg (Lt_level l # tr) = begun (set_min_level l lg) tr"
| "begun lg (_ # tr) = begun lg tr"

definition of_thread :: "nat \<Rightarrow> (nat \<times> 'a) list \<Rightarrow> 'a list" where
  "of_thread t xs = map snd (filter (\<lambda>x. fst x = t) xs)"

lemma of_thread_simps [simp]:
  "of_thread t [] = []" "of_thread t ((t', x) # xs) = (if t' = t then x # of_thread t xs else of_thread t xs)"
  by (simp_all add: of_thread_def)

definition rest_of :: "nat \<Rightarrow> log_threads \<Rightarrow> string" where
  "rest_of t s = (case unwritten s t of None \<Rightarrow> [] | Some cs \<Rightarrow> cs)"

lemma passes_out [simp]: "passes (lg\<lparr>log_out := out\<rparr>) ev = passes lg ev"
  by (simp add: passes_def)

lemma begun_out [simp]: "begun (lg\<lparr>log_out := out\<rparr>) tr = begun lg tr"
proof (induction tr arbitrary: lg)
  case (Cons a tr)
  have "set_min_level l (lg\<lparr>log_out := out\<rparr>) = (set_min_level l lg)\<lparr>log_out := out\<rparr>" for l
    by (simp add: set_min_level_def)
  then show ?case using Cons by (cases a) simp_all
qed simp

lemma thread_writes_its_records:
  assumes "lt_path s tr s'"
  shows "of_thread t (stamped tr) @ rest_of t s' = rest_of t s @ concat (of_thread t (begun (lt_logger s) tr))"
  using assms
proof (induction rule: lt_path.induct)
  case (lt_cons a s s1 tr s')
  from lt_cons.hyps(1) lt_cons.IH show ?case
    by cases (auto simp: rest_of_def set_min_level_def split: option.splits)
qed simp

lemma output_stamped: "lt_path s tr s' \<Longrightarrow> log_out (lt_logger s') = log_out (lt_logger s) @ map snd (stamped tr)"
proof (induction rule: lt_path.induct)
  case (lt_cons a s s1 tr s')
  from lt_cons.hyps(1) lt_cons.IH show ?case by cases (simp_all add: set_min_level_def)
qed simp

section \<open>Lines\<close>

abbreviation LF :: char where "LF \<equiv> CHR 0x0A"

lemma log_line_feeds: "count_list (log_line now service ev) LF = 1"
proof -
  obtain body where body: "log_line now service ev = body @ [LF]" "printable body" using log_line_body by blast
  then have "LF \<notin> set body" by (auto simp: list_all_iff char_code_def)
  then show ?thesis by (simp add: body(1) count_list_0_iff)
qed

lemma count_by_thread:
  "finite T \<Longrightarrow> fst ` set ws \<subseteq> T \<Longrightarrow> count_list (map snd ws) c = (\<Sum>t \<in> T. count_list (of_thread t ws) c)"
proof (induction ws)
  case (Cons w ws)
  obtain u x where w: "w = (u, x)" by (cases w)
  have "(\<Sum>t \<in> T. count_list (of_thread t (w # ws)) c) =
      (\<Sum>t \<in> T. (if t = u \<and> x = c then 1 else 0) + count_list (of_thread t ws) c)"
    by (rule sum.cong) (auto simp: w)
  also have "\<dots> = (\<Sum>t \<in> T. if t = u \<and> x = c then 1 else 0) + count_list (map snd ws) c"
    using Cons by (simp add: sum.distrib)
  also have "(\<Sum>t \<in> T. if t = u \<and> x = c then 1 else 0 :: nat) = (if x = c then 1 else 0)"
    using Cons.prems by (auto simp: w)
  finally show ?case by (simp add: w)
qed simp

lemma length_by_thread:
  "finite T \<Longrightarrow> fst ` set xs \<subseteq> T \<Longrightarrow> length xs = (\<Sum>t \<in> T. length (of_thread t xs))"
proof (induction xs)
  case (Cons w xs)
  obtain u x where w: "w = (u, x)" by (cases w)
  have "(\<Sum>t \<in> T. length (of_thread t (w # xs))) = (\<Sum>t \<in> T. (if t = u then 1 else 0) + length (of_thread t xs))"
    by (rule sum.cong) (auto simp: w)
  then show ?case using Cons by (simp add: w sum.distrib)
qed simp

lemma begun_feeds: "r \<in> set (begun lg tr) \<Longrightarrow> count_list (snd r) LF = 1"
  by (induction lg tr rule: begun.induct) (auto simp: log_line_feeds split: if_splits)

lemma count_concat_feeds: "(\<And>r. r \<in> set rs \<Longrightarrow> count_list r LF = 1) \<Longrightarrow> count_list (concat rs) LF = length rs"
  by (induction rs) auto


text \<open>A state to run the theorems at: an idle logger at level information.\<close>

definition idle_logger :: log_threads where
  "idle_logger = \<lparr>lt_logger = new_logger ''s'' [] Info, unwritten = (\<lambda>_. None)\<rparr>"

lemma idle_logger_passes:
  "lt_quiet idle_logger" "unwritten idle_logger t = None" "passes (lt_logger idle_logger) (log_info name)"
  by (simp_all add: idle_logger_def new_logger_def lt_quiet_def passes_def log_info_def new_log_event_def)


section \<open>Torn records\<close>

lemma log_line_opens: "\<exists>rest. log_line now service ev = ''{\"'' @ rest"
  by (simp add: log_line_def)

text \<open>
  C16. Whole records are not promised: from every quiet state two threads that log at the same
  time can leave a text of which no record is the beginning, although both emissions have
  finished.
\<close>

theorem records_can_be_torn:
  assumes "lt_quiet s" and "t1 \<noteq> t2" and "passes (lt_logger s) ev1" "passes (lt_logger s) ev2"
  shows "\<exists>tr s' torn. lt_path s tr s' \<and> lt_quiet s' \<and>
           begun (lt_logger s) tr = [(t1, log_line now1 (log_service (lt_logger s)) ev1),
                                     (t2, log_line now2 (log_service (lt_logger s)) ev2)] \<and>
           log_out (lt_logger s') = log_out (lt_logger s) @ torn \<and>
           (\<nexists>now service ev rest. torn = log_line now service ev @ rest)"
proof -
  let ?l1 = "log_line now1 (log_service (lt_logger s)) ev1"
  let ?l2 = "log_line now2 (log_service (lt_logger s)) ev2"
  obtain r1 where r1: "?l1 = ''{'' @ r1" using log_line_opens by force
  obtain r2 where r2: "?l2 = ''{'' @ r2" using log_line_opens by force
  let ?heads = "[Lt_begin t1 now1 ev1, Lt_begin t2 now2 ev2, Lt_write t1 CHR ''{'', Lt_write t2 CHR ''{'']"
  let ?tails = "(map (Lt_write t1) r1 @ [Lt_end t1]) @ (map (Lt_write t2) r2 @ [Lt_end t2])"
  define s2 where "s2 = s\<lparr>lt_logger := (lt_logger s)\<lparr>log_out := log_out (lt_logger s) @ ''{{''\<rparr>,
    unwritten := (unwritten s)(t1 \<mapsto> r1, t2 \<mapsto> r2)\<rparr>"
  define s3 where "s3 = s2\<lparr>lt_logger := (lt_logger s2)\<lparr>log_out := log_out (lt_logger s2) @ r1\<rparr>,
    unwritten := (unwritten s2)(t1 := None)\<rparr>"
  define s4 where "s4 = s3\<lparr>lt_logger := (lt_logger s3)\<lparr>log_out := log_out (lt_logger s3) @ r2\<rparr>,
    unwritten := (unwritten s3)(t2 := None)\<rparr>"
  have "lt_path s ?heads s2"
    using assms r1 r2 by (auto simp: s2_def lt_quiet_def passes_def fun_eq_iff)
  moreover have "lt_path s2 (map (Lt_write t1) r1 @ [Lt_end t1]) s3"
    unfolding s3_def using assms(2) by (intro write_all) (simp add: s2_def)
  moreover have "lt_path s3 (map (Lt_write t2) r2 @ [Lt_end t2]) s4"
    unfolding s4_def using assms(2) by (intro write_all) (simp add: s3_def s2_def)
  ultimately have "lt_path s (?heads @ ?tails) s4" by (blast intro: lt_path_append)
  moreover have "lt_quiet s4"
    using assms(1) by (auto simp: lt_quiet_def s4_def s3_def s2_def fun_eq_iff)
  moreover have "begun lg (?tails @ tr) = begun lg tr" for lg tr
    by (induction r1; induction r2) simp_all
  from this [of _ "[]"] have "begun (lt_logger s) (?heads @ ?tails) = [(t1, ?l1), (t2, ?l2)]"
    using assms(3,4) by simp
  moreover have "log_out (lt_logger s4) = log_out (lt_logger s) @ (''{{'' @ r1 @ r2)"
    by (simp add: s4_def s3_def s2_def)
  moreover have "''{{'' @ r1 @ r2 \<noteq> log_line now service ev @ rest" for now service ev rest
    using log_line_opens [of now service ev] by auto
  ultimately show ?thesis by blast
qed

theorem records_can_be_torn_witness:
  "\<exists>tr s' torn. lt_path idle_logger tr s' \<and> lt_quiet s' \<and>
     length (begun (lt_logger idle_logger) tr) = 2 \<and> log_out (lt_logger s') = torn \<and>
     (\<nexists>now service ev rest. torn = log_line now service ev @ rest)"
proof -
  have "log_out (lt_logger idle_logger) = []" by (simp add: idle_logger_def new_logger_def)
  with records_can_be_torn [OF idle_logger_passes(1) _ idle_logger_passes(3) idle_logger_passes(3), of 1 2 0 "''a''" 0 "''b''"]
  show ?thesis by fastforce
qed

end
