(* ===== verification/Health.thy ===== *)
theory Health
  imports Encoding
begin

text \<open>
  The health registry (include/uaop/common/health.h, src/health.cpp): named checks,
  the worst state over all of them, and the JSON report of a service's health endpoint.
\<close>

section \<open>States\<close>

datatype health_state = Health_Ok | Health_Degraded | Health_Fail

fun health_code :: "health_state \<Rightarrow> nat" where
  "health_code Health_Ok = 0"
| "health_code Health_Degraded = 1"
| "health_code Health_Fail = 2"

fun health_to_string :: "health_state \<Rightarrow> string" where
  "health_to_string Health_Ok = ''OK''"
| "health_to_string Health_Degraded = ''DEGRADED''"
| "health_to_string Health_Fail = ''FAIL''"

text \<open>The order of the underlying codes, which \<open>overall\<close> compares by.\<close>

lemma health_code_inject [simp]: "health_code a = health_code b \<longleftrightarrow> a = b"
  by (cases a; cases b) simp_all

instantiation health_state :: linorder
begin

definition less_eq_health_state :: "health_state \<Rightarrow> health_state \<Rightarrow> bool" where
  "a \<le> b \<longleftrightarrow> health_code a \<le> health_code b"

definition less_health_state :: "health_state \<Rightarrow> health_state \<Rightarrow> bool" where
  "a < b \<longleftrightarrow> health_code a < health_code b"

instance
  by standard (auto simp: less_eq_health_state_def less_health_state_def)

end

lemma Health_Ok_least [simp]: "Health_Ok \<le> s"
  by (simp add: less_eq_health_state_def)

section \<open>The registry\<close>

record check =
  check_state :: health_state
  check_reason :: string

type_synonym checks = "(string \<times> check) list"

definition health_set :: "string \<Rightarrow> health_state \<Rightarrow> string \<Rightarrow> checks \<Rightarrow> checks" where
  "health_set name st reason checks = om_put name \<lparr>check_state = st, check_reason = reason\<rparr> checks"

definition worse :: "health_state \<Rightarrow> health_state \<Rightarrow> health_state" where
  "worse worst st = (if health_code st > health_code worst then st else worst)"

definition overall :: "checks \<Rightarrow> health_state" where
  "overall checks = foldl (\<lambda>worst (name, c). worse worst (check_state c)) Health_Ok checks"

section \<open>The report\<close>

definition quote :: char where "quote = CHR 0x22"
definition backslash :: char where "backslash = CHR 0x5C"

lemma quote_backslash [simp]: "quote \<noteq> backslash" "backslash \<noteq> quote"
  by (simp_all add: quote_def backslash_def)

definition json_escape_char :: "char \<Rightarrow> string" where
  "json_escape_char c = (if c = quote \<or> c = backslash then [backslash, c] else [c])"

definition json_escaped :: "string \<Rightarrow> string" where
  "json_escaped s = quote # concat (map json_escape_char s) @ [quote]"

text \<open>One entry of the \<open>checks\<close> object, as the body of the loop of \<open>render_json\<close> prints it.\<close>

definition render_check :: "string \<times> check \<Rightarrow> string" where
  "render_check e =
     json_escaped (fst e) @ '':{\"state\":\"'' @ health_to_string (check_state (snd e)) @
     ''\",\"reason\":'' @ json_escaped (check_reason (snd e)) @ ''}''"

definition render_step ::
  "health_state \<times> bool \<times> string \<Rightarrow> string \<times> check \<Rightarrow> health_state \<times> bool \<times> string" where
  "render_step acc e =
     (case acc of (worst, first, out) \<Rightarrow>
        (worse worst (check_state (snd e)), False,
         out @ (if first then [] else '','') @ render_check e))"

definition render_json :: "checks \<Rightarrow> string" where
  "render_json checks =
     (let (worst, first, checks_json) = foldl render_step (Health_Ok, True, ''{'') checks
      in ''{\"status\":\"'' @ health_to_string worst @ ''\",\"checks\":'' @ (checks_json @ ''}'') @ ''}'')"

section \<open>Aggregation\<close>

lemma worse_max [simp]: "worse = max"
  by (auto simp: fun_eq_iff worse_def max_def less_eq_health_state_def)

lemma overall_Max: "overall checks = Max (insert Health_Ok (check_state ` snd ` set checks))"
proof -
  have "overall checks = fold max (map (check_state \<circ> snd) checks) Health_Ok"
    unfolding overall_def
    by (induction checks rule: rev_induct) (auto simp: max.commute)
  then show ?thesis
    by (simp add: Max.set_eq_fold [symmetric] image_comp)
qed

definition health_set_all :: "(string \<times> health_state \<times> string) list \<Rightarrow> checks \<Rightarrow> checks" where
  "health_set_all calls checks = fold (\<lambda>(name, st, reason). health_set name st reason) calls checks"

definition reported :: "(string \<times> health_state \<times> string) list \<Rightarrow> (string \<times> check) list" where
  "reported calls = map (\<lambda>(name, st, reason). (name, \<lparr>check_state = st, check_reason = reason\<rparr>)) calls"

lemma health_set_all_puts:
  "health_set_all calls checks = fold (\<lambda>(k, v). om_put k v) (reported calls) checks"
  by (induction calls arbitrary: checks) (auto simp: health_set_all_def reported_def health_set_def)

lemma health_set_all_sorted: "om_sorted checks \<Longrightarrow> om_sorted (health_set_all calls checks)"
  unfolding health_set_all_puts by (rule om.ok_put_all)

lemma health_set_all_lookup:
  "om_sorted checks \<Longrightarrow>
   map_of (health_set_all calls checks) = map_of checks ++ map_of (rev (reported calls))"
  unfolding health_set_all_puts
  by (rule ext) (simp add: om.find_put_all map_add_def)

lemma values_ran: "om_sorted checks \<Longrightarrow> snd ` set checks = ran (map_of checks)"
  by (metis om_sorted_distinct ran_distinct)

text \<open>
  The overall state of a registry is the worst among the last report of each check,
  and OK when nothing has been reported: what a check reported earlier, and the order the
  checks report in, do not matter.
\<close>

theorem overall_is_worst_current_report:
  "overall (health_set_all calls []) =
   Max (insert Health_Ok (check_state ` ran (map_of (rev (reported calls)))))"
  using values_ran [OF health_set_all_sorted [OF om_sorted_Nil], of calls]
    health_set_all_lookup [OF om_sorted_Nil, of calls]
  by (simp add: overall_Max)

text \<open>
  Two histories of reports with the same last report per check leave the same registry,
  so they render the same document, byte for byte.
\<close>

theorem health_registry_is_history_independent:
  assumes "map_of (rev (reported calls)) = map_of (rev (reported calls'))"
  shows "health_set_all calls [] = health_set_all calls' []"
  using assms by (intro om_ext health_set_all_sorted) (simp_all add: health_set_all_lookup)

theorem health_registry_is_history_independent_witness:
  "health_set_all [(''nats'', Health_Fail, ''down''), (''db'', Health_Ok, []), (''nats'', Health_Ok, [])] [] =
   health_set_all [(''nats'', Health_Ok, []), (''db'', Health_Ok, [])] []"
  by (rule health_registry_is_history_independent) (simp add: reported_def fun_eq_iff)

section \<open>The document\<close>

lemma render_fold:
  "foldl render_step (Health_Ok, True, ''{'') checks =
     (overall checks, checks = [], ''{'' @ sep_items render_check CHR '','' checks)"
proof (induction checks rule: rev_induct)
  case Nil
  then show ?case by (simp add: overall_def)
next
  case (snoc e checks)
  then show ?case
    by (auto simp: render_step_def overall_def sep_items_snoc split: prod.splits)
qed

lemma render_json_eq:
  "render_json checks =
     ''{\"status\":\"'' @ health_to_string (overall checks) @ ''\",\"checks\":{'' @
     sep_items render_check CHR '','' checks @ ''}}''"
  by (simp add: render_json_def render_fold)

lemma json_escape_char_cases:
  "json_escape_char c = [backslash, c] \<and> (c = quote \<or> c = backslash) \<or>
   json_escape_char c = [c] \<and> c \<noteq> quote \<and> c \<noteq> backslash"
  by (auto simp: json_escape_char_def)

interpretation json_chars: stopped_code json_escape_char quote
  by unfold_locales (auto simp: json_escape_char_def split: if_splits)

interpretation json_text: prefix_code json_escaped
  by unfold_locales (auto simp: json_escaped_def dest: json_chars.items_unique)

interpretation health_word: prefix_code "\<lambda>s. health_to_string s @ [quote]"
proof
  fix a b :: health_state and r r' :: string
  assume "(health_to_string a @ [quote]) @ r = (health_to_string b @ [quote]) @ r'"
  then show "a = b \<and> r = r'" by (cases a; cases b) (simp_all add: quote_def)
qed

lemma render_check_eq:
  "render_check (n, c) @ r =
     json_escaped n @ '':{\"state\":\"'' @ (health_to_string (check_state c) @ [quote]) @
     '',\"reason\":'' @ json_escaped (check_reason c) @ ''}'' @ r"
  by (simp add: render_check_def quote_def)

lemma check_eqI: "check_state a = check_state b \<Longrightarrow> check_reason a = check_reason b \<Longrightarrow> (a :: check) = b"
  by simp

interpretation check_items: separated_code render_check "CHR ''}''" "CHR '',''"
proof
  fix a b :: "string \<times> check" and r r' :: string
  obtain n c n' c' where ab: "a = (n, c)" "b = (n', c')" by fastforce
  assume "render_check a @ r = render_check b @ r'"
  then have eqs: "n = n'" and
    "(health_to_string (check_state c) @ [quote]) @ '',\"reason\":'' @ json_escaped (check_reason c) @ ''}'' @ r =
     (health_to_string (check_state c') @ [quote]) @ '',\"reason\":'' @ json_escaped (check_reason c') @ ''}'' @ r'"
    unfolding ab render_check_eq json_text.enc_append_inject by simp_all
  from this(2) have "check_state c = check_state c'"
    and "json_escaped (check_reason c) @ ''}'' @ r = json_escaped (check_reason c') @ ''}'' @ r'"
    unfolding health_word.enc_append_inject by simp_all
  with eqs show "a = b \<and> r = r'"
    unfolding ab json_text.enc_append_inject by (simp add: check_eqI)
qed (auto simp: render_check_def json_escaped_def quote_def)

lemma render_json_inject: "render_json checks = render_json checks' \<longleftrightarrow> checks = checks'"
proof
  assume "render_json checks = render_json checks'"
  then have "(health_to_string (overall checks) @ [quote]) @ '',\"checks\":{'' @
      sep_items render_check CHR '','' checks @ CHR ''}'' # ''}'' =
     (health_to_string (overall checks') @ [quote]) @ '',\"checks\":{'' @
      sep_items render_check CHR '','' checks' @ CHR ''}'' # ''}''"
    unfolding render_json_eq by (simp add: quote_def)
  then show "checks = checks'"
    unfolding health_word.enc_append_inject by (simp add: check_items.sep_items_inject)
qed simp

text \<open>
  The health document is unambiguous: two registries that render the same text hold the
  same checks, with the same states and reasons, whatever quotes, backslashes, commas or
  braces the names and reasons contain.
\<close>

theorem health_json_injective: "render_json checks = render_json checks' \<longleftrightarrow> checks = checks'"
  by (rule render_json_inject)

text \<open>
  The document states the registry's overall state: it opens with exactly the state
  \<open>overall\<close> returns.
\<close>

theorem health_json_states_overall:
  "take (length (health_to_string st) + 13) (render_json checks) =
     ''{\"status\":\"'' @ health_to_string st @ ''\",'' \<longleftrightarrow> st = overall checks"
  by (cases st; cases "overall checks") (simp_all add: render_json_eq)

text \<open>
  Control characters pass through unescaped: the reason of a check is copied into the
  document with only the double quote and the backslash escaped, so a reason that holds a
  line feed or any other character below 32, which JSON forbids inside a string, appears
  there raw.
\<close>

theorem health_json_copies_control_characters:
  assumes "char_code ctrl < 32"
  shows "json_escaped (pre @ ctrl # post) =
         quote # concat (map json_escape_char pre) @ ctrl # concat (map json_escape_char post) @ [quote]"
  using assms by (auto simp: json_escaped_def json_escape_char_def quote_def backslash_def char_code_def)

theorem health_json_copies_control_characters_witness:
  "json_escaped (''a'' @ CHR 0x0A # ''b'') = [quote, CHR ''a'', CHR 0x0A, CHR ''b'', quote]"
  using health_json_copies_control_characters [of "CHR 0x0A" "''a''" "''b''"]
  by (simp add: char_code_def json_escape_char_def quote_def backslash_def)

end
