(* ===== verification/Json_Reader.thy ===== *)
theory Json_Reader
  imports Logger Health
begin

text \<open>
  A reader of JSON documents without white space (RFC 8259: objects, strings, numbers and
  booleans, no arrays), against which the two writers of the library are checked: the log
  records of src/logger.cpp and the health document of src/health.cpp. A number is kept as its
  text. The first argument of \<open>read_json\<close> is how deep objects may nest.
\<close>

section \<open>Reader\<close>

datatype json = J_text string | J_number string | J_bool bool | J_object "(string \<times> json) list"

definition json_exponent :: "string \<Rightarrow> bool" where
  "json_exponent s =
     (case s of [] \<Rightarrow> True
      | c # r \<Rightarrow>
          let ds = (if r \<noteq> [] \<and> hd r \<in> {CHR ''+'', CHR ''-''} then tl r else r)
          in (c = CHR ''e'' \<or> c = CHR ''E'') \<and> ds \<noteq> [] \<and> list_all is_digit ds)"

definition json_fraction :: "string \<Rightarrow> bool" where
  "json_fraction s =
     (case s of [] \<Rightarrow> True
      | c # r \<Rightarrow> if c = CHR ''.'' then takeWhile is_digit r \<noteq> [] \<and> json_exponent (dropWhile is_digit r)
                 else json_exponent s)"

definition json_magnitude :: "string \<Rightarrow> bool" where
  "json_magnitude s =
     (let w = takeWhile is_digit s
      in w \<noteq> [] \<and> (hd w = CHR ''0'' \<longrightarrow> w = ''0'') \<and> json_fraction (dropWhile is_digit s))"

definition json_number :: "string \<Rightarrow> bool" where
  "json_number s = json_magnitude (if s \<noteq> [] \<and> hd s = CHR ''-'' then tl s else s)"

definition number_char :: "char \<Rightarrow> bool" where
  "number_char c \<longleftrightarrow> is_digit c \<or> c \<in> {CHR ''-'', CHR ''+'', CHR ''.'', CHR ''e'', CHR ''E''}"

definition read_scalar :: "string \<Rightarrow> (json \<times> string) option" where
  "read_scalar s =
     (if s \<noteq> [] \<and> hd s = CHR 0x22 then map_option (apfst J_text) (read_json_string s)
      else if take 4 s = ''true'' then Some (J_bool True, drop 4 s)
      else if take 5 s = ''false'' then Some (J_bool False, drop 5 s)
      else let w = takeWhile number_char s in
        if json_number w then Some (J_number w, dropWhile number_char s) else None)"

fun read_members ::
  "(string \<Rightarrow> (json \<times> string) option) \<Rightarrow> string \<Rightarrow> ((string \<times> json) list \<times> string) option" where
  "read_members rv s =
     (case read_json_string s of
        Some (k, c # r) \<Rightarrow>
          (if c = CHR '':'' then
             (case rv r of
                Some (v, e # t) \<Rightarrow>
                  (if length t < length s then
                     (if e = CHR '','' then map_option (apfst (Cons (k, v))) (read_members rv t)
                      else if e = CHR ''}'' then Some ([(k, v)], t) else None)
                   else None)
              | _ \<Rightarrow> None)
           else None)
      | _ \<Rightarrow> None)"

declare read_members.simps [simp del]

primrec read_json :: "nat \<Rightarrow> string \<Rightarrow> (json \<times> string) option" where
  "read_json 0 s = read_scalar s"
| "read_json (Suc d) s =
     (if s \<noteq> [] \<and> hd s = CHR ''{'' then
        (if tl s \<noteq> [] \<and> hd (tl s) = CHR ''}'' then Some (J_object [], tl (tl s))
         else map_option (apfst J_object) (read_members (read_json d) (tl s)))
      else read_scalar s)"

lemma read_members_step:
  assumes "read_json_string s = Some (k, CHR '':'' # r)" "length r < length s"
  shows "rv r = Some (v, CHR '','' # t) \<Longrightarrow> length t < length r \<Longrightarrow>
      read_members rv s = map_option (apfst (Cons (k, v))) (read_members rv t)"
    and "rv r = Some (v, CHR ''}'' # t) \<Longrightarrow> length t < length r \<Longrightarrow> read_members rv s = Some ([(k, v)], t)"
    and "rv r = None \<Longrightarrow> read_members rv s = None"
  using assms by (simp_all add: read_members.simps [of rv s])

text \<open>
  What a writer of members owes the reader: its keys and values are read back, or refused,
  wherever a separator follows.
\<close>

locale json_members =
  fixes rv :: "string \<Rightarrow> (json \<times> string) option"
    and key_text val_text key :: "'a \<Rightarrow> string" and val :: "'a \<Rightarrow> json" and key_ok val_ok :: "'a \<Rightarrow> bool"
  assumes key_read: "read_json_string (key_text x @ r) = (if key_ok x then Some (key x, r) else None)"
    and val_read: "c \<in> {CHR '','', CHR ''}''} \<Longrightarrow>
      rv (val_text x @ c # r) = (if val_ok x then Some (val x, c # r) else None)"
begin

abbreviation "member_text x \<equiv> key_text x @ CHR '':'' # val_text x"

lemma read_items:
  "xs \<noteq> [] \<Longrightarrow>
   read_members rv (sep_items member_text CHR '','' xs @ CHR ''}'' # r) =
     (if list_all (\<lambda>x. key_ok x \<and> val_ok x) xs then Some (map (\<lambda>x. (key x, val x)) xs, r) else None)"
proof (induction xs)
  case (Cons x xs)
  define t where "t = (if xs = [] then CHR ''}'' # r else CHR '','' # sep_items member_text CHR '','' xs @ CHR ''}'' # r)"
  define s where "s = key_text x @ CHR '':'' # val_text x @ t"
  have rendered: "sep_items member_text CHR '','' (x # xs) @ CHR ''}'' # r = s"
    by (cases xs) (simp_all add: s_def t_def)
  have key: "read_json_string s = (if key_ok x then Some (key x, CHR '':'' # val_text x @ t) else None)"
    unfolding s_def by (rule key_read)
  obtain c u where c: "t = c # u" "c \<in> {CHR '','', CHR ''}''}" by (cases "xs = []") (auto simp: t_def)
  have val: "rv (val_text x @ t) = (if val_ok x then Some (val x, t) else None)"
    unfolding c(1) by (rule val_read [OF c(2)])
  show ?case
  proof (cases "key_ok x")
    case True
    with key have "read_json_string s = Some (key x, CHR '':'' # val_text x @ t)" by simp
    note steps = read_members_step [OF this, of rv]
    have "length (val_text x @ t) < length s" by (simp add: s_def)
    then show ?thesis
      using steps(1) [of "val x" "tl t"] steps(2) [of "val x" "tl t"] steps(3) val Cons.IH True unfolding rendered
      by (cases "val_ok x"; cases "xs = []") (simp_all add: t_def)
  next
    case False
    with key show ?thesis unfolding rendered by (simp add: read_members.simps [of rv s])
  qed
qed simp

end

section \<open>Numbers\<close>

lemma dec_nat_leading: "hd (dec_nat n) = CHR ''0'' \<Longrightarrow> dec_nat n = ''0''"
proof (induction n rule: dec_nat.induct)
  case (1 n)
  show ?case
  proof (cases "n < 10")
    case True
    then show ?thesis using 1(2) by (simp add: dec_nat.simps [of n])
  next
    case False
    then have "hd (dec_nat (n div 10)) = CHR ''0''" using 1(2) by (simp add: dec_nat.simps [of n])
    then have zero: "dec_nat (n div 10) = ''0''" using 1(1) False by simp
    have "dec_nat 0 = ''0''" by (simp add: dec_nat.simps [of 0] digit_char_def char_of_def bit_0)
    with zero have "n div 10 = 0" using dec_nat_inj by metis
    then show ?thesis using False by simp
  qed
qed

lemma digits_prefix:
  "list_all is_digit w \<Longrightarrow> r = [] \<or> \<not> is_digit (hd r) \<Longrightarrow> takeWhile is_digit (w @ r) = w \<and> dropWhile is_digit (w @ r) = r"
  by (induction w) (auto simp: takeWhile_eq_Nil_iff dropWhile_eq_self_iff)

lemma dec_nat_all [simp]: "list_all is_digit (dec_nat n)"
  using dec_nat_digits by (auto simp: list_all_iff)

lemma json_magnitude_dec:
  "json_fraction r \<Longrightarrow> r = [] \<or> \<not> is_digit (hd r) \<Longrightarrow> json_magnitude (dec_nat n @ r)"
  using digits_prefix [of "dec_nat n" r] dec_nat_leading [of n] by (auto simp: json_magnitude_def Let_def)

lemma exponent_not_digit: "json_exponent r \<Longrightarrow> r = [] \<or> \<not> is_digit (hd r)"
  by (auto simp: json_exponent_def is_digit_def Let_def split: list.splits)

lemma json_fraction_exponent: "json_exponent r \<Longrightarrow> json_fraction r"
  by (auto simp: json_fraction_def json_exponent_def split: list.splits)

lemma json_magnitude_fraction:
  assumes "list_all is_digit frac" "json_exponent r"
  shows "json_magnitude (with_fraction whole frac @ r)"
proof (cases "strip_zeros frac = []")
  case True
  then show ?thesis using assms(2)
    by (simp add: with_fraction_def json_magnitude_dec json_fraction_exponent exponent_not_digit)
next
  case False
  have "list_all is_digit (strip_zeros frac)"
    using assms(1) by (auto simp: strip_zeros_def list_all_iff dest: set_dropWhileD)
  then have "json_fraction (CHR ''.'' # strip_zeros frac @ r)"
    using digits_prefix [of "strip_zeros frac" r] False assms(2) exponent_not_digit [OF assms(2)]
    by (simp add: json_fraction_def)
  then have "json_magnitude (dec_nat whole @ CHR ''.'' # strip_zeros frac @ r)"
    by (rule json_magnitude_dec) (simp add: is_digit_def)
  with False show ?thesis by (simp add: with_fraction_def)
qed

lemma zero_padded_all: "list_all is_digit (zero_padded k n)"
proof -
  have "list_all is_digit (replicate m CHR ''0'')" for m by (induction m) (simp_all add: is_digit_def)
  then show ?thesis by (simp add: zero_padded_def)
qed

lemma json_magnitude_print_g: "json_magnitude (print_g n d)"
proof -
  have zero: "json_magnitude ''0''" using json_magnitude_dec [of "[]" 0]
    by (simp add: json_fraction_def dec_nat.simps [of 0] digit_char_def char_of_def bit_0)
  have plain: "json_magnitude (with_fraction a (zero_padded k b))" for a k b
    using json_magnitude_fraction [OF zero_padded_all, of "[]" a k b] by (simp add: json_exponent_def)
  have "json_exponent (''e'' @ sgn # (if p then ''0'' else []) @ dec_nat m)"
    if "sgn \<in> {CHR ''+'', CHR ''-''}" for sgn p m
    using that by (auto simp: json_exponent_def is_digit_def)
  from json_magnitude_fraction [OF zero_padded_all this]
  have "json_magnitude (with_fraction a (zero_padded k b) @ ''e'' @ sgn # (if p then ''0'' else []) @ dec_nat m)"
    if "sgn \<in> {CHR ''+'', CHR ''-''}" for a k b sgn p m
    using that by blast
  from this [of "CHR ''-''"] this [of "CHR ''+''"] show ?thesis
    by (simp add: print_g_def Let_def zero plain split: prod.split)
qed

lemma json_number_sign: "json_magnitude s \<Longrightarrow> json_number (CHR ''-'' # s)"
  by (simp add: json_number_def)

lemma magnitude_head: "json_magnitude s \<Longrightarrow> s \<noteq> [] \<and> is_digit (hd s)"
  by (cases s) (auto simp: json_magnitude_def Let_def split: if_splits)

lemma json_number_magnitude: "json_magnitude s \<Longrightarrow> json_number s"
  using magnitude_head [of s] by (auto simp: json_number_def is_digit_def)

lemma json_number_dec_int: "json_number (dec_int i)"
  using json_magnitude_dec [of "[]"]
  by (simp add: dec_int_def json_number_sign json_number_magnitude json_fraction_def)

text \<open>A number that is not finite is printed as a word that is no JSON number.\<close>

lemma read_non_finite: "dbl_exponent d = 2047 \<Longrightarrow> read_scalar (print_double d @ r) = None"
  by (auto simp: print_double_def dbl_decode_def Let_def number_char_def is_digit_def json_number_def
      json_magnitude_def read_scalar_def)

lemma json_number_finite: "dbl_exponent d \<noteq> 2047 \<Longrightarrow> json_number (print_double d)"
  by (auto simp: print_double_def dbl_decode_def Let_def json_number_sign json_number_magnitude json_magnitude_print_g)

text \<open>A number token holds number characters only.\<close>

lemma number_chars_digits: "list_all is_digit s \<Longrightarrow> list_all number_char s"
  by (auto simp: list_all_iff number_char_def)

lemma number_chars_fraction: "list_all number_char (with_fraction a (zero_padded k n))"
proof -
  have "list_all is_digit (strip_zeros (zero_padded k n))"
    using zero_padded_all by (auto simp: strip_zeros_def list_all_iff dest: set_dropWhileD)
  then show ?thesis by (simp add: with_fraction_def number_chars_digits) (simp add: number_char_def)
qed

lemma number_chars_dec_int: "list_all number_char (dec_int i)"
  by (simp add: dec_int_def number_chars_digits) (simp add: number_char_def)

lemma number_chars_double: "dbl_exponent d \<noteq> 2047 \<Longrightarrow> list_all number_char (print_double d)"
proof -
  have marks: "number_char CHR ''-''" "number_char CHR ''+''" "number_char CHR ''e''" "number_char CHR ''0''"
    by (simp_all add: number_char_def is_digit_def)
  then have "list_all number_char (print_g n m)" for n m
    by (simp add: print_g_def Let_def number_chars_fraction number_chars_digits split: prod.split)
  with marks show "dbl_exponent d \<noteq> 2047 \<Longrightarrow> list_all number_char (print_double d)"
    by (auto simp: print_double_def dbl_decode_def Let_def)
qed

lemma read_number:
  assumes "list_all number_char w" "json_number w" "\<not> number_char c"
  shows "read_scalar (w @ c # r) = Some (J_number w, c # r)"
proof -
  have "takeWhile number_char (w @ c # r) = w" "dropWhile number_char (w @ c # r) = c # r"
    using assms(1,3) by (induction w) auto
  moreover have "w \<noteq> []" using assms(2) by (auto simp: json_number_def json_magnitude_def)
  then obtain x xs where "w = x # xs" by (cases w) auto
  moreover have "\<not> number_char CHR 0x22" "\<not> number_char CHR ''t''" "\<not> number_char CHR ''f''"
    by (simp_all add: number_char_def is_digit_def)
  ultimately show ?thesis using assms(1,2) by (auto simp: read_scalar_def Let_def)
qed

lemma read_json_zero: "read_json 0 = read_scalar"
  by (simp add: fun_eq_iff)

section \<open>Log records\<close>

fun json_of :: "field_value \<Rightarrow> json" where
  "json_of (FString s) = J_text s"
| "json_of (FInt i) = J_number (dec_int i)"
| "json_of (FDouble d) = J_number (print_double d)"
| "json_of (FBool b) = J_bool b"

fun writable :: "field_value \<Rightarrow> bool" where
  "writable (FDouble d) \<longleftrightarrow> dbl_exponent d \<noteq> 2047"
| "writable _ \<longleftrightarrow> True"

text \<open>The members of a record, in the order \<open>emit\<close> writes them.\<close>

definition record_members :: "int \<Rightarrow> string \<Rightarrow> log_event \<Rightarrow> (string \<times> field_value) list" where
  "record_members now service ev =
     (let opt = (\<lambda>name text. if text = [] then [] else [(name, FString text)])
      in [(''ts'', FString (rfc3339 now)), (''lvl'', FString (level_to_string (le_level ev))),
          (''svc'', FString service)] @
         opt ''vehicle'' (le_vehicle ev) @ opt ''corr'' (le_corr ev) @
         [(''event'', FString (le_event ev))] @ opt ''msg'' (le_msg ev) @ le_fields ev)"

definition members_text :: "(string \<times> field_value) list \<Rightarrow> string" where
  "members_text ms = tl (concat (map render_field ms))"

lemma plain_escaped: "log_escaped (level_to_string l) = CHR 0x22 # level_to_string l @ [CHR 0x22]"
  by (cases l) (simp_all add: log_escaped_def log_escape_char_def Let_def)

lemma plain_names:
  "log_escaped ''ts'' = ''\"ts\"''" "log_escaped ''lvl'' = ''\"lvl\"''" "log_escaped ''svc'' = ''\"svc\"''"
  "log_escaped ''vehicle'' = ''\"vehicle\"''" "log_escaped ''corr'' = ''\"corr\"''"
  "log_escaped ''event'' = ''\"event\"''" "log_escaped ''msg'' = ''\"msg\"''"
  by (simp_all add: log_escaped_def log_escape_char_def Let_def)

lemma log_line_members:
  "log_line now service ev = ''{'' @ members_text (record_members now service ev) @ ''}'' @ [CHR 0x0A]"
  by (simp add: log_line_def members_text_def record_members_def render_field_def optional_member_def
      plain_escaped plain_names Let_def)

lemma read_rendered_value:
  assumes "\<not> number_char c"
  shows "read_scalar (render_value v @ c # r) = (if writable v then Some (json_of v, c # r) else None)"
proof (cases v)
  case (FString s)
  have "hd (log_escaped s @ c # r) = CHR 0x22" "log_escaped s @ c # r \<noteq> []" by (simp_all add: log_escaped_def)
  with FString show ?thesis by (simp add: read_scalar_def read_log_escaped)
next
  case (FInt i)
  then show ?thesis using read_number [OF number_chars_dec_int json_number_dec_int assms] by simp
next
  case (FDouble d)
  then show ?thesis
    using read_number [OF number_chars_double json_number_finite assms, of d r] read_non_finite [of d "c # r"] by auto
next
  case (FBool b)
  then show ?thesis by (simp add: read_scalar_def)
qed

lemma separators: "c \<in> {CHR '','', CHR ''}''} \<Longrightarrow> \<not> number_char c"
  by (auto simp: number_char_def is_digit_def)

interpretation log_members: json_members read_scalar "\<lambda>m. log_escaped (fst m)" "\<lambda>m. render_value (snd m)"
    fst "\<lambda>m. json_of (snd m)" "\<lambda>_. True" "\<lambda>m. writable (snd m)"
proof
  show "read_json_string (log_escaped (fst m) @ r) = (if True then Some (fst m, r) else None)" for m :: "string \<times> field_value" and r
    by (simp add: read_log_escaped)
  show "read_scalar (render_value (snd m) @ c # r) = (if writable (snd m) then Some (json_of (snd m), c # r) else None)"
    if "c \<in> {CHR '','', CHR ''}''}" for c and m :: "string \<times> field_value" and r
    by (rule read_rendered_value [OF separators [OF that]])
qed

lemma members_text_items:
  "members_text ms = sep_items (\<lambda>m. log_escaped (fst m) @ CHR '':'' # render_value (snd m)) CHR '','' ms"
proof -
  have field: "render_field = (\<lambda>m. CHR '','' # log_escaped (fst m) @ CHR '':'' # render_value (snd m))"
    by (simp add: fun_eq_iff render_field_def)
  show ?thesis by (cases ms) (simp_all add: members_text_def field)
qed

lemma read_object:
  assumes "s \<noteq> []" "hd s \<noteq> CHR ''}''"
  shows "read_json (Suc d) (CHR ''{'' # s) = map_option (apfst J_object) (read_members (read_json d) s)"
  using assms by simp

text \<open>
  A record is one JSON object, and it says what was logged: a reader gets back the time, the
  level, the service, the identifiers and the text that are set, and every field with its
  value, in order, and stops at the line feed; only a double field that is infinite or NaN
  makes the record unreadable, and then as a whole.
\<close>

definition readable :: "int \<Rightarrow> string \<Rightarrow> log_event \<Rightarrow> bool" where
  "readable now service ev \<longleftrightarrow> list_all (\<lambda>m. writable (snd m)) (record_members now service ev)"

definition record_json :: "int \<Rightarrow> string \<Rightarrow> log_event \<Rightarrow> json" where
  "record_json now service ev = J_object (map (\<lambda>m. (fst m, json_of (snd m))) (record_members now service ev))"

lemma read_log_line:
  "read_json 1 (log_line now service ev @ r) =
     (if readable now service ev then Some (record_json now service ev, CHR 0x0A # r) else None)"
proof -
  let ?ms = "record_members now service ev"
  define s where "s = members_text ?ms @ CHR ''}'' # CHR 0x0A # r"
  have ms: "?ms \<noteq> []" by (simp add: record_members_def Let_def)
  then have "s \<noteq> []" "hd s \<noteq> CHR ''}''"
    by (cases ?ms; simp add: s_def members_text_items log_escaped_def)+
  from read_object [OF this, of 0]
  have "read_json 1 (log_line now service ev @ r) = map_option (apfst J_object) (read_members (read_json 0) s)"
    by (simp add: log_line_members s_def)
  moreover have "read_members (read_json 0) s =
      (if list_all (\<lambda>m. writable (snd m)) ?ms then Some (map (\<lambda>m. (fst m, json_of (snd m))) ?ms, CHR 0x0A # r) else None)"
    using log_members.read_items [OF ms, of "CHR 0x0A # r"] unfolding s_def members_text_items by (simp add: read_json_zero)
  ultimately show ?thesis by (simp add: readable_def record_json_def)
qed

text \<open>A log: records, each ended by a line feed.\<close>

fun read_log :: "string \<Rightarrow> json list option" where
  "read_log s =
     (if s = [] then Some []
      else case read_json 1 s of
        Some (v, c # r) \<Rightarrow>
          (if c = CHR 0x0A \<and> length r < length s then map_option (Cons v) (read_log r) else None)
      | _ \<Rightarrow> None)"

declare read_log.simps [simp del]

lemma read_log_Cons:
  "read_log (log_line now service ev @ r) =
     (if readable now service ev then map_option (Cons (record_json now service ev)) (read_log r) else None)"
proof -
  have "log_line now service ev \<noteq> []" by (simp add: log_line_def)
  then have "length r < length (log_line now service ev @ r)" "log_line now service ev @ r \<noteq> []" by simp_all
  then show ?thesis by (simp only: read_log.simps [of "log_line now service ev @ r"] read_log_line) simp
qed

definition emit_each :: "(int \<times> log_event) list \<Rightarrow> logger \<Rightarrow> logger" where
  "emit_each evs lg = fold (\<lambda>(now, ev) lg. snd (log_emit now (ev, lg))) evs lg"

definition emits :: "logger \<Rightarrow> int \<times> log_event \<Rightarrow> bool" where
  "emits lg e \<longleftrightarrow> \<not> le_emitted (snd e) \<and> \<not> le_level (snd e) < min_level lg"

lemma emit_each_out:
  "log_out (emit_each evs lg) =
     log_out lg @ concat (map (\<lambda>e. log_line (fst e) (log_service lg) (snd e)) (filter (emits lg) evs))"
proof (induction evs arbitrary: lg)
  case (Cons e evs)
  define lg1 where "lg1 = snd (log_emit (fst e) (snd e, lg))"
  have "emits lg1 = emits lg" "log_service lg1 = log_service lg"
    by (auto simp: fun_eq_iff emits_def lg1_def log_emit_def Let_def)
  moreover have "log_out lg1 = log_out lg @ (if emits lg e then log_line (fst e) (log_service lg) (snd e) else [])"
    by (simp add: lg1_def log_emit_def emits_def Let_def)
  moreover have "emit_each (e # evs) lg = emit_each evs lg1"
    by (simp add: emit_each_def lg1_def split: prod.split)
  ultimately show ?case using Cons.IH [of lg1] by simp
qed (simp add: emit_each_def)


section \<open>The health document\<close>

lemma read_json_text:
  "read_json d (json_escaped s @ r) = (if printable s then Some (J_text s, r) else None)"
  "read_json_string (json_escaped s @ r) = (if printable s then Some (s, r) else None)"
proof -
  have step: "read_string (json_escape_char c @ u) =
      (if 32 \<le> char_code c then map_option (apfst (Cons c)) (read_string u) else None)" for c u
    by (auto simp: json_escape_char_def quote_def backslash_def simple_escape_def char_code_def)
  have body: "read_string (concat (map json_escape_char s) @ CHR 0x22 # r) = (if printable s then Some (s, r) else None)"
    by (induction s) (simp_all add: step)
  then show string: "read_json_string (json_escaped s @ r) = (if printable s then Some (s, r) else None)"
    by (simp add: read_json_string_def json_escaped_def quote_def)
  have "json_escaped s @ r \<noteq> []" "hd (json_escaped s @ r) = CHR 0x22" by (simp_all add: json_escaped_def quote_def)
  then show "read_json d (json_escaped s @ r) = (if printable s then Some (J_text s, r) else None)"
    using string by (cases d) (simp_all add: read_scalar_def)
qed

interpretation check_fields: json_members "read_json d" "\<lambda>m. json_escaped (fst m)" "\<lambda>m. json_escaped (snd m)"
    fst "\<lambda>m. J_text (snd m)" "\<lambda>m. printable (fst m)" "\<lambda>m. printable (snd m)" for d
  by unfold_locales (simp_all add: read_json_text)

definition check_object :: "check \<Rightarrow> string" where
  "check_object c = CHR ''{'' # sep_items (\<lambda>m. json_escaped (fst m) @ CHR '':'' # json_escaped (snd m)) CHR '',''
     [(''state'', health_to_string (check_state c)), (''reason'', check_reason c)] @ ''}''"

definition check_json :: "check \<Rightarrow> json" where
  "check_json c = J_object [(''state'', J_text (health_to_string (check_state c))), (''reason'', J_text (check_reason c))]"

lemma health_to_string_escaped: "json_escaped (health_to_string st) = quote # health_to_string st @ [quote]"
  by (cases st) (simp_all add: json_escaped_def json_escape_char_def quote_def backslash_def)

lemma printable_health [simp]: "printable (health_to_string st)"
  by (cases st) simp_all

lemma render_check_members: "render_check e = json_escaped (fst e) @ CHR '':'' # check_object (snd e)"
  by (simp add: render_check_def check_object_def health_to_string_escaped)
    (simp add: json_escaped_def json_escape_char_def quote_def backslash_def)

lemma read_check_object:
  "read_json (Suc d) (check_object c @ r) =
     (if printable (check_reason c) then Some (check_json c, r) else None)"
proof -
  let ?ms = "[(''state'', health_to_string (check_state c)), (''reason'', check_reason c)]"
  define s where "s = sep_items (\<lambda>m. json_escaped (fst m) @ CHR '':'' # json_escaped (snd m)) CHR '','' ?ms @ CHR ''}'' # r"
  have "s \<noteq> []" "hd s \<noteq> CHR ''}''" by (simp_all add: s_def json_escaped_def quote_def)
  from read_object [OF this, of d] have "read_json (Suc d) (check_object c @ r) = map_option (apfst J_object) (read_members (read_json d) s)"
    unfolding check_object_def s_def append_Cons append_assoc append_Nil .
  moreover have "read_members (read_json d) s =
      (if printable (check_reason c) then Some (map (\<lambda>m. (fst m, J_text (snd m))) ?ms, r) else None)"
    using check_fields.read_items [of ?ms d r] unfolding s_def by simp
  ultimately show ?thesis by (simp add: check_json_def)
qed

interpretation check_members: json_members "read_json (Suc d)" "\<lambda>e. json_escaped (fst e)"
    "\<lambda>e. check_object (snd e)" fst "\<lambda>e. check_json (snd e)"
    "\<lambda>e. printable (fst e)" "\<lambda>e. printable (check_reason (snd e))" for d
  by unfold_locales (simp_all only: read_json_text read_check_object)

lemma read_checks_object:
  "read_json (Suc (Suc d)) (CHR ''{'' # sep_items render_check CHR '','' checks @ CHR ''}'' # r) =
     (if list_all (\<lambda>e. printable (fst e) \<and> printable (check_reason (snd e))) checks
      then Some (J_object (map (\<lambda>e. (fst e, check_json (snd e))) checks), r) else None)"
proof (cases "checks = []")
  case False
  define s where "s = sep_items render_check CHR '','' checks @ CHR ''}'' # r"
  have "s \<noteq> []" "hd s \<noteq> CHR ''}''"
    using False by (cases checks; simp add: s_def render_check_members json_escaped_def quote_def)+
  from read_object [OF this, of "Suc d"] have "read_json (Suc (Suc d)) (CHR ''{'' # s) =
      map_option (apfst J_object) (read_members (read_json (Suc d)) s)" .
  moreover have "read_members (read_json (Suc d)) s =
      (if list_all (\<lambda>e. printable (fst e) \<and> printable (check_reason (snd e))) checks
       then Some (map (\<lambda>e. (fst e, check_json (snd e))) checks, r) else None)"
    using check_members.read_items [OF False, of d r] unfolding s_def render_check_members [abs_def] .
  ultimately show ?thesis unfolding s_def by simp
qed simp

text \<open>
  C29. The health document is one JSON object with the overall state and, for each check in the
  order of the names, its state and reason, exactly when no name and no reason holds a
  control character; otherwise no reader accepts it.
\<close>

theorem health_document_reads_back:
  "read_json 3 (render_json checks) =
     (if list_all (\<lambda>e. printable (fst e) \<and> printable (check_reason (snd e))) checks
      then Some (J_object [(''status'', J_text (health_to_string (overall checks))),
                           (''checks'', J_object (map (\<lambda>e. (fst e, check_json (snd e))) checks))], [])
      else None)"
proof -
  define cs where "cs = CHR ''{'' # sep_items render_check CHR '','' checks @ CHR ''}'' # ''}''"
  define r where "r = json_escaped (health_to_string (overall checks)) @ CHR '','' # json_escaped ''checks'' @ CHR '':'' # cs"
  define s where "s = json_escaped ''status'' @ CHR '':'' # r"
  have doc: "render_json checks = CHR ''{'' # s"
    unfolding render_json_eq s_def r_def cs_def health_to_string_escaped
    by (simp add: json_escaped_def json_escape_char_def quote_def backslash_def)
  have "s \<noteq> []" "hd s \<noteq> CHR ''}''" by (simp_all add: s_def json_escaped_def quote_def)
  from read_object [OF this, of 2] have top: "read_json 3 (render_json checks) = map_option (apfst J_object) (read_members (read_json 2) s)"
    unfolding doc by (simp add: eval_nat_numeral)
  have "read_json_string s = Some (''status'', CHR '':'' # r)"
    unfolding s_def by (simp add: read_json_text)
  note first = read_members_step [OF this, of "read_json 2"]
  have "read_json 2 r = Some (J_text (health_to_string (overall checks)), CHR '','' # json_escaped ''checks'' @ CHR '':'' # cs)"
    unfolding r_def by (subst read_json_text) simp
  from first(1) [OF _ this] have one: "read_members (read_json 2) s =
      map_option (apfst (Cons (''status'', J_text (health_to_string (overall checks)))))
        (read_members (read_json 2) (json_escaped ''checks'' @ CHR '':'' # cs))"
    by (simp add: s_def r_def)
  have "read_json_string (json_escaped ''checks'' @ CHR '':'' # cs) = Some (''checks'', CHR '':'' # cs)"
    by (simp add: read_json_text)
  note second = read_members_step [OF this, of "read_json 2"]
  have "read_json 2 cs = (if list_all (\<lambda>e. printable (fst e) \<and> printable (check_reason (snd e))) checks
      then Some (J_object (map (\<lambda>e. (fst e, check_json (snd e))) checks), ''}'') else None)"
    unfolding cs_def using read_checks_object [of 0 checks "''}''"] by (simp add: eval_nat_numeral)
  then have two: "read_members (read_json 2) (json_escaped ''checks'' @ CHR '':'' # cs) =
      (if list_all (\<lambda>e. printable (fst e) \<and> printable (check_reason (snd e))) checks
       then Some ([(''checks'', J_object (map (\<lambda>e. (fst e, check_json (snd e))) checks))], []) else None)"
    using second(2,3) by (auto simp: cs_def)
  show ?thesis unfolding top one two by simp
qed

end
