(* ===== verification/Metrics.thy ===== *)
theory Metrics
  imports Encoding Dbl_Arith
begin

text \<open>
  The metric registry (include/uaop/common/metrics.h, src/metrics.cpp). The shared objects
  behind the handles live in two stores: a \<open>shared_ptr<Counter>\<close> is a position in
  \<open>counters\<close> or \<open>None\<close> for the null pointer, and likewise for gauges.
\<close>

section \<open>State\<close>

type_synonym labels = "(string \<times> string) list"

datatype metric_kind = KCounter | KGauge

record metric_entry =
  me_name :: string
  me_help :: string
  me_labels :: labels
  me_kind :: metric_kind
  me_counter :: "nat option"
  me_gauge :: "nat option"

record metrics =
  metric_entries :: "metric_entry list"
  metric_index :: "(string \<times> nat) list"
  counters :: "u64 list"
  gauges :: "double list"

definition new_metrics :: metrics where
  "new_metrics = \<lparr>metric_entries = [], metric_index = [], counters = [], gauges = []\<rparr>"

section \<open>Operations\<close>

definition counter_increment :: "nat \<Rightarrow> u64 \<Rightarrow> metrics \<Rightarrow> metrics" where
  "counter_increment h delta m = m\<lparr>counters := (counters m)[h := counters m ! h + delta]\<rparr>"

definition counter_value :: "metrics \<Rightarrow> nat \<Rightarrow> u64" where
  "counter_value m h = counters m ! h"

definition gauge_set :: "nat \<Rightarrow> double \<Rightarrow> metrics \<Rightarrow> metrics" where
  "gauge_set h v m = m\<lparr>gauges := (gauges m)[h := v]\<rparr>"

definition gauge_value :: "metrics \<Rightarrow> nat \<Rightarrow> double" where
  "gauge_value m h = gauges m ! h"

text \<open>\<open>Gauge::add\<close> reads the value and stores the sum; Metric_Threads takes the two apart.\<close>

definition gauge_add :: "nat \<Rightarrow> double \<Rightarrow> metrics \<Rightarrow> metrics" where
  "gauge_add h delta m = gauge_set h (dbl_add (gauge_value m h) delta) m"

definition render_label :: "string \<times> string \<Rightarrow> string" where
  "render_label kv = fst kv @ ''=\"'' @ snd kv @ ''\"''"

definition render_labels :: "labels \<Rightarrow> string" where
  "render_labels labels =
     (if labels = [] then []
      else snd (foldl (\<lambda>(first, out) kv.
                 (False, out @ (if first then [] else '','') @ render_label kv))
               (True, ''{'') labels) @ ''}'')"

definition metric_key :: "string \<Rightarrow> labels \<Rightarrow> string" where
  "metric_key name labels = name @ render_labels labels"

definition metric_counter ::
  "string \<Rightarrow> string \<Rightarrow> labels \<Rightarrow> metrics \<Rightarrow> nat option \<times> metrics" where
  "metric_counter name descr labels m =
     (let k = metric_key name labels in
      case map_of (metric_index m) k of
        Some i \<Rightarrow> (me_counter (metric_entries m ! i), m)
      | None \<Rightarrow>
          let h = length (counters m);
              entry = \<lparr>me_name = name, me_help = descr, me_labels = labels, me_kind = KCounter,
                       me_counter = Some h, me_gauge = None\<rparr>
          in (Some h, m\<lparr>counters := counters m @ [0],
                        metric_index := om_put k (length (metric_entries m)) (metric_index m),
                        metric_entries := metric_entries m @ [entry]\<rparr>))"

definition metric_gauge ::
  "string \<Rightarrow> string \<Rightarrow> labels \<Rightarrow> metrics \<Rightarrow> nat option \<times> metrics" where
  "metric_gauge name descr labels m =
     (let k = metric_key name labels in
      case map_of (metric_index m) k of
        Some i \<Rightarrow> (me_gauge (metric_entries m ! i), m)
      | None \<Rightarrow>
          let h = length (gauges m);
              entry = \<lparr>me_name = name, me_help = descr, me_labels = labels, me_kind = KGauge,
                       me_counter = None, me_gauge = Some h\<rparr>
          in (Some h, m\<lparr>gauges := gauges m @ [0],
                        metric_index := om_put k (length (metric_entries m)) (metric_index m),
                        metric_entries := metric_entries m @ [entry]\<rparr>))"

section \<open>Exposition\<close>

definition render_header :: "metric_entry \<Rightarrow> string" where
  "render_header e =
     ''# HELP '' @ me_name e @ '' '' @ me_help e @ [CHR 0x0A] @
     ''# TYPE '' @ me_name e @ '' '' @
     (if me_kind e = KCounter then ''counter'' else ''gauge'') @ [CHR 0x0A]"

definition entry_value :: "metrics \<Rightarrow> metric_entry \<Rightarrow> double" where
  "entry_value m e =
     (if me_kind e = KCounter then u64_to_double (counter_value m (the (me_counter e)))
      else gauge_value m (the (me_gauge e)))"

definition render_sample :: "metrics \<Rightarrow> metric_entry \<Rightarrow> string" where
  "render_sample m e =
     me_name e @ render_labels (me_labels e) @ '' '' @ print_double (entry_value m e) @ [CHR 0x0A]"

definition render_entry :: "metrics \<Rightarrow> string \<times> string \<Rightarrow> metric_entry \<Rightarrow> string \<times> string" where
  "render_entry m acc e =
     (let (last_name, out) = acc;
          (last_name', out') =
            (if me_name e \<noteq> last_name then (me_name e, out @ render_header e) else (last_name, out))
      in (last_name', out' @ render_sample m e))"

definition render_prometheus :: "metrics \<Rightarrow> string" where
  "render_prometheus m = snd (foldl (render_entry m) ([], []) (metric_entries m))"

section \<open>Histories\<close>

text \<open>What clients do with a registry; handles are those the registry returned.\<close>

datatype metric_op =
    Register_counter string string labels
  | Register_gauge string string labels
  | Increment nat u64
  | Set_gauge nat double
  | Add_gauge nat double

fun metric_step :: "metric_op \<Rightarrow> metrics \<Rightarrow> metrics" where
  "metric_step (Register_counter name descr labels) m = snd (metric_counter name descr labels m)"
| "metric_step (Register_gauge name descr labels) m = snd (metric_gauge name descr labels m)"
| "metric_step (Increment h delta) m = counter_increment h delta m"
| "metric_step (Set_gauge h v) m = gauge_set h v m"
| "metric_step (Add_gauge h delta) m = gauge_add h delta m"

definition entry_key :: "metric_entry \<Rightarrow> string" where
  "entry_key e = metric_key (me_name e) (me_labels e)"

definition metrics_ok :: "metrics \<Rightarrow> bool" where
  "metrics_ok m \<longleftrightarrow>
     om_sorted (metric_index m) \<and>
     (\<forall>k i. map_of (metric_index m) k = Some i \<longleftrightarrow>
        i < length (metric_entries m) \<and> entry_key (metric_entries m ! i) = k) \<and>
     (\<forall>e \<in> set (metric_entries m).
        case me_kind e of
          KCounter \<Rightarrow> (\<exists>h < length (counters m). me_counter e = Some h) \<and> me_gauge e = None
        | KGauge \<Rightarrow> (\<exists>h < length (gauges m). me_gauge e = Some h) \<and> me_counter e = None)"

text \<open>The fields a registration adds, for both kinds.\<close>

lemma metrics_ok_new: "metrics_ok new_metrics"
  by (simp add: metrics_ok_def new_metrics_def)

definition entry_valid :: "nat \<Rightarrow> nat \<Rightarrow> metric_entry \<Rightarrow> bool" where
  "entry_valid nc ng e \<longleftrightarrow>
     (case me_kind e of
        KCounter \<Rightarrow> (\<exists>h < nc. me_counter e = Some h) \<and> me_gauge e = None
      | KGauge \<Rightarrow> (\<exists>h < ng. me_gauge e = Some h) \<and> me_counter e = None)"

lemma entry_valid_mono: "entry_valid nc ng e \<Longrightarrow> nc \<le> nc' \<Longrightarrow> ng \<le> ng' \<Longrightarrow> entry_valid nc' ng' e"
  by (force simp: entry_valid_def split: metric_kind.splits)

lemma metrics_ok_alt:
  "metrics_ok m \<longleftrightarrow>
     om_sorted (metric_index m) \<and>
     (\<forall>k i. map_of (metric_index m) k = Some i \<longleftrightarrow>
        i < length (metric_entries m) \<and> entry_key (metric_entries m ! i) = k) \<and>
     (\<forall>e \<in> set (metric_entries m). entry_valid (length (counters m)) (length (gauges m)) e)"
  by (simp add: metrics_ok_def entry_valid_def)

lemma metrics_ok_add:
  assumes "metrics_ok m" and "map_of (metric_index m) (entry_key e) = None"
    and "metric_index m' = om_put (entry_key e) (length (metric_entries m)) (metric_index m)"
    and "metric_entries m' = metric_entries m @ [e]"
    and "length (counters m) \<le> length (counters m')" "length (gauges m) \<le> length (gauges m')"
    and "entry_valid (length (counters m')) (length (gauges m')) e"
  shows "metrics_ok m'"
proof -
  have fresh: "entry_key (metric_entries m ! i) \<noteq> entry_key e" if "i < length (metric_entries m)" for i
    using assms(1,2) that unfolding metrics_ok_alt by (metis option.distinct(1))
  show ?thesis unfolding metrics_ok_alt
  proof (intro conjI allI)
    show "om_sorted (metric_index m')"
      using assms(1) by (auto simp: assms(3) metrics_ok_alt)
    show "\<forall>e \<in> set (metric_entries m'). entry_valid (length (counters m')) (length (gauges m')) e"
      using assms(1,5-7) by (auto simp: assms(4) metrics_ok_alt intro: entry_valid_mono)
    fix k i
    have "map_of (metric_index m') k =
        (if k = entry_key e then Some (length (metric_entries m)) else map_of (metric_index m) k)"
      using assms(1) by (simp add: assms(3) metrics_ok_alt)
    then show "map_of (metric_index m') k = Some i \<longleftrightarrow>
        i < length (metric_entries m') \<and> entry_key (metric_entries m' ! i) = k"
      using assms(1) fresh by (auto simp: assms(4) metrics_ok_alt nth_append less_Suc_eq)
  qed
qed

lemma metrics_ok_counter: "metrics_ok m \<Longrightarrow> metrics_ok (snd (metric_counter name descr labels m))"
  by (auto simp: metric_counter_def Let_def entry_key_def entry_valid_def split: option.split
      intro!: metrics_ok_add [of m])

lemma metrics_ok_gauge: "metrics_ok m \<Longrightarrow> metrics_ok (snd (metric_gauge name descr labels m))"
  by (auto simp: metric_gauge_def Let_def entry_key_def entry_valid_def split: option.split
      intro!: metrics_ok_add [of m])

lemma metrics_ok_step: "metrics_ok m \<Longrightarrow> metrics_ok (metric_step op m)"
  by (cases op) (auto simp: metrics_ok_counter metrics_ok_gauge,
      auto simp: metrics_ok_alt counter_increment_def gauge_set_def gauge_add_def)

lemma metrics_ok_run: "metrics_ok m \<Longrightarrow> metrics_ok (fold metric_step ops m)"
  by (induction ops arbitrary: m) (auto simp: metrics_ok_step)

section \<open>Handles\<close>

text \<open>A later state of a registry: entries are only added, and the index only grows.\<close>

definition metrics_extends :: "metrics \<Rightarrow> metrics \<Rightarrow> bool" where
  "metrics_extends m m' \<longleftrightarrow>
     map_of (metric_index m) \<subseteq>\<^sub>m map_of (metric_index m') \<and>
     (\<forall>i < length (metric_entries m).
        i < length (metric_entries m') \<and> metric_entries m' ! i = metric_entries m ! i)"

lemma metrics_extends_refl [simp]: "metrics_extends m m"
  by (simp add: metrics_extends_def)

lemma metrics_extends_trans:
  "metrics_extends m m' \<Longrightarrow> metrics_extends m' m'' \<Longrightarrow> metrics_extends m m''"
  by (auto simp: metrics_extends_def intro: map_le_trans)

lemma metrics_extends_register:
  "metrics_ok m \<Longrightarrow> metrics_extends m (snd (metric_counter name descr labels m))"
  "metrics_ok m \<Longrightarrow> metrics_extends m (snd (metric_gauge name descr labels m))"
  by (auto simp: metric_counter_def metric_gauge_def metrics_extends_def metrics_ok_alt map_le_def
      nth_append Let_def split: option.split)

lemma metrics_extends_step: "metrics_ok m \<Longrightarrow> metrics_extends m (metric_step op m)"
  by (cases op) (auto simp: metrics_extends_register,
      auto simp: metrics_extends_def counter_increment_def gauge_set_def gauge_add_def)

lemma metrics_extends_run: "metrics_ok m \<Longrightarrow> metrics_extends m (fold metric_step ops m)"
proof (induction ops arbitrary: m)
  case (Cons op ops)
  then show ?case
    using metrics_extends_trans [OF metrics_extends_step [of m op]] metrics_ok_step [of m op] by simp
qed simp

text \<open>What a registered entry answers, in this state and in every later one.\<close>

lemma registered_later:
  assumes "metrics_extends m m'" and "map_of (metric_index m) (metric_key name labels) = Some i"
    and "i < length (metric_entries m)"
  shows "metric_counter name descr labels m' = (me_counter (metric_entries m ! i), m')"
    and "metric_gauge name descr labels m' = (me_gauge (metric_entries m ! i), m')"
  using assms by (auto simp: metrics_extends_def metric_counter_def metric_gauge_def map_le_def Let_def
      dest: bspec [OF _ domI])

lemma counter_registers:
  assumes "metrics_ok m" and "metric_counter name descr labels m = (r, m')"
  shows "\<exists>i < length (metric_entries m').
    map_of (metric_index m') (metric_key name labels) = Some i \<and> me_counter (metric_entries m' ! i) = r"
  using assms by (auto simp: metric_counter_def metrics_ok_alt Let_def split: option.splits)

text \<open>
  Registration is idempotent: a counter registered once is the same counter at every
  later registration of its name and labels, whatever help text is given and whatever was
  registered and updated in between, and registering again changes nothing.
\<close>

theorem counter_registration_is_idempotent:
  assumes "metric_counter name descr labels (fold metric_step hist new_metrics) = (r, m')"
  shows "metric_counter name descr' labels (fold metric_step later m') = (r, fold metric_step later m')"
proof -
  have ok: "metrics_ok (fold metric_step hist new_metrics)"
    by (rule metrics_ok_run [OF metrics_ok_new])
  have "metrics_ok m'"
    using metrics_ok_counter [OF ok, of name descr labels] assms by simp
  then have "metrics_extends m' (fold metric_step later m')" by (rule metrics_extends_run)
  moreover obtain i where "i < length (metric_entries m')"
      "map_of (metric_index m') (metric_key name labels) = Some i" "me_counter (metric_entries m' ! i) = r"
    using counter_registers [OF ok assms] by blast
  ultimately show ?thesis using registered_later(1) by metis
qed

theorem counter_registration_is_idempotent_witness:
  "metric_counter ''m'' ''other'' []
     (fold metric_step [Register_gauge ''g'' ''h'' [], Increment 0 3] (snd (metric_counter ''m'' ''h'' [] new_metrics))) =
   (Some 0, fold metric_step [Register_gauge ''g'' ''h'' [], Increment 0 3] (snd (metric_counter ''m'' ''h'' [] new_metrics)))"
  by (rule counter_registration_is_idempotent [where hist = "[]" and descr = "''h''"])
     (simp add: metric_counter_def new_metrics_def Let_def)

text \<open>
  A name and labels registered as a counter cannot become a gauge: asking for the gauge
  returns the null handle and leaves the registry as it is.
\<close>

theorem kind_mismatch_returns_null:
  assumes "metric_counter name descr labels (fold metric_step hist new_metrics) = (r, m')"
    and "r \<noteq> None"
  shows "metric_gauge name descr' labels (fold metric_step later m') = (None, fold metric_step later m')"
proof -
  have ok: "metrics_ok (fold metric_step hist new_metrics)"
    by (rule metrics_ok_run [OF metrics_ok_new])
  have ok1: "metrics_ok m'"
    using metrics_ok_counter [OF ok, of name descr labels] assms by simp
  obtain i where i: "i < length (metric_entries m')"
      "map_of (metric_index m') (metric_key name labels) = Some i" "me_counter (metric_entries m' ! i) = r"
    using counter_registers [OF ok assms(1)] by blast
  have "entry_valid (length (counters m')) (length (gauges m')) (metric_entries m' ! i)"
    using ok1 i(1) by (simp add: metrics_ok_alt)
  then have "me_gauge (metric_entries m' ! i) = None"
    using i(3) assms(2) by (auto simp: entry_valid_def split: metric_kind.splits)
  then show ?thesis
    using registered_later(2) [OF metrics_extends_run [OF ok1] i(2,1)] by metis
qed

theorem kind_mismatch_returns_null_witness:
  "fst (metric_gauge ''m'' ''h'' [] (snd (metric_counter ''m'' ''h'' [] new_metrics))) = None"
  using kind_mismatch_returns_null [where hist = "[]" and later = "[]" and name = "''m''" and descr = "''h''"
      and labels = "[]" and r = "Some 0" and m' = "snd (metric_counter ''m'' ''h'' [] new_metrics)"]
  by (simp add: metric_counter_def new_metrics_def Let_def)

section \<open>Counting\<close>

fun increment_of :: "nat \<Rightarrow> metric_op \<Rightarrow> u64" where
  "increment_of h (Increment h' delta) = (if h' = h then delta else 0)"
| "increment_of h _ = 0"

lemma counter_step:
  "h < length (counters m) \<Longrightarrow>
   h < length (counters (metric_step op m)) \<and>
   counter_value (metric_step op m) h = counter_value m h + increment_of h op"
  by (cases op)
     (auto simp: metric_counter_def metric_gauge_def counter_increment_def gauge_set_def gauge_add_def counter_value_def
        nth_append nth_list_update Let_def split: option.split)

lemma counter_run:
  "h < length (counters m) \<Longrightarrow>
   h < length (counters (fold metric_step ops m)) \<and>
   counter_value (fold metric_step ops m) h = counter_value m h + sum_list (map (increment_of h) ops)"
proof (induction ops arbitrary: m)
  case Nil
  then show ?case by simp
next
  case (Cons op ops)
  then show ?case using counter_step [of h m op] by (simp add: add.assoc)
qed

text \<open>
  A counter counts: from its first registration on, its value is the sum, modulo 2^64,
  of the increments made through its handle; registrations, gauges and other counters do not
  change it.
\<close>

theorem counter_value_is_sum_of_increments:
  assumes "map_of (metric_index m) (metric_key name labels) = None"
    and "metric_counter name descr labels m = (Some h, m')"
  shows "counter_value (fold metric_step ops m') h = sum_list (map (increment_of h) ops)"
proof -
  have "h = length (counters m)" "counters m' = counters m @ [0]"
    using assms by (auto simp: metric_counter_def Let_def)
  then show ?thesis using counter_run [of h m' ops] by (simp add: counter_value_def)
qed

theorem counter_value_is_sum_of_increments_witness:
  "counter_value (fold metric_step [Increment 0 3, Increment 7 1, Increment 0 4]
      (snd (metric_counter ''m'' ''h'' [] new_metrics))) 0 = 7"
  using counter_value_is_sum_of_increments
    [of new_metrics "''m''" "[]" "''h''" 0 "snd (metric_counter ''m'' ''h'' [] new_metrics)"
        "[Increment 0 3, Increment 7 1, Increment 0 4]"]
  by (simp add: metric_counter_def new_metrics_def Let_def)

section \<open>Keys\<close>

lemma foldl_render_label:
  "foldl (\<lambda>(first, out) kv. (False, out @ (if first then [] else '','') @ render_label kv)) (True, ''{'') ls =
     (ls = [], ''{'' @ sep_items render_label CHR '','' ls)"
  by (induction ls rule: rev_induct) (auto simp: sep_items_snoc)

lemma render_labels_eq:
  "render_labels ls = (if ls = [] then [] else ''{'' @ sep_items render_label CHR '','' ls @ ''}'')"
  by (simp add: render_labels_def foldl_render_label)

text \<open>Names and labels as the exposition format wants them: no delimiter inside.\<close>

definition clean_name :: "string \<Rightarrow> bool" where
  "clean_name s \<longleftrightarrow> CHR ''{'' \<notin> set s \<and> CHR ''='' \<notin> set s \<and> CHR 0x22 \<notin> set s \<and> CHR '','' \<notin> set s \<and>
     CHR ''}'' \<notin> set s"

definition clean_labels :: "labels \<Rightarrow> bool" where
  "clean_labels ls \<longleftrightarrow> (\<forall>(k, v) \<in> set ls. clean_name k \<and> CHR 0x22 \<notin> set v)"

lemma clean_label_unique:
  assumes "clean_name k" "CHR 0x22 \<notin> set v" "clean_name k'" "CHR 0x22 \<notin> set v'"
    and "render_label (k, v) @ r = render_label (k', v') @ r'"
  shows "k = k' \<and> v = v' \<and> r = r'"
proof -
  have "k @ CHR ''='' # CHR 0x22 # v @ CHR 0x22 # r = k' @ CHR ''='' # CHR 0x22 # v' @ CHR 0x22 # r'"
    using assms(5) by (simp add: render_label_def)
  then show ?thesis using assms(1-4) by (simp add: split_at_unique clean_name_def)
qed

lemma clean_label_not_brace:
  assumes "clean_name k"
  shows "render_label (k, v) @ r \<noteq> CHR ''}'' # r'"
  using assms by (cases k) (auto simp: render_label_def clean_name_def)

lemma clean_tail_unique:
  "clean_labels xs \<Longrightarrow> clean_labels ys \<Longrightarrow>
   concat (map (\<lambda>kv. CHR '','' # render_label kv) xs) @ ''}'' =
   concat (map (\<lambda>kv. CHR '','' # render_label kv) ys) @ ''}'' \<Longrightarrow> xs = ys"
proof (induction xs arbitrary: ys)
  case Nil
  then show ?case by (cases ys) auto
next
  case (Cons x xs)
  then obtain y ys' where ys: "ys = y # ys'" by (cases ys) auto
  obtain k v k' v' where xy: "x = (k, v)" "y = (k', v')" by fastforce
  have "render_label (k, v) @ concat (map (\<lambda>kv. CHR '','' # render_label kv) xs) @ ''}'' =
      render_label (k', v') @ concat (map (\<lambda>kv. CHR '','' # render_label kv) ys') @ ''}''"
    using Cons.prems(3) by (simp add: ys xy)
  then have "x = y" "concat (map (\<lambda>kv. CHR '','' # render_label kv) xs) @ ''}'' =
      concat (map (\<lambda>kv. CHR '','' # render_label kv) ys') @ ''}''"
    using clean_label_unique [of k v k' v'] Cons.prems(1,2) by (auto simp: clean_labels_def xy ys)
  then show ?case using Cons.IH [of ys'] Cons.prems(1,2) by (simp add: ys clean_labels_def)
qed

text \<open>
  Series with different clean names or labels have different keys, so the registry keeps
  them apart: clean means no delimiter of the format in the name and the label names, and no
  double quote in the label values.
\<close>

theorem metric_key_injective_on_clean_labels:
  assumes "clean_name name" "clean_labels ls" "clean_name name'" "clean_labels ls'"
    and "metric_key name ls = metric_key name' ls'"
  shows "name = name' \<and> ls = ls'"
proof (cases "ls = [] \<or> ls' = []")
  case True
  then show ?thesis
    using assms by (auto simp: metric_key_def render_labels_eq clean_name_def split: if_splits)
next
  case False
  then obtain x xs y ys where ls: "ls = x # xs" "ls' = y # ys" by (meson list.exhaust)
  obtain k v k' v' where xy: "x = (k, v)" "y = (k', v')" by fastforce
  have "name @ CHR ''{'' # sep_items render_label CHR '','' ls @ ''}'' =
      name' @ CHR ''{'' # sep_items render_label CHR '','' ls' @ ''}''"
    using assms(5) False by (simp add: metric_key_def render_labels_eq)
  then have names: "name = name'" and items: "render_label (k, v) @ concat (map (\<lambda>kv. CHR '','' # render_label kv) xs) @ ''}'' =
      render_label (k', v') @ concat (map (\<lambda>kv. CHR '','' # render_label kv) ys) @ ''}''"
    using assms(1,3) by (simp_all add: split_at_unique clean_name_def ls xy)
  have "x = y" and rest: "concat (map (\<lambda>kv. CHR '','' # render_label kv) xs) @ ''}'' =
      concat (map (\<lambda>kv. CHR '','' # render_label kv) ys) @ ''}''"
    using clean_label_unique [OF _ _ _ _ items] assms(2,4) by (auto simp: clean_labels_def ls xy)
  moreover have "xs = ys"
    using clean_tail_unique [OF _ _ rest] assms(2,4) by (simp add: clean_labels_def ls)
  ultimately show ?thesis using names by (simp add: ls)
qed

theorem metric_key_injective_on_clean_labels_witness:
  "metric_key ''m'' [(''a'', ''1'')] \<noteq> metric_key ''m'' [(''a'', ''1''), (''b'', ''2'')]"
  using metric_key_injective_on_clean_labels [of "''m''" "[(''a'', ''1'')]" "''m''" "[(''a'', ''1''), (''b'', ''2'')]"]
  by (auto simp: clean_name_def clean_labels_def)

text \<open>
  Label values are not escaped: a value that holds a double quote can make one series
  have the key of another with one label more, and whichever is registered second is handed
  the first one's counter.
\<close>

theorem label_values_are_not_escaped:
  "metric_counter name descr' [(a, v), (b, w)]
      (snd (metric_counter name descr [(a, v @ ''\",'' @ b @ ''=\"'' @ w)] new_metrics)) =
   metric_counter name descr [(a, v @ ''\",'' @ b @ ''=\"'' @ w)]
      (snd (metric_counter name descr [(a, v @ ''\",'' @ b @ ''=\"'' @ w)] new_metrics))"
proof -
  have "metric_key name [(a, v), (b, w)] = metric_key name [(a, v @ ''\",'' @ b @ ''=\"'' @ w)]"
    by (simp add: metric_key_def render_labels_eq render_label_def)
  then show ?thesis by (simp add: metric_counter_def new_metrics_def Let_def)
qed

section \<open>The exposition text\<close>

definition last_name :: "metrics \<Rightarrow> string" where
  "last_name m = (if metric_entries m = [] then [] else me_name (last (metric_entries m)))"

lemma fold_render_last:
  "fst (foldl (render_entry m) (n, out) es) = (if es = [] then n else me_name (last es))"
  by (induction es rule: rev_induct) (auto simp: render_entry_def split: prod.splits)

lemma render_sample_stable:
  assumes "me_counter e = None \<or> the (me_counter e) < length (counters m)"
    and "me_gauge e = None \<or> the (me_gauge e) < length (gauges m)" and "entry_valid nc ng e"
    and "counters m' = counters m @ cs" and "gauges m' = gauges m @ gs"
  shows "render_sample m' e = render_sample m e"
  using assms
  by (auto simp: render_sample_def entry_value_def counter_value_def gauge_value_def nth_append entry_valid_def
      split: metric_kind.splits)

lemma foldl_cong_on:
  "(\<And>acc e. e \<in> set es \<Longrightarrow> f acc e = g acc e) \<Longrightarrow> foldl f acc es = foldl g acc es"
  by (induction es arbitrary: acc) auto

text \<open>
  A new series is appended to the text: registering a counter under a new key leaves the
  text of the earlier series as it is and adds its sample, zero, after a HELP and TYPE header
  exactly when the series registered last has another name.
\<close>

theorem registration_appends_to_exposition:
  assumes "map_of (metric_index (fold metric_step ops new_metrics)) (metric_key name labels) = None"
  shows "render_prometheus (snd (metric_counter name descr labels (fold metric_step ops new_metrics))) =
         render_prometheus (fold metric_step ops new_metrics) @
         (if name \<noteq> last_name (fold metric_step ops new_metrics)
          then ''# HELP '' @ name @ '' '' @ descr @ [CHR 0x0A] @ ''# TYPE '' @ name @ '' counter'' @ [CHR 0x0A]
          else []) @
         metric_key name labels @ '' 0'' @ [CHR 0x0A]"
proof -
  define m where "m = fold metric_step ops new_metrics"
  define e where "e = \<lparr>me_name = name, me_help = descr, me_labels = labels, me_kind = KCounter,
    me_counter = Some (length (counters m)), me_gauge = None\<rparr>"
  define m' where "m' = snd (metric_counter name descr labels m)"
  have m': "metric_entries m' = metric_entries m @ [e]" "counters m' = counters m @ [0]" "gauges m' = gauges m @ []"
    using assms by (simp_all add: m'_def m_def [symmetric] metric_counter_def Let_def e_def)
  have ok: "metrics_ok m" unfolding m_def by (rule metrics_ok_run [OF metrics_ok_new])
  have "render_sample m' x = render_sample m x" if "x \<in> set (metric_entries m)" for x
  proof (rule render_sample_stable [OF _ _ _ m'(2,3)])
    have v: "entry_valid (length (counters m)) (length (gauges m)) x"
      using ok that by (simp add: metrics_ok_alt)
    show "entry_valid (length (counters m)) (length (gauges m)) x" by (rule v)
    show "me_counter x = None \<or> the (me_counter x) < length (counters m)"
      "me_gauge x = None \<or> the (me_gauge x) < length (gauges m)"
      using v by (auto simp: entry_valid_def split: metric_kind.splits)
  qed
  then have same: "foldl (render_entry m') ([], []) (metric_entries m) =
      foldl (render_entry m) ([], []) (metric_entries m)"
    by (intro foldl_cong_on) (simp add: render_entry_def split: prod.splits)
  have "print_double (entry_value m' e) = ''0''"
    using print_small_count [of 0]
    by (simp add: entry_value_def e_def counter_value_def m'(2) dec_nat.simps [of 0] digit_char_def
        char_of_def bit_0)
  then have sample: "render_sample m' e = metric_key name labels @ '' 0'' @ [CHR 0x0A]"
    by (simp add: render_sample_def e_def metric_key_def)
  have "render_prometheus m' = snd (render_entry m' (foldl (render_entry m) ([], []) (metric_entries m)) e)"
    by (simp add: render_prometheus_def m'(1) same)
  moreover have "fst (foldl (render_entry m) ([], []) (metric_entries m)) = last_name m"
    by (simp add: fold_render_last last_name_def)
  moreover have "me_name e = name" "me_help e = descr" "me_kind e = KCounter" by (simp_all add: e_def)
  ultimately show ?thesis
    unfolding m_def [symmetric] m'_def [symmetric]
    by (auto simp: render_entry_def sample render_header_def render_prometheus_def split: prod.splits)
qed

theorem registration_appends_to_exposition_witness:
  "render_prometheus (snd (metric_counter ''c'' ''h'' [] (fold metric_step [] new_metrics))) =
   render_prometheus (fold metric_step [] new_metrics) @
   (if ''c'' \<noteq> last_name (fold metric_step [] new_metrics)
    then ''# HELP '' @ ''c'' @ '' '' @ ''h'' @ [CHR 0x0A] @ ''# TYPE '' @ ''c'' @ '' counter'' @ [CHR 0x0A]
    else []) @ metric_key ''c'' [] @ '' 0'' @ [CHR 0x0A]"
  by (rule registration_appends_to_exposition) (simp add: new_metrics_def)

text \<open>
  A counter below one million is printed exactly: its sample line is the series' key and
  the decimal digits of its value.
\<close>

theorem small_counter_sample_is_exact:
  assumes "me_kind e = KCounter" and "me_counter e = Some h" and "unat (counter_value m h) < 1000000"
  shows "render_sample m e = entry_key e @ '' '' @ dec_nat (unat (counter_value m h)) @ [CHR 0x0A]"
  using assms print_small_count [of "counter_value m h"]
  by (simp add: render_sample_def entry_value_def entry_key_def metric_key_def)

theorem small_counter_sample_is_exact_witness:
  "render_sample (snd (metric_counter ''c'' ''h'' [] new_metrics))
     \<lparr>me_name = ''c'', me_help = ''h'', me_labels = [], me_kind = KCounter, me_counter = Some 0, me_gauge = None\<rparr> =
   ''c '' @ dec_nat 0 @ [CHR 0x0A]"
  using small_counter_sample_is_exact
    [of "\<lparr>me_name = ''c'', me_help = ''h'', me_labels = [], me_kind = KCounter, me_counter = Some 0, me_gauge = None\<rparr>"
        0 "snd (metric_counter ''c'' ''h'' [] new_metrics)"]
  by (simp add: metric_counter_def new_metrics_def counter_value_def entry_key_def metric_key_def
      render_labels_def Let_def)

lemma print_million:
  assumes "1000000 \<le> n" and "n < 10000000" and "0 < d" and "0 < d'"
    and "1000000 \<le> n'" and "n' < 10000000" and "div_half_even n 10 = div_half_even n' 10"
  shows "print_g (n * d) d = print_g (n' * d') d'"
proof -
  have log: "floor_log_nat 10 x = 6" if "1000000 \<le> x" "x < 10000000" for x
  proof -
    define k where "k = floor_log_nat 10 x"
    have k: "10 ^ k \<le> x" "x < 10 * 10 ^ k"
      using floor_log_nat_bounds [of 10 x] that by (simp_all add: k_def)
    have "k < 7" using floor_log_less [of 10 x 7] that by (simp add: k_def)
    moreover have "\<not> k < 6"
    proof
      assume "k < 6"
      then have "(10 :: nat) ^ Suc k \<le> 10 ^ 6" by (intro power_increasing) auto
      with k(2) that(1) show False by simp
    qed
    ultimately show ?thesis by (simp add: k_def)
  qed
  have half: "div_half_even (x * c) (c * 10) = div_half_even x 10" if "0 < c" for x c
    using that unfolding div_half_even_def Let_def
    by (simp add: mult.commute [of x c] mult_mod_right [symmetric] mult.left_commute [of 2 c])
  have digits: "g_digits (x * c) c =
      (if div_half_even x 10 = 1000000 then (100000, 7) else (div_half_even x 10, 6))"
    if "1000000 \<le> x" "x < 10000000" "0 < c" for x c
    using log [OF that(1,2)] that half [OF that(3)]
    by (simp add: g_digits_def floor_log_frac_exact Let_def)
  show ?thesis
    using assms digits [OF assms(1-3)] digits [OF assms(5,6,4)]
    by (simp add: print_g_def)
qed

text \<open>
  From one million on counters lose digits: two seven-digit counters that agree when
  rounded to tens are printed as the same text, so the text does not determine a counter's
  value and a scrape can miss increments.
\<close>

theorem large_counters_print_alike:
  assumes "1000000 \<le> unat a" "unat a < 10000000" "1000000 \<le> unat b" "unat b < 10000000"
    and "div_half_even (unat a) 10 = div_half_even (unat b) 10"
  shows "print_double (u64_to_double a) = print_double (u64_to_double b)"
proof -
  obtain d where d: "0 < d" "dbl_decode (u64_to_double a) = Finite False (unat a * d) d"
    using u64_to_double_exact [of a] assms by auto
  obtain d' where d': "0 < d'" "dbl_decode (u64_to_double b) = Finite False (unat b * d') d'"
    using u64_to_double_exact [of b] assms by auto
  show ?thesis using print_million [OF assms(1,2) d(1) d'(1) assms(3-5)] by (simp add: print_double_def d(2) d'(2))
qed

theorem large_counters_print_alike_witness:
  "print_double (u64_to_double 1234568) = print_double (u64_to_double 1234571)"
  by (rule large_counters_print_alike) (simp_all add: div_half_even_def)

end
