(* ===== verification/Metric_Spec.thy ===== *)
theory Metric_Spec
  imports Metrics
begin

text \<open>
  What the metric registry promises (include/uaop/common/metrics.h): a table from series,
  named by their keys, to cells that hold a count or a level. The entries, the index, the
  shared objects and the handles of the implementation are hidden by \<open>registry_view\<close>.
\<close>

section \<open>The table\<close>

datatype cell = Count u64 | Level double

type_synonym registry = "string \<Rightarrow> cell option"

datatype cell_op =
    Want_counter string | Want_gauge string
  | Count_up string u64 | Put_level string double | Add_level string double

fun cell_step :: "cell_op \<Rightarrow> registry \<Rightarrow> registry" where
  "cell_step (Want_counter k) r = (if r k = None then r(k \<mapsto> Count 0) else r)"
| "cell_step (Want_gauge k) r = (if r k = None then r(k \<mapsto> Level 0) else r)"
| "cell_step (Count_up k delta) r = (case r k of Some (Count n) \<Rightarrow> r(k \<mapsto> Count (n + delta)) | _ \<Rightarrow> r)"
| "cell_step (Put_level k v) r = (case r k of Some (Level x) \<Rightarrow> r(k \<mapsto> Level v) | _ \<Rightarrow> r)"
| "cell_step (Add_level k delta) r = (case r k of Some (Level x) \<Rightarrow> r(k \<mapsto> Level (dbl_add x delta)) | _ \<Rightarrow> r)"

definition entry_cell :: "metrics \<Rightarrow> metric_entry \<Rightarrow> cell" where
  "entry_cell m e =
     (case me_kind e of KCounter \<Rightarrow> Count (counter_value m (the (me_counter e)))
      | KGauge \<Rightarrow> Level (gauge_value m (the (me_gauge e))))"

definition registry_view :: "metrics \<Rightarrow> registry" where
  "registry_view m k = map_option (\<lambda>i. entry_cell m (metric_entries m ! i)) (map_of (metric_index m) k)"

text \<open>A handle stands for the series whose entry holds it; one held by no entry, for none.\<close>

definition counter_series :: "metrics \<Rightarrow> nat \<Rightarrow> string option" where
  "counter_series m h = map_option entry_key (find (\<lambda>e. me_counter e = Some h) (metric_entries m))"

definition gauge_series :: "metrics \<Rightarrow> nat \<Rightarrow> string option" where
  "gauge_series m h = map_option entry_key (find (\<lambda>e. me_gauge e = Some h) (metric_entries m))"

fun cell_op_of :: "metrics \<Rightarrow> metric_op \<Rightarrow> cell_op option" where
  "cell_op_of m (Register_counter name descr labels) = Some (Want_counter (metric_key name labels))"
| "cell_op_of m (Register_gauge name descr labels) = Some (Want_gauge (metric_key name labels))"
| "cell_op_of m (Increment h delta) = map_option (\<lambda>k. Count_up k delta) (counter_series m h)"
| "cell_op_of m (Set_gauge h v) = map_option (\<lambda>k. Put_level k v) (gauge_series m h)"
| "cell_op_of m (Add_gauge h delta) = map_option (\<lambda>k. Add_level k delta) (gauge_series m h)"

fun cell_trace :: "metrics \<Rightarrow> metric_op list \<Rightarrow> cell_op list" where
  "cell_trace m [] = []"
| "cell_trace m (op # ops) =
     (case cell_op_of m op of None \<Rightarrow> cell_trace (metric_step op m) ops
      | Some c \<Rightarrow> c # cell_trace (metric_step op m) ops)"

section \<open>Handles are not shared\<close>

definition handles_distinct :: "metrics \<Rightarrow> bool" where
  "handles_distinct m \<longleftrightarrow>
     (\<forall>i < length (metric_entries m). \<forall>j < length (metric_entries m). \<forall>h.
        (me_counter (metric_entries m ! i) = Some h \<and> me_counter (metric_entries m ! j) = Some h \<longrightarrow> i = j) \<and>
        (me_gauge (metric_entries m ! i) = Some h \<and> me_gauge (metric_entries m ! j) = Some h \<longrightarrow> i = j))"

definition registry_ok :: "metrics \<Rightarrow> bool" where
  "registry_ok m \<longleftrightarrow> metrics_ok m \<and> handles_distinct m"

lemma registry_ok_new: "registry_ok new_metrics"
  using metrics_ok_new by (simp add: registry_ok_def) (simp add: handles_distinct_def new_metrics_def)

lemma entry_handle_bound:
  assumes "metrics_ok m" "i < length (metric_entries m)"
  shows "me_counter (metric_entries m ! i) = Some h \<Longrightarrow> h < length (counters m)"
    and "me_gauge (metric_entries m ! i) = Some h \<Longrightarrow> h < length (gauges m)"
proof -
  have "entry_valid (length (counters m)) (length (gauges m)) (metric_entries m ! i)"
    using assms by (simp add: metrics_ok_alt)
  then show "me_counter (metric_entries m ! i) = Some h \<Longrightarrow> h < length (counters m)"
    and "me_gauge (metric_entries m ! i) = Some h \<Longrightarrow> h < length (gauges m)"
    by (auto simp: entry_valid_def split: metric_kind.splits)
qed

lemma next_handle_free:
  assumes "metrics_ok m" "i < length (metric_entries m)"
  shows "me_counter (metric_entries m ! i) \<noteq> Some (length (counters m))"
    and "me_gauge (metric_entries m ! i) \<noteq> Some (length (gauges m))"
  using entry_handle_bound [OF assms] by blast+

lemma handles_distinct_add:
  assumes "handles_distinct m" "metric_entries m' = metric_entries m @ [e]"
    and new: "\<And>i h. i < length (metric_entries m) \<Longrightarrow> me_counter e = Some h \<Longrightarrow> me_counter (metric_entries m ! i) \<noteq> Some h"
      "\<And>i h. i < length (metric_entries m) \<Longrightarrow> me_gauge e = Some h \<Longrightarrow> me_gauge (metric_entries m ! i) \<noteq> Some h"
  shows "handles_distinct m'"
  unfolding handles_distinct_def
proof (intro allI impI)
  fix i j h
  assume "i < length (metric_entries m')" "j < length (metric_entries m')"
  then consider "i < length (metric_entries m)" "j < length (metric_entries m)" | "i = j"
    | "i < length (metric_entries m)" "j = length (metric_entries m)"
    | "j < length (metric_entries m)" "i = length (metric_entries m)"
    using assms(2) by fastforce
  then show "(me_counter (metric_entries m' ! i) = Some h \<and> me_counter (metric_entries m' ! j) = Some h \<longrightarrow> i = j) \<and>
    (me_gauge (metric_entries m' ! i) = Some h \<and> me_gauge (metric_entries m' ! j) = Some h \<longrightarrow> i = j)"
  proof cases
    case 1
    then show ?thesis using assms(1) unfolding handles_distinct_def by (simp add: assms(2) nth_append)
  qed (use new in \<open>auto simp: assms(2) nth_append\<close>)
qed

lemma handles_distinct_register:
  assumes "metrics_ok m" "handles_distinct m"
  shows "handles_distinct (snd (metric_counter name descr labels m))"
    and "handles_distinct (snd (metric_gauge name descr labels m))"
proof -
  show "handles_distinct (snd (metric_counter name descr labels m))"
  proof (cases "map_of (metric_index m) (metric_key name labels)")
    case None
    then show ?thesis using next_handle_free [OF assms(1)]
      by (intro handles_distinct_add [OF assms(2)]) (auto simp: metric_counter_def Let_def)
  qed (use assms(2) in \<open>simp add: metric_counter_def Let_def\<close>)
  show "handles_distinct (snd (metric_gauge name descr labels m))"
  proof (cases "map_of (metric_index m) (metric_key name labels)")
    case None
    then show ?thesis using next_handle_free [OF assms(1)]
      by (intro handles_distinct_add [OF assms(2)]) (auto simp: metric_gauge_def Let_def)
  qed (use assms(2) in \<open>simp add: metric_gauge_def Let_def\<close>)
qed

lemma registry_ok_step: "registry_ok m \<Longrightarrow> registry_ok (metric_step op m)"
  unfolding registry_ok_def using metrics_ok_step [of m op] handles_distinct_register [of m]
  by (cases op) (simp_all add: handles_distinct_def counter_increment_def gauge_set_def gauge_add_def)

lemma registry_ok_run: "registry_ok m \<Longrightarrow> registry_ok (fold metric_step ops m)"
  by (induction ops arbitrary: m) (auto simp: registry_ok_step)

section \<open>Each operation commutes with the view\<close>

lemma registry_view_None: "registry_view m k = None \<longleftrightarrow> map_of (metric_index m) k = None"
  by (simp add: registry_view_def)

lemma registry_view_entry:
  "metrics_ok m \<Longrightarrow> i < length (metric_entries m) \<Longrightarrow>
   registry_view m (entry_key (metric_entries m ! i)) = Some (entry_cell m (metric_entries m ! i))"
  by (simp add: registry_view_def metrics_ok_alt) (metis option.simps(9))

lemma registry_view_cases:
  assumes "metrics_ok m"
  obtains "registry_view m k = None" "\<And>i. i < length (metric_entries m) \<Longrightarrow> entry_key (metric_entries m ! i) \<noteq> k"
  | i where "i < length (metric_entries m)" "entry_key (metric_entries m ! i) = k"
      "registry_view m k = Some (entry_cell m (metric_entries m ! i))"
proof (cases "map_of (metric_index m) k")
  case None
  then show ?thesis using assms that(1) unfolding registry_view_def metrics_ok_alt
    by (metis (no_types, lifting) option.map_disc_iff option.simps(3))
next
  case (Some i)
  then show ?thesis using assms that(2) unfolding registry_view_def metrics_ok_alt
    by (metis (no_types, lifting) option.simps(9))
qed

text \<open>A new entry, for both kinds: the other series keep their cells.\<close>

lemma registry_view_add:
  assumes "metrics_ok m" "map_of (metric_index m) k = None"
    and "metric_index m' = om_put k (length (metric_entries m)) (metric_index m)"
    and "metric_entries m' = metric_entries m @ [e]"
    and "\<And>i. i < length (metric_entries m) \<Longrightarrow> entry_cell m' (metric_entries m ! i) = entry_cell m (metric_entries m ! i)"
  shows "registry_view m' = (registry_view m)(k \<mapsto> entry_cell m' e)"
proof
  fix k'
  have sorted: "om_sorted (metric_index m)" using assms(1) by (simp add: metrics_ok_alt)
  have "i < length (metric_entries m)" if "map_of (metric_index m) k' = Some i" for i
    using that assms(1) by (simp add: metrics_ok_alt)
  then show "registry_view m' k' = ((registry_view m)(k \<mapsto> entry_cell m' e)) k'"
    using assms(2-5) sorted by (cases "map_of (metric_index m) k'") (auto simp: registry_view_def nth_append)
qed

lemma entry_cell_grow:
  assumes "metrics_ok m" "i < length (metric_entries m)"
  shows "entry_cell (m\<lparr>counters := counters m @ cs, metric_index := ix, metric_entries := es\<rparr>) (metric_entries m ! i) =
      entry_cell m (metric_entries m ! i)"
    and "entry_cell (m\<lparr>gauges := gauges m @ gs, metric_index := ix, metric_entries := es\<rparr>) (metric_entries m ! i) =
      entry_cell m (metric_entries m ! i)"
proof -
  have "entry_valid (length (counters m)) (length (gauges m)) (metric_entries m ! i)"
    using assms by (simp add: metrics_ok_alt)
  then show "entry_cell (m\<lparr>counters := counters m @ cs, metric_index := ix, metric_entries := es\<rparr>) (metric_entries m ! i) =
      entry_cell m (metric_entries m ! i)"
    and "entry_cell (m\<lparr>gauges := gauges m @ gs, metric_index := ix, metric_entries := es\<rparr>) (metric_entries m ! i) =
      entry_cell m (metric_entries m ! i)"
    by (auto simp: entry_valid_def entry_cell_def counter_value_def gauge_value_def nth_append split: metric_kind.splits)
qed

lemma view_register_counter:
  assumes "metrics_ok m"
  shows "registry_view (snd (metric_counter name descr labels m)) =
    cell_step (Want_counter (metric_key name labels)) (registry_view m)"
proof (cases "map_of (metric_index m) (metric_key name labels)")
  case None
  let ?m' = "snd (metric_counter name descr labels m)"
  have "registry_view ?m' = (registry_view m)(metric_key name labels \<mapsto> entry_cell ?m' (last (metric_entries ?m')))"
    by (rule registry_view_add [OF assms None])
      (use None in \<open>simp_all add: metric_counter_def Let_def entry_cell_grow [OF assms]\<close>)
  moreover have "entry_cell ?m' (last (metric_entries ?m')) = Count 0"
    using None by (simp add: metric_counter_def Let_def entry_cell_def counter_value_def)
  ultimately show ?thesis using None by (simp add: registry_view_None)
next
  case (Some i)
  then show ?thesis by (simp add: metric_counter_def registry_view_None Let_def)
qed

lemma view_register_gauge:
  assumes "metrics_ok m"
  shows "registry_view (snd (metric_gauge name descr labels m)) =
    cell_step (Want_gauge (metric_key name labels)) (registry_view m)"
proof (cases "map_of (metric_index m) (metric_key name labels)")
  case None
  let ?m' = "snd (metric_gauge name descr labels m)"
  have "registry_view ?m' = (registry_view m)(metric_key name labels \<mapsto> entry_cell ?m' (last (metric_entries ?m')))"
    by (rule registry_view_add [OF assms None])
      (use None in \<open>simp_all add: metric_gauge_def Let_def entry_cell_grow [OF assms]\<close>)
  moreover have "entry_cell ?m' (last (metric_entries ?m')) = Level 0"
    using None by (simp add: metric_gauge_def Let_def entry_cell_def gauge_value_def)
  ultimately show ?thesis using None by (simp add: registry_view_None)
next
  case (Some i)
  then show ?thesis by (simp add: metric_gauge_def registry_view_None Let_def)
qed

lemma series_Some:
  assumes "handles_distinct m" "metrics_ok m"
  shows "counter_series m h = Some k \<Longrightarrow> \<exists>i < length (metric_entries m).
      entry_key (metric_entries m ! i) = k \<and> me_kind (metric_entries m ! i) = KCounter \<and>
      me_counter (metric_entries m ! i) = Some h \<and> h < length (counters m) \<and>
      (\<forall>j < length (metric_entries m). me_counter (metric_entries m ! j) = Some h \<longrightarrow> j = i)"
    and "gauge_series m h = Some k \<Longrightarrow> \<exists>i < length (metric_entries m).
      entry_key (metric_entries m ! i) = k \<and> me_kind (metric_entries m ! i) = KGauge \<and>
      me_gauge (metric_entries m ! i) = Some h \<and> h < length (gauges m) \<and>
      (\<forall>j < length (metric_entries m). me_gauge (metric_entries m ! j) = Some h \<longrightarrow> j = i)"
proof -
  have valid: "entry_valid (length (counters m)) (length (gauges m)) (metric_entries m ! i)"
    if "i < length (metric_entries m)" for i
    using that assms(2) by (simp add: metrics_ok_alt)
  show "\<exists>i < length (metric_entries m).
      entry_key (metric_entries m ! i) = k \<and> me_kind (metric_entries m ! i) = KCounter \<and>
      me_counter (metric_entries m ! i) = Some h \<and> h < length (counters m) \<and>
      (\<forall>j < length (metric_entries m). me_counter (metric_entries m ! j) = Some h \<longrightarrow> j = i)"
    if series: "counter_series m h = Some k"
  proof -
    from series obtain i where i: "i < length (metric_entries m)" "me_counter (metric_entries m ! i) = Some h"
        "entry_key (metric_entries m ! i) = k"
      by (auto simp: counter_series_def find_Some_iff)
    then show ?thesis using valid [OF i(1)] assms(1)
      by (intro exI [of _ i]) (auto simp: entry_valid_def handles_distinct_def split: metric_kind.splits)
  qed
  show "\<exists>i < length (metric_entries m).
      entry_key (metric_entries m ! i) = k \<and> me_kind (metric_entries m ! i) = KGauge \<and>
      me_gauge (metric_entries m ! i) = Some h \<and> h < length (gauges m) \<and>
      (\<forall>j < length (metric_entries m). me_gauge (metric_entries m ! j) = Some h \<longrightarrow> j = i)"
    if series: "gauge_series m h = Some k"
  proof -
    from series obtain i where i: "i < length (metric_entries m)" "me_gauge (metric_entries m ! i) = Some h"
        "entry_key (metric_entries m ! i) = k"
      by (auto simp: gauge_series_def find_Some_iff)
    then show ?thesis using valid [OF i(1)] assms(1)
      by (intro exI [of _ i]) (auto simp: entry_valid_def handles_distinct_def split: metric_kind.splits)
  qed
qed

text \<open>An update that changes the cell of one entry only.\<close>

lemma registry_view_update:
  assumes "metrics_ok m" "metric_index m' = metric_index m" "metric_entries m' = metric_entries m"
    and "i < length (metric_entries m)" "entry_key (metric_entries m ! i) = k"
    and "\<And>j. j < length (metric_entries m) \<Longrightarrow> j \<noteq> i \<Longrightarrow>
      entry_cell m' (metric_entries m ! j) = entry_cell m (metric_entries m ! j)"
  shows "registry_view m' = (registry_view m)(k \<mapsto> entry_cell m' (metric_entries m ! i))"
proof
  fix k'
  have ix: "map_of (metric_index m) k' = Some j \<longleftrightarrow> j < length (metric_entries m) \<and> entry_key (metric_entries m ! j) = k'" for j
    using assms(1) by (simp add: metrics_ok_alt)
  show "registry_view m' k' = ((registry_view m)(k \<mapsto> entry_cell m' (metric_entries m ! i))) k'"
  proof (cases "map_of (metric_index m) k'")
    case None
    then have "k' \<noteq> k" using ix [of i] assms(4,5) by auto
    with None show ?thesis by (simp add: registry_view_def assms(2))
  next
    case (Some j)
    then have j: "j < length (metric_entries m)" "entry_key (metric_entries m ! j) = k'" using ix by blast+
    show ?thesis
    proof (cases "k' = k")
      case True
      then have "map_of (metric_index m) k' = Some i" using ix assms(4,5) by blast
      with True show ?thesis by (simp add: registry_view_def assms(2,3))
    next
      case False
      then have "j \<noteq> i" using j assms(5) by blast
      with False Some j assms(6) show ?thesis by (simp add: registry_view_def assms(2,3))
    qed
  qed
qed

lemma unowned_update:
  assumes "metrics_ok m" "metric_index m' = metric_index m" "metric_entries m' = metric_entries m"
    and "\<And>e. e \<in> set (metric_entries m) \<Longrightarrow> entry_cell m' e = entry_cell m e"
  shows "registry_view m' = registry_view m"
proof
  fix k
  have "i < length (metric_entries m)" if "map_of (metric_index m) k = Some i" for i
    using that assms(1) by (simp add: metrics_ok_alt)
  then show "registry_view m' k = registry_view m k"
    using assms(2-4) by (cases "map_of (metric_index m) k") (auto simp: registry_view_def)
qed

lemma entry_cell_other:
  assumes "entry_valid (length (counters m)) (length (gauges m)) e"
  shows "me_counter e \<noteq> Some h \<Longrightarrow> entry_cell (counter_increment h delta m) e = entry_cell m e"
    and "me_gauge e \<noteq> Some h \<Longrightarrow> entry_cell (gauge_set h v m) e = entry_cell m e"
proof -
  have kinds: "me_kind e = KCounter \<and> (\<exists>h'. me_counter e = Some h') \<or> me_kind e = KGauge \<and> (\<exists>h'. me_gauge e = Some h')"
    using assms by (auto simp: entry_valid_def split: metric_kind.splits)
  show "entry_cell (counter_increment h delta m) e = entry_cell m e" if "me_counter e \<noteq> Some h"
    using kinds that by (auto simp: entry_cell_def counter_increment_def counter_value_def gauge_value_def
        intro: nth_list_update_neq)
  show "entry_cell (gauge_set h v m) e = entry_cell m e" if "me_gauge e \<noteq> Some h"
    using kinds that by (auto simp: entry_cell_def gauge_set_def counter_value_def gauge_value_def
        intro: nth_list_update_neq)
qed

lemma update_fields [simp]:
  "metric_index (counter_increment h delta m) = metric_index m"
  "metric_entries (counter_increment h delta m) = metric_entries m"
  "metric_index (gauge_set h v m) = metric_index m"
  "metric_entries (gauge_set h v m) = metric_entries m"
  by (simp_all add: counter_increment_def gauge_set_def)

lemma valid_entry:
  "metrics_ok m \<Longrightarrow> e \<in> set (metric_entries m) \<Longrightarrow> entry_valid (length (counters m)) (length (gauges m)) e"
  by (simp add: metrics_ok_alt)

lemma view_increment:
  assumes "registry_ok m"
  shows "registry_view (counter_increment h delta m) =
    (case counter_series m h of None \<Rightarrow> registry_view m | Some k \<Rightarrow> cell_step (Count_up k delta) (registry_view m))"
proof (cases "counter_series m h")
  case None
  then have "me_counter e \<noteq> Some h" if "e \<in> set (metric_entries m)" for e
    using that by (auto simp: counter_series_def find_None_iff)
  then have "registry_view (counter_increment h delta m) = registry_view m"
    using assms by (intro unowned_update) (auto simp: registry_ok_def intro!: entry_cell_other valid_entry)
  with None show ?thesis by simp
next
  case (Some k)
  have ok: "metrics_ok m" "handles_distinct m" using assms by (simp_all add: registry_ok_def)
  from series_Some(1) [OF ok(2,1) Some] obtain i where i: "i < length (metric_entries m)"
      "entry_key (metric_entries m ! i) = k" "me_kind (metric_entries m ! i) = KCounter"
      "me_counter (metric_entries m ! i) = Some h" "h < length (counters m)"
      and sole: "\<And>j. j < length (metric_entries m) \<Longrightarrow> me_counter (metric_entries m ! j) = Some h \<Longrightarrow> j = i"
    by blast
  let ?m' = "counter_increment h delta m"
  have "registry_view ?m' = (registry_view m)(k \<mapsto> entry_cell ?m' (metric_entries m ! i))"
    using sole by (intro registry_view_update [OF ok(1) _ _ i(1,2)] entry_cell_other valid_entry [OF ok(1)]) auto
  moreover have "registry_view m k = Some (Count (counter_value m h))"
    using registry_view_entry [OF ok(1) i(1)] i(2-4) by (simp add: entry_cell_def)
  ultimately show ?thesis using Some i(3-5)
    by (simp add: entry_cell_def counter_increment_def counter_value_def)
qed

text \<open>Setting and adding: both store a value into a gauge that may depend on the old one.\<close>

lemma view_gauge_set:
  assumes "registry_ok m" and "gauge_series m h = Some k"
  shows "registry_view (gauge_set h v m) = (registry_view m)(k \<mapsto> Level v)"
    and "registry_view m k = Some (Level (gauge_value m h))"
proof -
  have ok: "metrics_ok m" "handles_distinct m" using assms(1) by (simp_all add: registry_ok_def)
  from series_Some(2) [OF ok(2,1) assms(2)] obtain i where i: "i < length (metric_entries m)"
      "entry_key (metric_entries m ! i) = k" "me_kind (metric_entries m ! i) = KGauge"
      "me_gauge (metric_entries m ! i) = Some h" "h < length (gauges m)"
      and sole: "\<And>j. j < length (metric_entries m) \<Longrightarrow> me_gauge (metric_entries m ! j) = Some h \<Longrightarrow> j = i"
    by blast
  have "registry_view (gauge_set h v m) = (registry_view m)(k \<mapsto> entry_cell (gauge_set h v m) (metric_entries m ! i))"
    using sole by (intro registry_view_update [OF ok(1) _ _ i(1,2)] entry_cell_other valid_entry [OF ok(1)]) auto
  then show "registry_view (gauge_set h v m) = (registry_view m)(k \<mapsto> Level v)"
    using i(3-5) by (simp add: entry_cell_def gauge_set_def gauge_value_def)
  show "registry_view m k = Some (Level (gauge_value m h))"
    using registry_view_entry [OF ok(1) i(1)] i(2-4) by (simp add: entry_cell_def)
qed

lemma view_gauge_unowned:
  assumes "registry_ok m" and "gauge_series m h = None"
  shows "registry_view (gauge_set h v m) = registry_view m"
proof -
  have "me_gauge e \<noteq> Some h" if "e \<in> set (metric_entries m)" for e
    using that assms(2) by (auto simp: gauge_series_def find_None_iff)
  then show ?thesis using assms(1)
    by (intro unowned_update) (auto simp: registry_ok_def intro!: entry_cell_other valid_entry)
qed

lemma registry_simulation:
  assumes "registry_ok m"
  shows "registry_view (metric_step op m) =
    (case cell_op_of m op of None \<Rightarrow> registry_view m | Some c \<Rightarrow> cell_step c (registry_view m))"
proof -
  have "metrics_ok m" using assms by (simp add: registry_ok_def)
  then show ?thesis
    using view_register_counter [of m] view_register_gauge [of m] view_increment [OF assms]
      view_gauge_set [OF assms] view_gauge_unowned [OF assms]
    by (cases op) (simp_all add: gauge_add_def split: option.split)
qed

lemma registry_simulation_run:
  "registry_ok m \<Longrightarrow>
   registry_view (fold metric_step ops m) = fold cell_step (cell_trace m ops) (registry_view m)"
proof (induction ops arbitrary: m)
  case (Cons op ops)
  then show ?case using registry_simulation [of m op] registry_ok_step [of m op] by (simp split: option.split)
qed simp

section \<open>The contract\<close>

lemma registry_view_new: "registry_view new_metrics = (\<lambda>_. None)"
  by (simp add: registry_view_def new_metrics_def fun_eq_iff)

text \<open>
  C17. The registry is the table it promises to be: after any operations its view is what the
  table holds after the same operations by name, those through a handle being operations on
  the series the handle stands for.
\<close>

theorem registry_refines_keyed_cells:
  "registry_view (fold metric_step ops new_metrics) = fold cell_step (cell_trace new_metrics ops) (\<lambda>_. None)"
  using registry_simulation_run [OF registry_ok_new, of ops] by (simp add: registry_view_new)

lemma counter_series_entry:
  assumes "handles_distinct m" "i < length (metric_entries m)" "me_counter (metric_entries m ! i) = Some h"
  shows "counter_series m h = Some (entry_key (metric_entries m ! i))"
proof -
  have "find (\<lambda>e. me_counter e = Some h) (metric_entries m) = Some (metric_entries m ! i)"
    unfolding find_Some_iff
  proof (intro exI [of _ i] conjI allI impI)
    fix j assume "j < i"
    then show "me_counter (metric_entries m ! j) \<noteq> Some h"
      using assms unfolding handles_distinct_def by (metis less_trans nat_neq_iff)
  qed (use assms in simp_all)
  then show ?thesis by (simp add: counter_series_def)
qed

text \<open>
  A handle is its series for good: the counter a registration returns stands, in that state
  and after any later operations, for the series it was asked for, and reads that series'
  cell.
\<close>

theorem counter_handle_is_its_series:
  assumes "metric_counter name descr labels (fold metric_step hist new_metrics) = (Some h, m')"
  shows "counter_series (fold metric_step later m') h = Some (metric_key name labels) \<and>
         registry_view (fold metric_step later m') (metric_key name labels) =
           Some (Count (counter_value (fold metric_step later m') h))"
proof -
  let ?m = "fold metric_step hist new_metrics" and ?m'' = "fold metric_step later m'"
  have ok: "registry_ok ?m" by (rule registry_ok_run [OF registry_ok_new])
  have ok': "registry_ok m'" using registry_ok_step [OF ok, of "Register_counter name descr labels"] assms by simp
  have ok'': "registry_ok ?m''" by (rule registry_ok_run [OF ok'])
  obtain i where i: "i < length (metric_entries m')" "map_of (metric_index m') (metric_key name labels) = Some i"
      "me_counter (metric_entries m' ! i) = Some h"
    using counter_registers [OF _ assms] ok by (auto simp: registry_ok_def)
  have key: "entry_key (metric_entries m' ! i) = metric_key name labels"
    using i(2) ok' by (simp add: registry_ok_def metrics_ok_alt)
  have "metrics_extends m' ?m''" using ok' by (intro metrics_extends_run) (simp add: registry_ok_def)
  then have later: "i < length (metric_entries ?m'')" "metric_entries ?m'' ! i = metric_entries m' ! i"
    using i(1) by (simp_all add: metrics_extends_def)
  have "entry_valid (length (counters ?m'')) (length (gauges ?m'')) (metric_entries ?m'' ! i)"
    using ok'' later(1) by (simp add: registry_ok_def valid_entry)
  then have "entry_cell ?m'' (metric_entries ?m'' ! i) = Count (counter_value ?m'' h)"
    using i(3) later(2) by (auto simp: entry_cell_def entry_valid_def split: metric_kind.splits)
  with registry_view_entry [of ?m'' i] counter_series_entry [of ?m'' i h] ok'' later i(3) key
  show ?thesis by (simp add: registry_ok_def)
qed

theorem counter_handle_is_its_series_witness:
  "counter_series (fold metric_step [Increment 0 3] (snd (metric_counter ''m'' ''h'' [] new_metrics))) 0 = Some ''m''"
  using counter_handle_is_its_series [where hist = "[]" and later = "[Increment 0 3]" and name = "''m''"
      and descr = "''h''" and labels = "[]" and h = 0 and m' = "snd (metric_counter ''m'' ''h'' [] new_metrics)"]
  by (simp add: metric_counter_def new_metrics_def metric_key_def render_labels_def Let_def)

end
