(* ===== verification/Metric_Exposition.thy ===== *)
theory Metric_Exposition
  imports Metric_Spec Json_Reader
begin

text \<open>
  A reader of the Prometheus text format, and what it gets back from
  \<open>MetricRegistry::render_prometheus\<close> (src/metrics.cpp): lines that open with a hash are
  comments, of the others the last space separates the series from its value.
\<close>

section \<open>Reader\<close>

fun text_lines :: "string \<Rightarrow> string \<Rightarrow> string list" where
  "text_lines line [] = (if line = [] then [] else [line])"
| "text_lines line (c # cs) = (if c = CHR 0x0A then line # text_lines [] cs else text_lines (line @ [c]) cs)"

definition split_sample :: "string \<Rightarrow> string \<times> string" where
  "split_sample line =
     (let v = takeWhile (\<lambda>c. c \<noteq> CHR '' '') (rev line) in (rev (drop (Suc (length v)) (rev line)), rev v))"

definition read_exposition :: "string \<Rightarrow> (string \<times> string) list" where
  "read_exposition txt = map split_sample (filter (\<lambda>l. take 1 l \<noteq> ''#'') (text_lines [] txt))"

lemma text_lines_line: "CHR 0x0A \<notin> set l \<Longrightarrow> text_lines p (l @ CHR 0x0A # cs) = (p @ l) # text_lines [] cs"
  by (induction l arbitrary: p) auto

lemma text_lines_concat:
  "(\<And>l. l \<in> set ls \<Longrightarrow> CHR 0x0A \<notin> set l) \<Longrightarrow> text_lines [] (concat (map (\<lambda>l. l @ [CHR 0x0A]) ls)) = ls"
  by (induction ls) (simp_all add: text_lines_line)

lemma split_sample_last: "CHR '' '' \<notin> set v \<Longrightarrow> split_sample (k @ CHR '' '' # v) = (k, v)"
proof -
  assume v: "CHR '' '' \<notin> set v"
  then have "takeWhile (\<lambda>c. c \<noteq> CHR '' '') (rev v @ CHR '' '' # rev k) = rev v"
    by (subst takeWhile_append2) auto
  then show ?thesis by (simp add: split_sample_def Let_def)
qed

section \<open>The lines of an exposition\<close>

definition sample_line :: "metrics \<Rightarrow> metric_entry \<Rightarrow> string" where
  "sample_line m e = entry_key e @ CHR '' '' # print_double (entry_value m e)"

fun exposition_lines :: "metrics \<Rightarrow> string \<Rightarrow> metric_entry list \<Rightarrow> string list" where
  "exposition_lines m prev [] = []"
| "exposition_lines m prev (e # es) =
     (if me_name e \<noteq> prev
      then [''# HELP '' @ me_name e @ '' '' @ me_help e,
            ''# TYPE '' @ me_name e @ '' '' @ (if me_kind e = KCounter then ''counter'' else ''gauge'')]
      else []) @ sample_line m e # exposition_lines m (me_name e) es"

lemma render_prometheus_lines:
  "render_prometheus m = concat (map (\<lambda>l. l @ [CHR 0x0A]) (exposition_lines m [] (metric_entries m)))"
proof -
  have "snd (foldl (render_entry m) (prev, out) es) = out @ concat (map (\<lambda>l. l @ [CHR 0x0A]) (exposition_lines m prev es))"
    for prev out es
    by (induction es arbitrary: prev out)
      (simp_all add: render_entry_def render_header_def render_sample_def sample_line_def entry_key_def metric_key_def)
  from this [of "[]" "[]"] show ?thesis by (simp add: render_prometheus_def)
qed

text \<open>What a client must keep out of names, help texts and labels.\<close>

definition tidy_series :: "string \<Rightarrow> string \<Rightarrow> labels \<Rightarrow> bool" where
  "tidy_series name descr labels \<longleftrightarrow>
     take 1 name \<noteq> ''#'' \<and> CHR 0x0A \<notin> set name \<and> CHR 0x0A \<notin> set descr \<and>
     list_all (\<lambda>(k, v). CHR 0x0A \<notin> set k \<and> CHR 0x0A \<notin> set v) labels"

fun tidy_op :: "metric_op \<Rightarrow> bool" where
  "tidy_op (Register_counter name descr labels) = tidy_series name descr labels"
| "tidy_op (Register_gauge name descr labels) = tidy_series name descr labels"
| "tidy_op _ = True"

definition tidy_entries :: "metrics \<Rightarrow> bool" where
  "tidy_entries m \<longleftrightarrow> list_all (\<lambda>e. tidy_series (me_name e) (me_help e) (me_labels e)) (metric_entries m)"

lemma tidy_step: "tidy_entries m \<Longrightarrow> tidy_op op \<Longrightarrow> tidy_entries (metric_step op m)"
  by (cases op) (auto simp: tidy_entries_def metric_counter_def metric_gauge_def gauge_add_def Let_def split: option.split)

lemma tidy_run: "tidy_entries m \<Longrightarrow> list_all tidy_op ops \<Longrightarrow> tidy_entries (fold metric_step ops m)"
  by (induction ops arbitrary: m) (simp_all add: tidy_step)

lemma key_one_line:
  "CHR 0x0A \<notin> set name \<Longrightarrow> list_all (\<lambda>(k, v). CHR 0x0A \<notin> set k \<and> CHR 0x0A \<notin> set v) ls \<Longrightarrow>
   CHR 0x0A \<notin> set (metric_key name ls)"
proof -
  assume name: "CHR 0x0A \<notin> set name" and ls: "list_all (\<lambda>(k, v). CHR 0x0A \<notin> set k \<and> CHR 0x0A \<notin> set v) ls"
  have "CHR 0x0A \<notin> set (sep_items render_label CHR '','' ls)"
    using ls by (cases ls) (auto simp: render_label_def list_all_iff)
  with name show ?thesis by (simp add: metric_key_def render_labels_eq)
qed

lemma print_double_plain: "CHR '' '' \<notin> set (print_double d)" "CHR 0x0A \<notin> set (print_double d)"
proof -
  have "\<not> number_char CHR '' ''" "\<not> number_char CHR 0x0A" by (simp_all add: number_char_def is_digit_def)
  then have "dbl_exponent d \<noteq> 2047 \<Longrightarrow> CHR '' '' \<notin> set (print_double d) \<and> CHR 0x0A \<notin> set (print_double d)"
    using number_chars_double [of d] by (auto simp: list_all_iff)
  moreover have "dbl_exponent d = 2047 \<Longrightarrow> CHR '' '' \<notin> set (print_double d) \<and> CHR 0x0A \<notin> set (print_double d)"
    by (simp add: print_double_def dbl_decode_def Let_def)
  ultimately show "CHR '' '' \<notin> set (print_double d)" "CHR 0x0A \<notin> set (print_double d)" by blast+
qed

lemma exposition_lines_tidy:
  assumes "list_all (\<lambda>e. tidy_series (me_name e) (me_help e) (me_labels e)) es"
  shows "l \<in> set (exposition_lines m prev es) \<Longrightarrow> CHR 0x0A \<notin> set l"
    and "filter (\<lambda>l. take 1 l \<noteq> ''#'') (exposition_lines m prev es) = map (sample_line m) es"
proof -
  have sample: "CHR 0x0A \<notin> set (sample_line m e)" "take 1 (sample_line m e) \<noteq> ''#''"
    if "tidy_series (me_name e) (me_help e) (me_labels e)" for e
    using that key_one_line [of "me_name e" "me_labels e"] print_double_plain(2)
    by (cases "me_name e"; cases "me_labels e";
        auto simp: sample_line_def tidy_series_def entry_key_def metric_key_def render_labels_eq)+
  show "l \<in> set (exposition_lines m prev es) \<Longrightarrow> CHR 0x0A \<notin> set l"
    using assms sample(1)
    by (induction es arbitrary: prev) (auto simp: tidy_series_def split: if_splits)
  show "filter (\<lambda>l. take 1 l \<noteq> ''#'') (exposition_lines m prev es) = map (sample_line m) es"
    using assms sample(2) by (induction es arbitrary: prev) simp_all
qed

lemma read_exposition_entries:
  assumes "tidy_entries m"
  shows "read_exposition (render_prometheus m) = map (\<lambda>e. (entry_key e, print_double (entry_value m e))) (metric_entries m)"
proof -
  have "text_lines [] (render_prometheus m) = exposition_lines m [] (metric_entries m)"
    unfolding render_prometheus_lines
    by (rule text_lines_concat) (use exposition_lines_tidy(1) assms in \<open>auto simp: tidy_entries_def\<close>)
  then have "read_exposition (render_prometheus m) = map split_sample (map (sample_line m) (metric_entries m))"
    using exposition_lines_tidy(2) assms by (simp add: read_exposition_def tidy_entries_def)
  then show ?thesis by (simp add: sample_line_def split_sample_last print_double_plain)
qed

fun cell_text :: "cell \<Rightarrow> string" where
  "cell_text (Count n) = print_double (u64_to_double n)"
| "cell_text (Level x) = print_double x"

lemma entry_cell_text: "cell_text (entry_cell m e) = print_double (entry_value m e)"
  by (cases "me_kind e") (simp_all add: entry_cell_def entry_value_def)

lemma distinct_keys: "metrics_ok m \<Longrightarrow> distinct (map entry_key (metric_entries m))"
  unfolding distinct_conv_nth length_map
proof (intro allI impI)
  fix i j
  assume ok: "metrics_ok m" and ij: "i < length (metric_entries m)" "j < length (metric_entries m)" "i \<noteq> j"
  have ix: "map_of (metric_index m) k = Some i \<longleftrightarrow> i < length (metric_entries m) \<and> entry_key (metric_entries m ! i) = k" for k i
    using ok by (simp add: metrics_ok_alt)
  show "map entry_key (metric_entries m) ! i \<noteq> map entry_key (metric_entries m) ! j"
    using ij ix [of "entry_key (metric_entries m ! i)" i] ix [of "entry_key (metric_entries m ! i)" j] by auto
qed

text \<open>
  The exposition is the table: as long as no name, help text or label holds a line feed and
  no name opens with a hash, a reader of the text gets back, in the order of registration and
  each once, exactly the series of the registry, each with its cell as printed.
\<close>

theorem exposition_shows_the_table:
  fixes ops :: "metric_op list"
  defines "m \<equiv> fold metric_step ops new_metrics"
  assumes "list_all tidy_op ops"
  shows "map fst (read_exposition (render_prometheus m)) = map entry_key (metric_entries m) \<and>
         distinct (map fst (read_exposition (render_prometheus m))) \<and>
         map_of (read_exposition (render_prometheus m)) = map_option cell_text \<circ> registry_view m"
proof -
  have ok: "metrics_ok m" unfolding m_def by (rule metrics_ok_run [OF metrics_ok_new])
  have "tidy_entries m" unfolding m_def
    using assms(2) by (intro tidy_run) (simp_all add: tidy_entries_def new_metrics_def)
  note read = read_exposition_entries [OF this]
  have keys: "map fst (read_exposition (render_prometheus m)) = map entry_key (metric_entries m)"
    by (simp add: read)
  then have distinct: "distinct (map fst (read_exposition (render_prometheus m)))"
    using distinct_keys [OF ok] by simp
  have "map_of (read_exposition (render_prometheus m)) k = map_option cell_text (registry_view m k)" for k
  proof (rule registry_view_cases [OF ok, of k])
    assume "registry_view m k = None" and none: "\<And>i. i < length (metric_entries m) \<Longrightarrow> entry_key (metric_entries m ! i) \<noteq> k"
    then have "k \<notin> set (map entry_key (metric_entries m))" by (auto simp: in_set_conv_nth dest: none)
    then have "map_of (read_exposition (render_prometheus m)) k = None"
      unfolding map_of_eq_None_iff keys [symmetric] by simp
    then show ?thesis using \<open>registry_view m k = None\<close> by simp
  next
    fix i
    assume i: "i < length (metric_entries m)" "entry_key (metric_entries m ! i) = k"
      "registry_view m k = Some (entry_cell m (metric_entries m ! i))"
    have "(k, cell_text (entry_cell m (metric_entries m ! i))) \<in> set (read_exposition (render_prometheus m))"
      unfolding read entry_cell_text using i(1,2) by auto
    then show ?thesis using distinct i(3) by simp
  qed
  then show ?thesis using keys distinct by (simp add: fun_eq_iff)
qed

theorem exposition_shows_the_table_witness:
  "map_of (read_exposition (render_prometheus (fold metric_step [Register_counter ''m'' ''help'' [(''a'', ''b'')], Increment 0 3] new_metrics)))
   = map_option cell_text \<circ> registry_view (fold metric_step [Register_counter ''m'' ''help'' [(''a'', ''b'')], Increment 0 3] new_metrics)"
  using exposition_shows_the_table [of "[Register_counter ''m'' ''help'' [(''a'', ''b'')], Increment 0 3]"]
  by (simp add: tidy_series_def)

text \<open>
  The condition on help texts is needed: the text is written as it is, so one with a line
  feed adds a sample of a series that does not exist.
\<close>

theorem help_text_can_forge_a_sample:
  "(''b'', ''5'') \<in> set (read_exposition (render_prometheus (snd (metric_counter ''a'' (''x'' @ CHR 0x0A # ''b 5'') [] new_metrics)))) \<and>
   registry_view (snd (metric_counter ''a'' (''x'' @ CHR 0x0A # ''b 5'') [] new_metrics)) ''b'' = None"
proof -
  have "print_double (u64_to_double 0) = ''0''"
    using print_small_count [of 0] by (simp add: dec_nat.simps [of 0] digit_char_def char_of_def bit_0)
  then show ?thesis
    by (simp add: render_prometheus_lines metric_counter_def new_metrics_def metric_key_def render_labels_def
        sample_line_def entry_key_def entry_value_def counter_value_def read_exposition_def split_sample_def
        registry_view_def Let_def)
qed

end
