(* ===== verification/Metric_Headers.thy ===== *)
theory Metric_Headers
  imports Metric_Exposition
begin

text \<open>
  The \<open># TYPE\<close> lines of an exposition (\<open>MetricRegistry::render_prometheus\<close>, src/metrics.cpp). The
  loop writes a header whenever the name differs from that of the entry before, so a metric is
  announced once for every run of neighbouring entries with its name. The text format allows a
  single announcement of each metric.
\<close>

section \<open>Reading the announcements\<close>

definition announced :: "string \<Rightarrow> string list" where
  "announced txt = map (\<lambda>l. fst (split_sample (drop 7 l))) (filter (\<lambda>l. take 7 l = ''# TYPE '') (text_lines [] txt))"

fun headed :: "string \<Rightarrow> string list \<Rightarrow> string list" where
  "headed prev [] = []"
| "headed prev (n # ns) = (if n \<noteq> prev then [n] else []) @ headed n ns"

lemma headed_lines:
  assumes "list_all (\<lambda>e. tidy_series (me_name e) (me_help e) (me_labels e)) es"
  shows "map (\<lambda>l. fst (split_sample (drop 7 l))) (filter (\<lambda>l. take 7 l = ''# TYPE '') (exposition_lines m prev es)) =
    headed prev (map me_name es)"
  using assms
proof (induction es arbitrary: prev)
  case Nil
  then show ?case by simp
next
  case (Cons e es)
  have "take 1 (sample_line m e) \<noteq> ''#''"
    using exposition_lines_tidy(2) [of "[e]" m "me_name e"] Cons.prems by (simp split: if_splits)
  then have "take 7 (sample_line m e) \<noteq> ''# TYPE ''" by (cases "sample_line m e") auto
  moreover have "split_sample (me_name e @ '' '' @ kind) = (me_name e, kind)" if "CHR '' '' \<notin> set kind" for kind
    using split_sample_last [OF that] by simp
  ultimately show ?case using Cons by simp
qed

lemma announced_entries:
  assumes "tidy_entries m"
  shows "announced (render_prometheus m) = headed [] (map me_name (metric_entries m))"
proof -
  have "text_lines [] (render_prometheus m) = exposition_lines m [] (metric_entries m)"
    unfolding render_prometheus_lines
    by (rule text_lines_concat) (use exposition_lines_tidy(1) assms in \<open>auto simp: tidy_entries_def\<close>)
  then show ?thesis using headed_lines assms by (simp add: announced_def tidy_entries_def)
qed

section \<open>Grouped names\<close>

text \<open>All entries of a name stand together.\<close>

fun grouped :: "'a list \<Rightarrow> bool" where
  "grouped [] = True"
| "grouped (x # xs) = ((x \<in> set xs \<longrightarrow> hd xs = x) \<and> grouped xs)"

lemma distinct_remdups_adj_iff: "distinct (remdups_adj xs) \<longleftrightarrow> grouped xs"
  by (induction xs rule: remdups_adj.induct) auto

lemma headed_remdups: "prev # headed prev ns = remdups_adj (prev # ns)"
  by (induction ns arbitrary: prev) auto

lemma headed_named: "[] \<notin> set ns \<Longrightarrow> headed [] ns = remdups_adj ns"
  using headed_remdups [of "[]" ns] by (cases ns) (auto split: if_splits)

text \<open>Registrations under a name, as every metric has one.\<close>

fun named_op :: "metric_op \<Rightarrow> bool" where
  "named_op (Register_counter name descr labels) = (name \<noteq> [])"
| "named_op (Register_gauge name descr labels) = (name \<noteq> [])"
| "named_op _ = True"

lemma named_step: "[] \<notin> me_name ` set (metric_entries m) \<Longrightarrow> named_op op \<Longrightarrow> [] \<notin> me_name ` set (metric_entries (metric_step op m))"
  by (cases op)
    (auto simp: metric_counter_def metric_gauge_def counter_increment_def gauge_set_def gauge_add_def Let_def split: option.split)

lemma named_run: "[] \<notin> me_name ` set (metric_entries m) \<Longrightarrow> list_all named_op ops \<Longrightarrow> [] \<notin> me_name ` set (metric_entries (fold metric_step ops m))"
  by (induction ops arbitrary: m) (simp_all add: named_step)


definition interleaved_registrations :: "metric_op list" where
  "interleaved_registrations =
     [Register_counter ''a'' ''h'' [(''x'', ''1'')], Register_counter ''b'' ''h'' [], Register_counter ''a'' ''h'' [(''x'', ''2'')]]"

lemma interleaved_names: "map me_name (metric_entries (fold metric_step interleaved_registrations new_metrics)) = [''a'', ''b'', ''a'']"
  by (simp add: interleaved_registrations_def metric_counter_def new_metrics_def metric_key_def render_labels_def
      render_label_def Let_def)


end
