(* ===== verification/Metric_Threads.thy ===== *)
theory Metric_Threads
  imports Metrics Dbl_Round
begin

text \<open>
  Concurrent updates of metrics (\<open>Counter\<close> and \<open>Gauge\<close> of include/uaop/common/metrics.h). A
  counter's \<open>increment\<close> is one atomic step. \<open>Gauge::add\<close> is an atomic load and a later atomic
  store; between them other threads take their steps. A thread runs one call at a time.
\<close>

section \<open>Steps\<close>

record metric_threads =
  shared :: metrics
  pending :: "nat \<Rightarrow> (nat \<times> double) option"  \<comment> \<open>gauge and sum between load and store, per thread\<close>

datatype mt_action =
    Do_increment nat nat u64   \<comment> \<open>thread, counter, amount\<close>
  | Do_set nat nat double      \<comment> \<open>thread, gauge, value\<close>
  | Add_load nat nat double    \<comment> \<open>thread, gauge, amount: \<open>value() + delta\<close> in \<open>Gauge::add\<close>\<close>
  | Add_store nat              \<comment> \<open>thread: the \<open>set\<close> in \<open>Gauge::add\<close>\<close>

inductive mt_step :: "mt_action \<Rightarrow> metric_threads \<Rightarrow> metric_threads \<Rightarrow> bool" where
  do_increment: "pending s t = None \<Longrightarrow>
    mt_step (Do_increment t h delta) s (s\<lparr>shared := counter_increment h delta (shared s)\<rparr>)"
| do_set: "pending s t = None \<Longrightarrow>
    mt_step (Do_set t h v) s (s\<lparr>shared := gauge_set h v (shared s)\<rparr>)"
| add_load: "pending s t = None \<Longrightarrow>
    mt_step (Add_load t h delta) s
      (s\<lparr>pending := (pending s)(t \<mapsto> (h, dbl_add (gauge_value (shared s) h) delta))\<rparr>)"
| add_store: "pending s t = Some (h, v) \<Longrightarrow>
    mt_step (Add_store t) s (s\<lparr>shared := gauge_set h v (shared s), pending := (pending s)(t := None)\<rparr>)"

inductive mt_path :: "metric_threads \<Rightarrow> mt_action list \<Rightarrow> metric_threads \<Rightarrow> bool" where
  mt_nil: "mt_path s [] s"
| mt_cons: "mt_step a s s1 \<Longrightarrow> mt_path s1 tr s' \<Longrightarrow> mt_path s (a # tr) s'"

inductive_cases mt_stepE: "mt_step a s s'"
inductive_simps mt_path_Nil [simp]: "mt_path s [] s'"
inductive_simps mt_path_Cons [simp]: "mt_path s (a # tr) s'"
inductive_simps mt_step_simps [simp]:
  "mt_step (Do_increment t h delta) s s'" "mt_step (Do_set t h v) s s'"
  "mt_step (Add_load t h delta) s s'" "mt_step (Add_store t) s s'"

fun actor_of :: "mt_action \<Rightarrow> nat" where
  "actor_of (Do_increment t h delta) = t"
| "actor_of (Do_set t h v) = t"
| "actor_of (Add_load t h delta) = t"
| "actor_of (Add_store t) = t"

text \<open>Without interference a load and the store of the same thread are \<open>Gauge::add\<close>.\<close>

lemma undisturbed_add:
  assumes "mt_path s [Add_load t h delta, Add_store t] s'"
  shows "shared s' = gauge_add h delta (shared s) \<and> pending s' = pending s"
  using assms by (auto simp: gauge_add_def)

lemma gauge_add_nearest:
  assumes "h < length (gauges m)" "dbl_finite (gauge_value m h)" "dbl_finite delta"
    and "\<bar>dbl_real (gauge_value m h) + dbl_real delta\<bar> < overflow_threshold"
  shows "dbl_nearest (gauge_value (gauge_add h delta m) h) (dbl_real (gauge_value m h) + dbl_real delta)"
  using dbl_add_nearest [OF assms(2-4)] assms(1)
  by (simp add: gauge_add_def gauge_set_def gauge_value_def)

section \<open>Counters\<close>

fun amount_for :: "nat \<Rightarrow> mt_action \<Rightarrow> u64" where
  "amount_for h (Do_increment t h' delta) = (if h' = h then delta else 0)"
| "amount_for h _ = 0"

lemma counter_mt_step:
  "mt_step a s s' \<Longrightarrow> h < length (counters (shared s)) \<Longrightarrow>
   counter_value (shared s') h = counter_value (shared s) h + amount_for h a \<and>
   length (counters (shared s')) = length (counters (shared s))"
  by (cases a) (auto simp: counter_increment_def gauge_set_def counter_value_def nth_list_update)

text \<open>
  No increment is lost: under any interleaving of any number of threads, also with gauge
  updates half done, a counter ends at its start plus the sum of all increments made on it
  (modulo \<open>2 ^ 64\<close>).
\<close>

theorem counter_increments_are_never_lost:
  assumes "mt_path s tr s'" and "h < length (counters (shared s))"
  shows "counter_value (shared s') h = counter_value (shared s) h + sum_list (map (amount_for h) tr)"
  using assms
proof (induction rule: mt_path.induct)
  case (mt_cons a s s1 tr s')
  then show ?case using counter_mt_step [of a s s1 h] by (simp add: add.assoc)
qed simp

definition one_counter :: metric_threads where
  "one_counter = \<lparr>shared = snd (metric_counter ''m'' ''h'' [] new_metrics), pending = (\<lambda>_. None)\<rparr>"

lemma one_counter_length: "length (counters (shared one_counter)) = 1"
  by (simp add: one_counter_def metric_counter_def new_metrics_def Let_def)

theorem counter_increments_are_never_lost_witness:
  "\<exists>s'. mt_path one_counter [Do_increment 1 0 3, Do_increment 2 0 4, Do_increment 1 0 5] s' \<and>
        counter_value (shared s') 0 = counter_value (shared one_counter) 0 + 12"
proof -
  obtain s' where s': "mt_path one_counter [Do_increment 1 0 3, Do_increment 2 0 4, Do_increment 1 0 5] s'"
    by (simp add: one_counter_def)
  from counter_increments_are_never_lost [OF this, of 0] show ?thesis
    using s' one_counter_length by (intro exI [of _ s']) simp
qed

section \<open>Gauges\<close>

text \<open>
  Concurrent adds lose updates: from any state in which two threads are idle there is an
  interleaving of one \<open>add\<close> each after which both calls have returned and the gauge holds the
  start plus the second amount only.
\<close>

theorem concurrent_gauge_adds_lose_an_update:
  assumes "t1 \<noteq> t2" and "pending s t1 = None" "pending s t2 = None"
    and "h < length (gauges (shared s))"
  shows "\<exists>s'. mt_path s [Add_load t1 h d1, Add_load t2 h d2, Add_store t1, Add_store t2] s' \<and>
              pending s' = pending s \<and>
              gauge_value (shared s') h = dbl_add (gauge_value (shared s) h) d2"
  using assms by (auto simp: gauge_set_def gauge_value_def fun_eq_iff)

definition one_gauge :: metric_threads where
  "one_gauge = \<lparr>shared = snd (metric_gauge ''g'' ''h'' [] new_metrics), pending = (\<lambda>_. None)\<rparr>"

theorem concurrent_gauge_adds_lose_an_update_witness:
  "\<exists>s'. mt_path one_gauge [Add_load 1 0 (dlit 5 1), Add_load 2 0 (dlit 1 1), Add_store 1, Add_store 2] s' \<and>
        pending s' = pending one_gauge \<and>
        gauge_value (shared s') 0 = dbl_add (gauge_value (shared one_gauge) 0) (dlit 1 1)"
  by (rule concurrent_gauge_adds_lose_an_update)
     (simp_all add: one_gauge_def metric_gauge_def new_metrics_def Let_def)

text \<open>What the calls of a trace do to one gauge, taken in the order of their first steps.\<close>

fun gauge_effect :: "nat \<Rightarrow> mt_action \<Rightarrow> double \<Rightarrow> double" where
  "gauge_effect h (Do_set t h' v) x = (if h' = h then v else x)"
| "gauge_effect h (Add_load t h' delta) x = (if h' = h then dbl_add x delta else x)"
| "gauge_effect h _ x = x"

fun writes_gauge :: "nat \<Rightarrow> mt_action \<Rightarrow> bool" where
  "writes_gauge h (Do_set t h' v) = (h' = h)"
| "writes_gauge h (Add_load t h' delta) = (h' = h)"
| "writes_gauge h _ = False"

text \<open>The value the gauge has, or will have when the writer's store has been made.\<close>

definition settled :: "nat \<Rightarrow> nat \<Rightarrow> metric_threads \<Rightarrow> double" where
  "settled t h s = (case pending s t of Some (h', v) \<Rightarrow> if h' = h then v else gauge_value (shared s) h
                    | None \<Rightarrow> gauge_value (shared s) h)"

definition sole_writer :: "nat \<Rightarrow> nat \<Rightarrow> metric_threads \<Rightarrow> bool" where
  "sole_writer t h s \<longleftrightarrow>
     h < length (gauges (shared s)) \<and> (\<forall>t'. t' \<noteq> t \<longrightarrow> map_option fst (pending s t') \<noteq> Some h)"

lemma sole_writer_step:
  assumes "mt_step a s s'" "sole_writer t h s" "writes_gauge h a \<longrightarrow> actor_of a = t"
  shows "sole_writer t h s'"
  using assms(1)
proof cases
  case (add_load u h' delta)
  then show ?thesis using assms(2,3) by (auto simp: sole_writer_def)
qed (use assms(2) in \<open>auto simp: sole_writer_def gauge_set_def counter_increment_def\<close>)

lemma gauge_value_set:
  "h < length (gauges m) \<Longrightarrow> gauge_value (gauge_set h' v m) h = (if h' = h then v else gauge_value m h)"
  by (simp add: gauge_value_def gauge_set_def)

lemma settled_effect:
  assumes "mt_step a s s'" "sole_writer t h s" "writes_gauge h a \<longrightarrow> actor_of a = t"
  shows "settled t h s' = gauge_effect h a (settled t h s)"
  using assms(1)
proof cases
  case (do_increment u h' delta)
  then show ?thesis by (auto simp: settled_def counter_increment_def gauge_value_def split: option.split)
next
  case (do_set u h' v)
  then show ?thesis using assms(2,3)
    by (cases "h' = h") (auto simp: settled_def gauge_value_set sole_writer_def split: option.split)
next
  case (add_load u h' delta)
  then show ?thesis using assms(3) by (cases "u = t"; cases "h' = h") (auto simp: settled_def split: option.split)
next
  case (add_store u h' v)
  then have "u \<noteq> t \<Longrightarrow> h' \<noteq> h" using assms(2) by (auto simp: sole_writer_def)
  with add_store show ?thesis using assms(2)
    by (cases "u = t") (auto simp: settled_def gauge_value_set sole_writer_def split: option.split)
qed

lemmas settled_step = sole_writer_step settled_effect

text \<open>
  A gauge with one writing thread behaves as if it were not shared: whatever the other
  threads do to other metrics in between, when the writer's calls have returned the gauge
  holds the value of running its sets and adds one after the other.
\<close>

theorem single_writer_gauge_is_sequential:
  assumes "mt_path s tr s'" and "sole_writer t h s" and "pending s t = None" "pending s' t = None"
    and "\<forall>a \<in> set tr. writes_gauge h a \<longrightarrow> actor_of a = t"
  shows "gauge_value (shared s') h = fold (gauge_effect h) tr (gauge_value (shared s) h)"
proof -
  have "settled t h s' = fold (gauge_effect h) tr (settled t h s)"
    using assms(1,2,5)
  proof (induction rule: mt_path.induct)
    case (mt_cons a s s1 tr s')
    then show ?case using settled_step [OF mt_cons(1), of t h] by simp
  qed simp
  then show ?thesis using assms(3,4) by (simp add: settled_def)
qed

theorem single_writer_gauge_is_sequential_witness:
  "\<exists>s'. mt_path one_gauge [Add_load 1 0 (dlit 5 1), Do_increment 2 7 1, Add_store 1, Do_set 1 0 (dlit 2 1)] s' \<and>
        gauge_value (shared s') 0 = dlit 2 1"
proof -
  let ?tr = "[Add_load 1 0 (dlit 5 1), Do_increment 2 7 1, Add_store 1, Do_set 1 0 (dlit 2 1)]"
  obtain s' where s': "mt_path one_gauge ?tr s'" "pending s' 1 = None" by (simp add: one_gauge_def)
  have "sole_writer 1 0 one_gauge" "pending one_gauge 1 = None"
    by (simp_all add: sole_writer_def one_gauge_def metric_gauge_def new_metrics_def Let_def)
  from single_writer_gauge_is_sequential [OF s'(1) this s'(2)] show ?thesis
    using s'(1) by (intro exI [of _ s']) simp
qed

end
