(* ===== verification/Metric_Scrape.thy ===== *)
theory Metric_Scrape
  imports Metric_Threads
begin

text \<open>
  A scrape while other threads update the metrics. \<open>MetricRegistry::render_prometheus\<close>
  (src/metrics.cpp) holds the registry's mutex, which keeps registrations out, but reads each
  metric by its own atomic load, so increments, sets and adds of other threads fall between
  the samples.
\<close>

section \<open>Steps\<close>

record scrape =
  around :: metric_threads
  todo :: "metric_entry list"       \<comment> \<open>the entries the loop has not reached\<close>
  acc :: "string \<times> string"     \<comment> \<open>\<open>last_name\<close> and the text so far\<close>

datatype sc_action = Sample | Other mt_action

inductive sc_step :: "sc_action \<Rightarrow> scrape \<Rightarrow> scrape \<Rightarrow> bool" where
  sc_sample: "todo s = e # es \<Longrightarrow>
    sc_step Sample s (s\<lparr>todo := es, acc := render_entry (shared (around s)) (acc s) e\<rparr>)"
| sc_other: "mt_step a (around s) ar \<Longrightarrow> sc_step (Other a) s (s\<lparr>around := ar\<rparr>)"

inductive sc_path :: "scrape \<Rightarrow> sc_action list \<Rightarrow> scrape \<Rightarrow> bool" where
  sc_nil: "sc_path s [] s"
| sc_cons: "sc_step a s s1 \<Longrightarrow> sc_path s1 tr s' \<Longrightarrow> sc_path s (a # tr) s'"

inductive_simps sc_path_Nil [simp]: "sc_path s [] s'"
inductive_simps sc_path_Cons [simp]: "sc_path s (a # tr) s'"
inductive_simps sc_step_simps [simp]: "sc_step Sample s s'" "sc_step (Other a) s s'"

definition begin_scrape :: "metric_threads \<Rightarrow> scrape" where
  "begin_scrape ar = \<lparr>around = ar, todo = metric_entries (shared ar), acc = ([], [])\<rparr>"

text \<open>Left alone, a scrape is \<open>render_prometheus\<close>.\<close>

lemma undisturbed_samples:
  "sc_path s (replicate (length (todo s)) Sample)
     (s\<lparr>todo := [], acc := foldl (render_entry (shared (around s))) (acc s) (todo s)\<rparr>)"
proof (induction "todo s" arbitrary: s)
  case (Cons e es)
  let ?s1 = "s\<lparr>todo := es, acc := render_entry (shared (around s)) (acc s) e\<rparr>"
  have "sc_path ?s1 (replicate (length es) Sample)
     (s\<lparr>todo := [], acc := foldl (render_entry (shared (around s))) (acc s) (e # es)\<rparr>)"
    using Cons(1) [of ?s1] by simp
  then show ?case using Cons(2) by (metis length_Cons replicate_Suc sc_cons sc_sample)
qed simp

lemma undisturbed_scrape:
  "\<exists>s'. sc_path (begin_scrape ar) (replicate (length (metric_entries (shared ar))) Sample) s' \<and>
        todo s' = [] \<and> snd (acc s') = render_prometheus (shared ar)"
  using undisturbed_samples [of "begin_scrape ar"] by (force simp: begin_scrape_def render_prometheus_def)

section \<open>What a scrape shows\<close>

text \<open>The text when each entry is read in a state of its own.\<close>

definition render_across :: "string \<times> string \<Rightarrow> (metrics \<times> metric_entry) list \<Rightarrow> string \<times> string" where
  "render_across a reads = foldl (\<lambda>a r. render_entry (fst r) a (snd r)) a reads"

lemma render_across_Cons [simp]:
  "render_across a ((m, e) # reads) = render_across (render_entry m a e) reads"
  by (simp add: render_across_def)

lemma render_across_Nil [simp]: "render_across a [] = a"
  by (simp add: render_across_def)

definition total_for :: "nat \<Rightarrow> sc_action list \<Rightarrow> nat" where
  "total_for h tr = sum_list (map (\<lambda>a. case a of Sample \<Rightarrow> 0 | Other b \<Rightarrow> unat (amount_for h b)) tr)"

definition count_in :: "metrics \<Rightarrow> nat \<Rightarrow> nat" where
  "count_in m h = unat (counter_value m h)"

definition no_wrap :: "scrape \<Rightarrow> sc_action list \<Rightarrow> bool" where
  "no_wrap s tr \<longleftrightarrow> (\<forall>h < length (counters (shared (around s))).
     count_in (shared (around s)) h + total_for h tr < 2 ^ 64)"

lemma total_for_Cons [simp]:
  "total_for h (Sample # tr) = total_for h tr"
  "total_for h (Other b # tr) = unat (amount_for h b) + total_for h tr"
  by (simp_all add: total_for_def)

lemma counter_grows:
  assumes "mt_step b ar ar'" "h < length (counters (shared ar))"
    and "count_in (shared ar) h + unat (amount_for h b) < 2 ^ 64"
  shows "count_in (shared ar') h = count_in (shared ar) h + unat (amount_for h b)"
    and "length (counters (shared ar')) = length (counters (shared ar))"
  using counter_mt_step [OF assms(1,2)] assms(3) by (simp_all add: count_in_def unat_word_ariths)

lemma scrape_reads:
  assumes "sc_path s tr s'" "no_wrap s tr" "todo s' = []"
  shows "\<exists>ms. length ms = length (todo s) \<and> acc s' = render_across (acc s) (zip ms (todo s)) \<and>
      (\<forall>m \<in> set ms. \<forall>h < length (counters (shared (around s))).
         count_in (shared (around s)) h \<le> count_in m h \<and> count_in m h \<le> count_in (shared (around s')) h) \<and>
      (\<forall>h < length (counters (shared (around s))). sorted (map (\<lambda>m. count_in m h) ms) \<and>
         count_in (shared (around s)) h \<le> count_in (shared (around s')) h)"
  using assms
proof (induction rule: sc_path.induct)
  case (sc_cons a s s1 tr s')
  from sc_cons.hyps(1) show ?case
  proof cases
    case (sc_sample e es)
    have "no_wrap s1 tr" using sc_cons.prems(1) sc_sample by (simp add: no_wrap_def)
    from sc_cons.IH [OF this sc_cons.prems(2)] obtain ms where
      "length ms = length es" "acc s' = render_across (acc s1) (zip ms es)"
      "\<forall>m \<in> set ms. \<forall>h < length (counters (shared (around s))).
         count_in (shared (around s)) h \<le> count_in m h \<and> count_in m h \<le> count_in (shared (around s')) h"
      "\<forall>h < length (counters (shared (around s))). sorted (map (\<lambda>m. count_in m h) ms) \<and>
         count_in (shared (around s)) h \<le> count_in (shared (around s')) h"
      using sc_sample by auto
    then show ?thesis using sc_sample by (intro exI [of _ "shared (around s) # ms"]) auto
  next
    case (sc_other b ar)
    have grow: "count_in (shared ar) h = count_in (shared (around s)) h + unat (amount_for h b)"
      "length (counters (shared ar)) = length (counters (shared (around s)))"
      if "h < length (counters (shared (around s)))" for h
      using counter_grows [OF sc_other(3) that] that sc_cons.prems(1) sc_other(1) by (auto simp: no_wrap_def)
    have len: "length (counters (shared ar)) = length (counters (shared (around s)))"
      using sc_other(3) by (auto elim!: mt_stepE simp: counter_increment_def gauge_set_def)
    have "no_wrap s1 tr" using sc_cons.prems(1) sc_other grow len by (simp add: no_wrap_def add.assoc)
    from sc_cons.IH [OF this sc_cons.prems(2)] obtain ms where ms:
      "length ms = length (todo s)" "acc s' = render_across (acc s) (zip ms (todo s))"
      "\<And>m h. m \<in> set ms \<Longrightarrow> h < length (counters (shared (around s))) \<Longrightarrow>
         count_in (shared ar) h \<le> count_in m h \<and> count_in m h \<le> count_in (shared (around s')) h"
      "\<And>h. h < length (counters (shared (around s))) \<Longrightarrow> sorted (map (\<lambda>m. count_in m h) ms)"
      "\<And>h. h < length (counters (shared (around s))) \<Longrightarrow> count_in (shared ar) h \<le> count_in (shared (around s')) h"
      using sc_other len by auto
    have "count_in (shared (around s)) h \<le> count_in (shared ar) h" if "h < length (counters (shared (around s)))" for h
      using grow [OF that] by simp
    then show ?thesis using ms by (meson order_trans)
  qed
qed simp


text \<open>A registry with two counters, and a scrape that finds the second one increased.\<close>

definition two_counters :: metric_threads where
  "two_counters = \<lparr>shared = snd (metric_counter ''b'' ''h'' [] (snd (metric_counter ''a'' ''h'' [] new_metrics))),
     pending = (\<lambda>_. None)\<rparr>"

definition busy_scrape :: "sc_action list" where
  "busy_scrape = [Sample, Other (Do_increment 1 0 1), Other (Do_increment 1 1 1), Sample]"

definition counter_entry :: "string \<Rightarrow> nat \<Rightarrow> metric_entry" where
  "counter_entry name h = \<lparr>me_name = name, me_help = ''h'', me_labels = [], me_kind = KCounter,
     me_counter = Some h, me_gauge = None\<rparr>"

lemma two_counters_shared:
  "metric_entries (shared two_counters) = [counter_entry ''a'' 0, counter_entry ''b'' 1]"
  "counters (shared two_counters) = [0, 0]" "pending two_counters = (\<lambda>_. None)"
  by (simp_all add: two_counters_def counter_entry_def metric_counter_def new_metrics_def metric_key_def
      render_labels_def Let_def)


text \<open>The text of the two counters, each with the value it had when its entry was reached.\<close>

definition two_lines :: "nat \<Rightarrow> nat \<Rightarrow> string" where
  "two_lines x y =
     render_header (counter_entry ''a'' 0) @ ''a '' @ dec_nat x @ [CHR 0x0A] @
     render_header (counter_entry ''b'' 1) @ ''b '' @ dec_nat y @ [CHR 0x0A]"

lemma render_counter_entry:
  assumes "counter_value m h < 1000000" and "name \<noteq> prev"
  shows "render_entry m (prev, out) (counter_entry name h) =
    (name, out @ render_header (counter_entry name h) @ name @ '' '' @ dec_nat (count_in m h) @ [CHR 0x0A])"
proof -
  have "unat (counter_value m h) < 1000000" using assms(1) by (simp add: word_less_nat_alt)
  then show ?thesis using assms(2) print_small_count [of "counter_value m h"]
    by (simp add: render_entry_def render_sample_def counter_entry_def entry_value_def render_labels_def count_in_def)
qed

text \<open>
  It is no snapshot: when a thread increments \<open>a\<close> and then \<open>b\<close> between the two samples,
  the scrape shows \<open>a\<close> at 0 and \<open>b\<close> at 1, which is the exposition of no state on the way.
\<close>

definition states_on :: "sc_action list \<Rightarrow> scrape \<Rightarrow> scrape set" where
  "states_on tr s = {s1. \<exists>tr1 tr2. tr = tr1 @ tr2 \<and> sc_path s tr1 s1}"

theorem scrape_is_no_snapshot:
  "\<exists>s'. sc_path (begin_scrape two_counters) busy_scrape s' \<and> todo s' = [] \<and>
        snd (acc s') = two_lines 0 1 \<and>
        snd (acc s') \<notin> (\<lambda>s. render_prometheus (shared (around s))) ` states_on busy_scrape (begin_scrape two_counters)"
proof -
  obtain s' where s': "sc_path (begin_scrape two_counters) busy_scrape s'" "todo s' = []"
      "snd (acc s') = two_lines 0 1"
    by (simp add: busy_scrape_def begin_scrape_def two_counters_shared counter_increment_def two_lines_def
        render_counter_entry count_in_def counter_value_def)
  have shown: "render_prometheus m = two_lines (count_in m 0) (count_in m 1)"
    if "metric_entries m = metric_entries (shared two_counters)" "counters m \<in> {[0, 0], [1, 0], [1, 1]}" for m
    using that by (auto simp: render_prometheus_def two_counters_shared two_lines_def render_counter_entry
        counter_value_def count_in_def)
  have held: "counters (shared (around s)) \<in> {[0, 0], [1, 0], [1, 1]} \<and>
      metric_entries (shared (around s)) = metric_entries (shared two_counters)"
    if "s \<in> states_on busy_scrape (begin_scrape two_counters)" for s
    using that by (auto simp: states_on_def busy_scrape_def begin_scrape_def two_counters_shared
        Cons_eq_append_conv counter_increment_def)
  have "render_prometheus (shared (around s)) \<in> {two_lines 0 0, two_lines 1 0, two_lines 1 1}"
    if "s \<in> states_on busy_scrape (begin_scrape two_counters)" for s
  proof -
    from held [OF that] have "counters (shared (around s)) \<in> {[0, 0], [1, 0], [1, 1]}" by (rule conjunct1)
    moreover have "render_prometheus (shared (around s)) =
        two_lines (count_in (shared (around s)) 0) (count_in (shared (around s)) 1)"
      using held [OF that] by (intro shown) blast+
    ultimately show ?thesis by (elim insertE) (simp_all add: count_in_def counter_value_def)
  qed
  moreover have "two_lines 0 1 \<notin> {two_lines 0 0, two_lines 1 0, two_lines 1 1}"
    by (auto simp: two_lines_def dec_nat.simps digit_char_def char_of_def)
  ultimately show ?thesis using s' by fastforce
qed

end
