(* ===== verification/Http_Server.thy ===== *)
theory Http_Server
  imports Health Metrics
begin

text \<open>
  The health and metrics endpoint (include/uaop/common/health_metrics_server.h,
  src/health_metrics_server.cpp): responses, one connection, and starting and stopping the
  listener. What the operating system answers (a socket number, success of bind and listen,
  the bytes received) is an argument of the operation that asks for it; \<open>open_fds\<close> are the
  descriptors the server has open. The accept loop running beside \<open>stop\<close> is in Accept_Loop.
\<close>

section \<open>Responses\<close>

definition CRLF :: string where "CRLF = [CHR 0x0D, CHR 0x0A]"

definition http_response :: "int \<Rightarrow> string \<Rightarrow> string \<Rightarrow> string \<Rightarrow> string" where
  "http_response status status_text content_type body =
     ''HTTP/1.1 '' @ dec_int status @ '' '' @ status_text @ CRLF @
     ''Content-Type: '' @ content_type @ CRLF @
     ''Content-Length: '' @ dec_nat (length body) @ CRLF @
     ''Connection: close'' @ CRLF @ CRLF @ body"

definition has_prefix :: "string \<Rightarrow> string \<Rightarrow> bool" where
  "has_prefix p s \<longleftrightarrow> take (length p) s = p"

definition respond :: "checks \<Rightarrow> metrics \<Rightarrow> string \<Rightarrow> string" where
  "respond health mets request =
     (if has_prefix ''GET /healthz'' request
      then http_response 200 ''OK'' ''application/json'' (render_json health)
      else if has_prefix ''GET /metrics'' request
      then http_response 200 ''OK'' ''text/plain; version=0.0.4'' (render_prometheus mets)
      else http_response 404 ''Not Found'' ''text/plain'' (''not found'' @ [CHR 0x0A]))"

section \<open>State and operations\<close>

record server =
  srv_running :: bool
  srv_port :: u16
  listen_fd :: int
  joinable :: bool
  open_fds :: "int set"

definition new_server :: server where
  "new_server = \<lparr>srv_running = False, srv_port = 0, listen_fd = - 1, joinable = False, open_fds = {}\<rparr>"

text \<open>The answers of the calls \<open>start\<close> makes, in the order it makes them.\<close>

record socket_env =
  env_socket :: int
  env_bind :: bool
  env_listen :: bool
  env_sockname :: "u16 option"
  env_thread :: bool

definition close_socket :: "int \<Rightarrow> server \<Rightarrow> server" where
  "close_socket fd srv = srv\<lparr>open_fds := open_fds srv - {fd}\<rparr>"

text \<open>
  The result is \<open>None\<close> when the constructor of \<open>std::thread\<close> throws, the system having no thread
  to give: the exception leaves \<open>start\<close> with the flag already set.
\<close>

definition server_start :: "socket_env \<Rightarrow> u16 \<Rightarrow> server \<Rightarrow> bool option \<times> server" where
  "server_start env port srv =
     (if srv_running srv then (Some False, srv)
      else if env_socket env = - 1 then (Some False, srv)
      else
        let fd = env_socket env;
            srv1 = srv\<lparr>open_fds := insert fd (open_fds srv)\<rparr>
        in if \<not> env_bind env then (Some False, close_socket fd srv1)
           else if \<not> env_listen env then (Some False, close_socket fd srv1)
           else
             let port' = (if port = 0 then (case env_sockname env of Some p \<Rightarrow> p | None \<Rightarrow> port) else port);
                 srv2 = srv1\<lparr>listen_fd := fd, srv_port := port', srv_running := True\<rparr>
             in if env_thread env then (Some True, srv2\<lparr>joinable := True\<rparr>) else (None, srv2))"

definition server_stop :: "server \<Rightarrow> server" where
  "server_stop srv =
     (if \<not> srv_running srv then srv
      else
        let srv1 = srv\<lparr>srv_running := False\<rparr>;
            srv2 = (if 0 \<le> listen_fd srv1 then (close_socket (listen_fd srv1) srv1)\<lparr>listen_fd := - 1\<rparr> else srv1)
        in if joinable srv2 then srv2\<lparr>joinable := False\<rparr> else srv2)"

definition destroy_server :: "server \<Rightarrow> server" where
  "destroy_server srv = server_stop srv"

text \<open>
  One connection, from the descriptor \<open>accept\<close> returned: the bytes received (\<open>None\<close> for an
  error or an orderly shutdown; at most 2047 bytes are read), the text sent, if any.
\<close>

definition handle_connection ::
  "checks \<Rightarrow> metrics \<Rightarrow> int \<Rightarrow> string option \<Rightarrow> server \<Rightarrow> string option \<times> server" where
  "handle_connection health mets client received srv =
     (let sent =
        (case received of
           None \<Rightarrow> None
         | Some bytes \<Rightarrow> if take 2047 bytes = [] then None
                         else Some (respond health mets (c_str (take 2047 bytes))))
      in (sent, close_socket client srv))"

definition accept_and_handle ::
  "checks \<Rightarrow> metrics \<Rightarrow> int \<Rightarrow> string option \<Rightarrow> server \<Rightarrow> string option \<times> server" where
  "accept_and_handle health mets client received srv =
     (if client = - 1 then (None, srv)
      else handle_connection health mets client received (srv\<lparr>open_fds := insert client (open_fds srv)\<rparr>))"

section \<open>Descriptors\<close>

datatype server_op =
    Start socket_env u16
  | Stop
  | Serve checks metrics int "string option"

fun server_step :: "server_op \<Rightarrow> server \<Rightarrow> server" where
  "server_step (Start env port) srv = snd (server_start env port srv)"
| "server_step Stop srv = server_stop srv"
| "server_step (Serve health mets client received) srv =
     (if srv_running srv \<and> joinable srv then snd (accept_and_handle health mets client received srv) else srv)"

text \<open>The system hands out descriptors that are not in use, or -1.\<close>

fun fresh_fds :: "server_op list \<Rightarrow> server \<Rightarrow> bool" where
  "fresh_fds [] srv = True"
| "fresh_fds (op # ops) srv =
     ((case op of
         Start env port \<Rightarrow> env_socket env = - 1 \<or> (0 \<le> env_socket env \<and> env_socket env \<notin> open_fds srv)
       | Serve health mets client received \<Rightarrow> client = - 1 \<or> (0 \<le> client \<and> client \<notin> open_fds srv)
       | Stop \<Rightarrow> True)
      \<and> fresh_fds ops (server_step op srv))"

definition server_ok :: "server \<Rightarrow> bool" where
  "server_ok srv \<longleftrightarrow>
     (if srv_running srv then 0 \<le> listen_fd srv \<and> open_fds srv = {listen_fd srv}
      else open_fds srv = {} \<and> \<not> joinable srv \<and> listen_fd srv = - 1)"

lemmas server_ops = server_start_def server_stop_def close_socket_def accept_and_handle_def
  handle_connection_def Let_def

lemma server_ok_step:
  "server_ok srv \<Longrightarrow> fresh_fds [op] srv \<Longrightarrow> server_ok (server_step op srv)"
  by (cases op) (auto simp: server_ok_def server_ops split: option.splits)

fun threads_created :: "server_op list \<Rightarrow> bool" where
  "threads_created [] = True"
| "threads_created (Start env port # ops) = (env_thread env \<and> threads_created ops)"
| "threads_created (op # ops) = threads_created ops"

lemma thread_while_running:
  "threads_created ops \<Longrightarrow> joinable srv = srv_running srv \<Longrightarrow>
   joinable (fold server_step ops srv) = srv_running (fold server_step ops srv)"
proof (induction ops arbitrary: srv rule: threads_created.induct)
  case (2 env port ops)
  then show ?case by (auto simp: server_ops)
qed (auto simp: server_ops)

text \<open>
  C22. No descriptor leaks and none is closed twice: after any sequence of starts, successful
  or failing at any stage, stops and connections, the server has its listening socket open,
  and nothing else, exactly while it is running, and a thread to join only then, always when no
  start failed to create its thread; its destructor leaves no descriptor open and no thread
  to join.
\<close>

theorem server_owns_exactly_its_listener:
  assumes "fresh_fds ops new_server"
  shows "open_fds (fold server_step ops new_server) =
           (if srv_running (fold server_step ops new_server)
            then {listen_fd (fold server_step ops new_server)} else {}) \<and>
         (joinable (fold server_step ops new_server) \<longrightarrow> srv_running (fold server_step ops new_server)) \<and>
         (threads_created ops \<longrightarrow> joinable (fold server_step ops new_server) = srv_running (fold server_step ops new_server)) \<and>
         open_fds (destroy_server (fold server_step ops new_server)) = {} \<and>
         \<not> joinable (destroy_server (fold server_step ops new_server))"
proof -
  have "server_ok srv \<Longrightarrow> fresh_fds ops srv \<Longrightarrow> server_ok (fold server_step ops srv)" for srv
    by (induction ops arbitrary: srv) (auto simp: server_ok_step)
  then have "server_ok (fold server_step ops new_server)"
    using assms by (simp add: server_ok_def new_server_def)
  moreover have "threads_created ops \<Longrightarrow> joinable (fold server_step ops new_server) = srv_running (fold server_step ops new_server)"
    by (rule thread_while_running) (simp_all add: new_server_def)
  ultimately show ?thesis by (auto simp: server_ok_def destroy_server_def server_ops split: if_splits)
qed

theorem server_owns_exactly_its_listener_witness:
  "open_fds (fold server_step
      [Start \<lparr>env_socket = 3, env_bind = False, env_listen = True, env_sockname = None, env_thread = True\<rparr> 80,
       Start \<lparr>env_socket = 3, env_bind = True, env_listen = True, env_sockname = Some 5000, env_thread = True\<rparr> 0,
       Serve [] new_metrics 4 (Some ''GET /'')] new_server) = {3}"
  using server_owns_exactly_its_listener
    [of "[Start \<lparr>env_socket = 3, env_bind = False, env_listen = True, env_sockname = None, env_thread = True\<rparr> 80,
       Start \<lparr>env_socket = 3, env_bind = True, env_listen = True, env_sockname = Some 5000, env_thread = True\<rparr> 0,
       Serve [] new_metrics 4 (Some ''GET /'')]"]
  by (simp add: server_ops new_server_def)

text \<open>Stopping is idempotent, and a server can be started again after it.\<close>

lemma server_stop_idempotent: "server_stop (server_stop srv) = server_stop srv"
  by (auto simp: server_ops)

lemma server_restart:
  "env_socket env \<noteq> - 1 \<Longrightarrow> env_bind env \<Longrightarrow> env_listen env \<Longrightarrow> env_thread env \<Longrightarrow>
   fst (server_start env port (server_stop srv)) = Some True \<and>
   (port \<noteq> 0 \<longrightarrow> srv_port (snd (server_start env port (server_stop srv))) = port)"
  by (auto simp: server_ops)

text \<open>
  When the thread cannot be created \<open>start\<close> throws and leaves the server claiming to run: the
  socket listens but nobody accepts, and every further start reports failure until \<open>stop\<close>.
\<close>

theorem failed_thread_leaves_a_deaf_server:
  fixes port :: u16
  assumes "\<not> srv_running srv" "\<not> joinable srv" "env_socket env \<noteq> - 1" "env_bind env" "env_listen env" "\<not> env_thread env"
  defines "srv' \<equiv> snd (server_start env port srv)"
  shows "fst (server_start env port srv) = None \<and> srv_running srv' \<and> env_socket env \<in> open_fds srv' \<and>
     server_step (Serve health mets client received) srv' = srv' \<and>
     server_start env' port' srv' = (Some False, srv')"
  using assms by (simp add: server_ops)

theorem failed_thread_leaves_a_deaf_server_witness:
  "fst (server_start \<lparr>env_socket = 3, env_bind = True, env_listen = True, env_sockname = None, env_thread = False\<rparr> 80 new_server) = None"
  using failed_thread_leaves_a_deaf_server
    [of new_server "\<lparr>env_socket = 3, env_bind = True, env_listen = True, env_sockname = None, env_thread = False\<rparr>"]
  by (simp add: new_server_def)

section \<open>Routing\<close>

text \<open>A reader of responses: header block and body, split at the first empty line.\<close>

fun split_message :: "string \<Rightarrow> string \<times> string" where
  "split_message (a # b # c # d # r) =
     (if [a, b, c, d] = CRLF @ CRLF then ([], r)
      else case split_message (b # c # d # r) of (h, body) \<Rightarrow> (a # h, body))"
| "split_message s = (s, [])"

lemma split_message_plain:
  "a \<noteq> CHR 0x0D \<Longrightarrow> 3 \<le> length s \<Longrightarrow>
   split_message (a # s) = (a # fst (split_message s), snd (split_message s))"
proof -
  assume "a \<noteq> CHR 0x0D" "3 \<le> length s"
  then obtain b c d r where "s = b # c # d # r"
    by (metis (no_types, opaque_lifting) Suc_le_length_iff numeral_3_eq_3)
  with \<open>a \<noteq> CHR 0x0D\<close> show ?thesis by (simp add: CRLF_def split: prod.split)
qed

lemma split_message_line:
  assumes "CHR 0x0D \<notin> set l" and "3 \<le> length s"
  shows "split_message (l @ s) = (l @ fst (split_message s), snd (split_message s))"
  using assms(1)
proof (induction l)
  case Nil
  then show ?case by simp
next
  case (Cons a l)
  then have "a \<noteq> CHR 0x0D" by auto
  with Cons show ?case using assms(2) split_message_plain [of a "l @ s"] by simp
qed

lemma split_message_break:
  assumes "c \<noteq> CHR 0x0D" and "2 \<le> length s"
  shows "split_message (CRLF @ c # s) = (CRLF @ fst (split_message (c # s)), snd (split_message (c # s)))"
proof -
  obtain d r where s: "s = d # r" using assms(2) by (cases s) auto
  have "split_message (CHR 0x0A # c # s) = (CHR 0x0A # fst (split_message (c # s)), snd (split_message (c # s)))"
    using assms(2) by (intro split_message_plain) auto
  then show ?thesis using assms(1) by (simp add: CRLF_def s split: prod.split)
qed

lemma split_message_end [simp]: "split_message (CRLF @ CRLF @ body) = ([], body)"
  by (simp add: CRLF_def)

lemma split_message_step:
  assumes "split_message s = (h, b)" and "l \<noteq> []" and "CHR 0x0D \<notin> set l" and "3 \<le> length s"
  shows "split_message (CRLF @ l @ s) = (CRLF @ l @ h, b)"
proof -
  obtain c l' where l: "l = c # l'" using assms(2) by (cases l) auto
  then have "c \<noteq> CHR 0x0D" using assms(3) by auto
  then show ?thesis
    using split_message_break [of c "l' @ s"] split_message_line [of l s] assms by (simp add: l)
qed

lemma dec_no_cr [simp]: "CHR 0x0D \<notin> set (dec_nat n)" "CHR 0x0D \<notin> set (dec_int i)"
  using dec_nat_digits [of "CHR 0x0D"] by (auto simp: is_digit_def dec_int_def)

lemma split_http_response:
  assumes "CHR 0x0D \<notin> set status_text" and "CHR 0x0D \<notin> set content_type"
  shows "split_message (http_response status status_text content_type body) =
    (''HTTP/1.1 '' @ dec_int status @ '' '' @ status_text @ CRLF @ ''Content-Type: '' @ content_type @ CRLF @
     ''Content-Length: '' @ dec_nat (length body) @ CRLF @ ''Connection: close'', body)"
proof -
  have len: "length CRLF = 2" by (simp add: CRLF_def)
  have "split_message (CRLF @ ''Connection: close'' @ CRLF @ CRLF @ body) = (CRLF @ ''Connection: close'' @ [], body)"
    by (rule split_message_step [OF split_message_end]) (simp_all add: len)
  then have "split_message (CRLF @ (''Content-Length: '' @ dec_nat (length body)) @ CRLF @ ''Connection: close'' @ CRLF @ CRLF @ body) =
     (CRLF @ (''Content-Length: '' @ dec_nat (length body)) @ CRLF @ ''Connection: close'' @ [], body)"
    by (rule split_message_step) (simp_all add: len)
  then have "split_message (CRLF @ (''Content-Type: '' @ content_type) @ CRLF @ (''Content-Length: '' @ dec_nat (length body)) @
       CRLF @ ''Connection: close'' @ CRLF @ CRLF @ body) =
     (CRLF @ (''Content-Type: '' @ content_type) @ CRLF @ (''Content-Length: '' @ dec_nat (length body)) @
       CRLF @ ''Connection: close'' @ [], body)"
    by (rule split_message_step) (use assms in \<open>simp_all add: len\<close>)
  then show ?thesis
    using split_message_line [of "''HTTP/1.1 '' @ dec_int status @ '' '' @ status_text"
        "CRLF @ (''Content-Type: '' @ content_type) @ CRLF @ (''Content-Length: '' @ dec_nat (length body)) @
           CRLF @ ''Connection: close'' @ CRLF @ CRLF @ body"] assms
    by (simp add: http_response_def len)
qed

text \<open>
  C27. Every response frames its body: the text after the first empty line is exactly the
  health document, the exposition text or the not-found message, and the header block
  announces its length, whatever health reasons and metric names put into it.
\<close>

theorem response_frames_its_body:
  "\<exists>pre. fst (split_message (respond health mets request)) =
       pre @ ''Content-Length: '' @ dec_nat (length (snd (split_message (respond health mets request)))) @
       CRLF @ ''Connection: close'' \<and>
     snd (split_message (respond health mets request)) =
       (if has_prefix ''GET /healthz'' request then render_json health
        else if has_prefix ''GET /metrics'' request then render_prometheus mets
        else ''not found'' @ [CHR 0x0A])"
proof -
  have "\<exists>pre. fst (split_message (http_response status st ct body)) =
       pre @ ''Content-Length: '' @ dec_nat (length (snd (split_message (http_response status st ct body)))) @
       CRLF @ ''Connection: close'' \<and> snd (split_message (http_response status st ct body)) = body"
    if "CHR 0x0D \<notin> set st" "CHR 0x0D \<notin> set ct" for status st ct body
    unfolding split_http_response [OF that] fst_conv snd_conv
    by (rule exI [of _ "''HTTP/1.1 '' @ dec_int status @ '' '' @ st @ CRLF @ ''Content-Type: '' @ ct @ CRLF"]) simp
  note framed = this [of "''OK''" "''application/json''" 200 "render_json health"]
    this [of "''OK''" "''text/plain; version=0.0.4''" 200 "render_prometheus mets"]
    this [of "''Not Found''" "''text/plain''" 404 "''not found'' @ [CHR 0x0A]"]
  show ?thesis
    unfolding respond_def using framed by (cases "has_prefix ''GET /healthz'' request"; cases "has_prefix ''GET /metrics'' request") simp_all
qed

lemma has_prefix_length: "has_prefix p s \<Longrightarrow> length p \<le> length s"
  using length_take [of "length p" s] by (simp add: has_prefix_def)

lemma c_str_prefix: "list_all (\<lambda>c. char_code c \<noteq> 0) p \<Longrightarrow> c_str (p @ r) = p @ c_str r"
  by (induction p) (auto simp: c_str_def)

lemma healthz_response:
  "handle_connection health mets client (Some (''GET /healthz'' @ r)) srv =
     (Some (http_response 200 ''OK'' ''application/json'' (render_json health)), close_socket client srv)"
proof -
  have "take 2047 (''GET /healthz'' @ r) = ''GET /healthz'' @ take 2035 r" by simp
  moreover have "c_str (''GET /healthz'' @ take 2035 r) = ''GET /healthz'' @ c_str (take 2035 r)"
    by (rule c_str_prefix) simp
  ultimately show ?thesis
    unfolding handle_connection_def by (simp add: respond_def has_prefix_def Let_def)
qed

lemma metrics_response:
  "handle_connection health mets client (Some (''GET /metrics'' @ r)) srv =
     (Some (http_response 200 ''OK'' ''text/plain; version=0.0.4'' (render_prometheus mets)), close_socket client srv)"
proof -
  have "take 2047 (''GET /metrics'' @ r) = ''GET /metrics'' @ take 2035 r" by simp
  moreover have "c_str (''GET /metrics'' @ take 2035 r) = ''GET /metrics'' @ c_str (take 2035 r)"
    by (rule c_str_prefix) simp
  ultimately show ?thesis
    unfolding handle_connection_def by (simp add: respond_def has_prefix_def Let_def)
qed

lemma http_response_inject:
  assumes "CHR 0x0D \<notin> set status_text" and "CHR 0x0D \<notin> set content_type"
  shows "http_response status status_text content_type body = http_response status status_text content_type body' \<longleftrightarrow>
         body = body'"
  using split_http_response [OF assms, of status body] split_http_response [OF assms, of status body'] by (metis snd_conv)

text \<open>
  Liveness, not health: any request that starts with \<open>GET /healthz\<close>, also one for a
  longer path, is answered 200 OK with the health document, whatever the registry's overall
  state is, FAIL included; the connection is closed afterwards.
\<close>

theorem healthz_is_always_ok:
  "handle_connection health mets client (Some (''GET /healthz'' @ r)) srv =
     (Some (http_response 200 ''OK'' ''application/json'' (render_json health)), close_socket client srv)"
  by (rule healthz_response)

text \<open>
  The request line has to arrive in one piece. A connection makes a single call of \<open>recv\<close>, which
  may return any non-empty first part of what the client sent: a probe is answered with the
  health document when that part holds all of \<open>GET /healthz\<close>, and else with 404 although the
  client asked for nothing but its health.
\<close>

theorem probe_must_arrive_in_one_piece:
  assumes "part @ later = ''GET /healthz'' @ rest" and "part \<noteq> []"
  shows "handle_connection health mets client (Some part) srv =
     (Some (if 12 \<le> length part then http_response 200 ''OK'' ''application/json'' (render_json health)
            else http_response 404 ''Not Found'' ''text/plain'' (''not found'' @ [CHR 0x0A])), close_socket client srv)"
proof (cases "12 \<le> length part")
  case True
  have "take 12 part = take 12 (part @ later)" using True by simp
  also have "\<dots> = ''GET /healthz''" unfolding assms(1) by simp
  finally have "part = ''GET /healthz'' @ drop 12 part" by (metis append_take_drop_id)
  then show ?thesis using healthz_response [of health mets client "drop 12 part" srv] True by simp
next
  case False
  have "length (c_str (take 2047 part)) \<le> length (take 2047 part)"
    unfolding c_str_def by (rule length_takeWhile_le)
  then have "length (c_str (take 2047 part)) < 12" using False by simp
  then have "\<not> has_prefix ''GET /healthz'' (c_str (take 2047 part))" "\<not> has_prefix ''GET /metrics'' (c_str (take 2047 part))"
    by (auto dest: has_prefix_length)
  then show ?thesis using assms(2) False by (simp add: handle_connection_def respond_def Let_def)
qed

theorem probe_must_arrive_in_one_piece_witness:
  "fst (handle_connection [] new_metrics 4 (Some ''GET /hea'') new_server) =
     Some (http_response 404 ''Not Found'' ''text/plain'' (''not found'' @ [CHR 0x0A]))"
  using probe_must_arrive_in_one_piece [of "''GET /hea''" "''lthz HTTP/1.1''" "'' HTTP/1.1''" "[]" new_metrics 4 new_server]
  by simp

end
