(* ===== verification/Accept_Loop.thy ===== *)
theory Accept_Loop
  imports Prelude
begin

text \<open>
  The accept loop of the health and metrics server running beside \<open>stop\<close>
  (src/health_metrics_server.cpp, \<open>run\<close>, \<open>handle_connection\<close> and \<open>stop\<close>), as interleaved steps
  of the thread that calls \<open>stop\<close>, of the loop's thread, of the connected peer and of the rest
  of the process, which may open a descriptor and be given the number the listener had.
  Sockets are blocking and have no timeout: \<open>recv\<close> returns when the peer has sent something or
  hung up, \<open>send\<close> when the peer has made room or hung up; only \<open>select\<close> has a timeout.
\<close>

section \<open>States and steps\<close>

datatype fd_state = Fd_listening | Fd_closed | Fd_reused

text \<open>
  Where \<open>stop\<close> is: not called, past the exchange, past the close, past the assignment to
  \<open>listen_fd_\<close>, past the join.
\<close>

datatype stop_pc = S_idle | S_exchanged | S_closed | S_joining | S_done

text \<open>
  Where \<open>run\<close> is: before it copies \<open>listen_fd_\<close>, at the loop test, in \<open>select\<close>, at \<open>accept\<close>, and in \<open>handle_connection\<close> at
  \<open>recv\<close>, at \<open>send\<close>, at \<open>close_socket\<close>; returned.
\<close>

datatype loop_pc = L_begin | L_test | L_select | L_accept | L_recv | L_send | L_close | L_exit

record accept_state =
  al_running :: bool
  al_fd :: fd_state
  al_member :: bool    \<comment> \<open>\<open>listen_fd_\<close> holds the descriptor, not -1\<close>
  al_local :: bool     \<comment> \<open>so does the copy in \<open>run\<close>\<close>
  al_stop :: stop_pc
  al_loop :: loop_pc
  al_readable :: bool  \<comment> \<open>the peer of the connection has sent or hung up\<close>
  al_writable :: bool  \<comment> \<open>the peer of the connection has made room or hung up\<close>

definition accept_started :: accept_state where
  "accept_started =
     \<lparr>al_running = True, al_fd = Fd_listening, al_member = True, al_local = False, al_stop = S_idle, al_loop = L_begin,
      al_readable = False, al_writable = False\<rparr>"

datatype actor = Stopper | Looper | Peer | Others

inductive al_step :: "actor \<Rightarrow> accept_state \<Rightarrow> accept_state \<Rightarrow> bool" where
  stop_exchange: "al_stop s = S_idle \<Longrightarrow>
    al_step Stopper s (s\<lparr>al_running := False, al_stop := S_exchanged\<rparr>)"
| stop_close: "al_stop s = S_exchanged \<Longrightarrow> al_member s \<Longrightarrow>
    al_step Stopper s (s\<lparr>al_fd := Fd_closed, al_stop := S_closed\<rparr>)"
| stop_unset: "al_stop s = S_exchanged \<Longrightarrow> \<not> al_member s \<Longrightarrow> al_step Stopper s (s\<lparr>al_stop := S_joining\<rparr>)"
| stop_forget: "al_stop s = S_closed \<Longrightarrow>
    al_step Stopper s (s\<lparr>al_member := False, al_stop := S_joining\<rparr>)"
| stop_join: "al_stop s = S_joining \<Longrightarrow> al_loop s = L_exit \<Longrightarrow>
    al_step Stopper s (s\<lparr>al_stop := S_done\<rparr>)"
| loop_begin: "al_loop s = L_begin \<Longrightarrow> al_step Looper s (s\<lparr>al_local := al_member s, al_loop := L_test\<rparr>)"
| loop_enter: "al_loop s = L_test \<Longrightarrow> al_running s \<Longrightarrow> al_step Looper s (s\<lparr>al_loop := L_select\<rparr>)"
| loop_leave: "al_loop s = L_test \<Longrightarrow> \<not> al_running s \<Longrightarrow> al_step Looper s (s\<lparr>al_loop := L_exit\<rparr>)"
| select_none: "al_loop s = L_select \<Longrightarrow> al_step Looper s (s\<lparr>al_loop := L_test\<rparr>)"
| select_ready: "al_loop s = L_select \<Longrightarrow> al_fd s \<noteq> Fd_closed \<Longrightarrow>
    al_step Looper s (s\<lparr>al_loop := L_accept\<rparr>)"
| accept_failed: "al_loop s = L_accept \<Longrightarrow> al_step Looper s (s\<lparr>al_loop := L_test\<rparr>)"
| accept_client: "al_loop s = L_accept \<Longrightarrow> al_fd s \<noteq> Fd_closed \<Longrightarrow>
    al_step Looper s (s\<lparr>al_loop := L_recv, al_readable := False, al_writable := False\<rparr>)"
| recv_bytes: "al_loop s = L_recv \<Longrightarrow> al_readable s \<Longrightarrow> al_step Looper s (s\<lparr>al_loop := L_send\<rparr>)"
| recv_nothing: "al_loop s = L_recv \<Longrightarrow> al_readable s \<Longrightarrow> al_step Looper s (s\<lparr>al_loop := L_close\<rparr>)"
| send_returns: "al_loop s = L_send \<Longrightarrow> al_writable s \<Longrightarrow> al_step Looper s (s\<lparr>al_loop := L_close\<rparr>)"
| client_closed: "al_loop s = L_close \<Longrightarrow> al_step Looper s (s\<lparr>al_loop := L_test\<rparr>)"
| peer_sends: "al_loop s = L_recv \<Longrightarrow> \<not> al_readable s \<Longrightarrow> al_step Peer s (s\<lparr>al_readable := True\<rparr>)"
| peer_reads: "al_loop s = L_send \<Longrightarrow> \<not> al_writable s \<Longrightarrow> al_step Peer s (s\<lparr>al_writable := True\<rparr>)"
| reuse: "al_fd s = Fd_closed \<Longrightarrow> al_step Others s (s\<lparr>al_fd := Fd_reused\<rparr>)"

inductive_cases al_stepE: "al_step a s s'"

inductive al_path :: "accept_state \<Rightarrow> actor list \<Rightarrow> accept_state \<Rightarrow> bool" where
  path_nil: "al_path s [] s"
| path_cons: "al_step a s s1 \<Longrightarrow> al_path s1 tr s' \<Longrightarrow> al_path s (a # tr) s'"

inductive_simps al_path_Nil [simp]: "al_path s [] s'"
inductive_simps al_path_Cons [simp]: "al_path s (a # tr) s'"

section \<open>Invariant\<close>

definition al_ok :: "accept_state \<Rightarrow> bool" where
  "al_ok s \<longleftrightarrow>
     (al_running s \<longleftrightarrow> al_stop s = S_idle) \<and>
     (al_fd s = Fd_listening \<longleftrightarrow> al_stop s \<in> {S_idle, S_exchanged}) \<and>
     (al_member s \<longleftrightarrow> al_stop s \<in> {S_idle, S_exchanged, S_closed}) \<and>
     (al_loop s \<notin> {L_begin, L_exit} \<and> (al_loop s = L_test \<longrightarrow> al_running s) \<longrightarrow> al_local s) \<and>
     (al_loop s = L_exit \<longrightarrow> \<not> al_running s) \<and>
     (al_stop s = S_done \<longrightarrow> al_loop s = L_exit)"

lemma al_ok_step: "al_step a s s' \<Longrightarrow> al_ok s \<Longrightarrow> al_ok s'"
  by (induction rule: al_step.induct) (auto simp: al_ok_def)

lemma al_ok_path: "al_path s tr s' \<Longrightarrow> al_ok s \<Longrightarrow> al_ok s'"
  by (induction rule: al_path.induct) (auto simp: al_ok_step)

lemma al_ok_started: "al_ok accept_started"
  by (simp add: al_ok_def accept_started_def)

text \<open>
  \<open>listen_fd_\<close> is no atomic: \<open>stop\<close> may overwrite it before the new thread has copied it. As the
  flag is cleared first, a loop whose copy is -1 ends at its first test and never hands it to
  \<open>select\<close> or \<open>accept\<close>.
\<close>

theorem loop_never_uses_a_lost_descriptor:
  assumes "al_path accept_started tr s" and "\<not> al_local s"
  shows "al_loop s \<in> {L_begin, L_test, L_exit} \<and> (al_loop s = L_test \<longrightarrow> \<not> al_running s)"
  using al_ok_path [OF assms(1) al_ok_started] assms(2) by (auto simp: al_ok_def)

theorem loop_never_uses_a_lost_descriptor_witness:
  "\<exists>s. al_path accept_started [Stopper, Stopper, Stopper, Looper] s \<and> \<not> al_local s \<and> al_loop s = L_test \<and> \<not> al_running s"
proof -
  define s where "s = accept_started\<lparr>al_running := False, al_fd := Fd_closed, al_member := False, al_stop := S_joining, al_loop := L_test\<rparr>"
  have "al_step Looper (s\<lparr>al_loop := L_begin\<rparr>) s"
    using loop_begin [of "s\<lparr>al_loop := L_begin\<rparr>"] by (simp add: s_def accept_started_def)
  then have path: "al_path accept_started [Stopper, Stopper, Stopper, Looper] s"
    by (auto simp: accept_started_def s_def intro!: exI stop_exchange stop_close stop_forget)
  moreover have lost: "\<not> al_local s" by (simp add: s_def accept_started_def)
  moreover from loop_never_uses_a_lost_descriptor [OF path lost] have "\<not> al_running s" by (simp add: s_def)
  moreover have "al_loop s = L_test" by (simp add: s_def)
  ultimately show ?thesis by blast
qed

text \<open>
  When \<open>stop\<close> has returned, the loop has ended and the listening socket is closed: no
  step of the loop is left to run.
\<close>

theorem stopped_server_is_quiet:
  assumes "al_path accept_started tr s" and "al_stop s = S_done"
  shows "al_loop s = L_exit \<and> al_fd s \<noteq> Fd_listening \<and> \<not> (\<exists>s'. al_step Looper s s')"
  using al_ok_path [OF assms(1) al_ok_started] assms(2) by (auto simp: al_ok_def elim: al_stepE)

theorem stopped_server_is_quiet_witness:
  "\<exists>s. al_path accept_started [Looper, Stopper, Stopper, Stopper, Looper, Stopper] s \<and> al_loop s = L_exit"
proof -
  define s where "s = accept_started\<lparr>al_running := False, al_fd := Fd_closed, al_member := False, al_local := True,
    al_stop := S_done, al_loop := L_exit\<rparr>"
  have "al_step Stopper (s\<lparr>al_stop := S_joining\<rparr>) s"
    using stop_join [of "s\<lparr>al_stop := S_joining\<rparr>"] by (simp add: s_def accept_started_def)
  then have "al_path accept_started [Looper, Stopper, Stopper, Stopper, Looper, Stopper] s"
    by (auto simp: accept_started_def s_def intro!: exI loop_begin stop_exchange stop_close stop_forget loop_leave)
  moreover from stopped_server_is_quiet [OF this] have "al_loop s = L_exit" by (simp add: s_def)
  ultimately show ?thesis by (intro exI conjI)
qed

section \<open>Stopping terminates\<close>

text \<open>The loop's thread waits for its peer in \<open>recv\<close> or \<open>send\<close>.\<close>

definition awaits_peer :: "accept_state \<Rightarrow> bool" where
  "awaits_peer s \<longleftrightarrow> al_loop s = L_recv \<and> \<not> al_readable s \<or> al_loop s = L_send \<and> \<not> al_writable s"

fun steps_left :: "loop_pc \<Rightarrow> nat" where
  "steps_left L_exit = 0"
| "steps_left L_test = 1"
| "steps_left L_begin = 2"
| "steps_left L_close = 2"
| "steps_left L_send = 3"
| "steps_left L_recv = 4"
| "steps_left L_accept = 5"
| "steps_left L_select = 6"

lemma steps_left_step:
  "al_step a s s' \<Longrightarrow> \<not> al_running s \<Longrightarrow>
   \<not> al_running s' \<and> steps_left (al_loop s') + (if a = Looper then 1 else 0) \<le> steps_left (al_loop s)"
  by (induction rule: al_step.induct) auto

lemma steps_left_path:
  "al_path s tr s' \<Longrightarrow> \<not> al_running s \<Longrightarrow>
   steps_left (al_loop s') + count_list tr Looper \<le> steps_left (al_loop s)"
proof (induction rule: al_path.induct)
  case (path_cons a s s1 tr s')
  from steps_left_step [OF path_cons(1,4)] path_cons(3) show ?case by (auto split: if_splits)
qed simp

lemma steps_left_le: "steps_left pc \<le> 6"
  by (cases pc) auto

lemma looper_progress:
  "\<not> al_running s \<Longrightarrow> al_loop s \<noteq> L_exit \<Longrightarrow> \<not> awaits_peer s \<Longrightarrow> \<exists>s'. al_step Looper s s'"
  by (cases "al_loop s") (auto simp: awaits_peer_def intro: al_step.intros)

lemma peer_progress: "awaits_peer s \<Longrightarrow> \<exists>s'. al_step Peer s s'"
  by (auto simp: awaits_peer_def intro: peer_sends peer_reads)

text \<open>
  Once \<open>stop\<close> has set the flag, the loop's thread makes at most six more steps under any
  schedule, and until it ends it can always make one unless it waits for the connected peer.
\<close>

theorem stop_join_terminates:
  assumes "\<not> al_running s" and "al_path s tr s'"
  shows "count_list tr Looper \<le> 6 \<and>
         (al_loop s' = L_exit \<or> awaits_peer s' \<or> (\<exists>s''. al_step Looper s' s''))"
proof -
  have "\<not> al_running s'"
    using assms(2,1) by (induction rule: al_path.induct) (auto dest: steps_left_step)
  then show ?thesis
    using steps_left_path [OF assms(2,1)] steps_left_le [of "al_loop s"] looper_progress [of s'] by auto
qed

theorem stop_join_terminates_witness:
  "count_list [] Looper \<le> (6 :: nat) \<and>
   (al_loop (accept_started\<lparr>al_running := False\<rparr>) = L_exit \<or>
    awaits_peer (accept_started\<lparr>al_running := False\<rparr>) \<or>
    (\<exists>s''. al_step Looper (accept_started\<lparr>al_running := False\<rparr>) s''))"
  by (rule stop_join_terminates) simp_all

section \<open>A silent peer\<close>

lemma awaiting_step:
  "al_step a s s' \<Longrightarrow> a \<noteq> Peer \<Longrightarrow> awaits_peer s \<Longrightarrow> awaits_peer s' \<and> al_loop s' = al_loop s"
  by (induction rule: al_step.induct) (auto simp: awaits_peer_def)

lemma awaiting_path:
  "al_path s tr s' \<Longrightarrow> Peer \<notin> set tr \<Longrightarrow> awaits_peer s \<Longrightarrow> awaits_peer s' \<and> al_loop s' = al_loop s"
  by (induction rule: al_path.induct) (auto dest: awaiting_step)

text \<open>
  C24. One silent client holds the server: a connection that sends nothing leaves the loop in
  \<open>recv\<close>, and however the process goes on, as long as that peer does nothing, no other
  connection is accepted and a call of \<open>stop\<close> does not return.
\<close>

theorem silent_peer_blocks_stop:
  "\<exists>tr s. al_path accept_started tr s \<and> al_loop s = L_recv \<and>
     {s'. \<exists>tr'. al_path s tr' s' \<and> Peer \<notin> set tr'} \<subseteq> {s'. al_loop s' = L_recv \<and> al_stop s' \<noteq> S_done}"
proof -
  define s where "s = accept_started\<lparr>al_local := True, al_loop := L_recv\<rparr>"
  have "al_step Looper (s\<lparr>al_loop := L_accept\<rparr>) s"
    using accept_client [of "s\<lparr>al_loop := L_accept\<rparr>"] by (simp add: s_def accept_started_def)
  then have "al_path accept_started [Looper, Looper, Looper, Looper] s"
    by (auto simp: accept_started_def s_def intro!: exI loop_begin loop_enter select_ready)
  moreover have "al_loop s' = L_recv \<and> al_stop s' \<noteq> S_done"
    if "al_path s tr' s'" "Peer \<notin> set tr'" for tr' s'
  proof -
    have "al_loop s' = L_recv"
      using awaiting_path [OF that] by (simp add: s_def awaits_peer_def accept_started_def)
    moreover have "al_ok s'" by (rule al_ok_path [OF that(1)]) (simp add: al_ok_def s_def accept_started_def)
    ultimately show ?thesis by (auto simp: al_ok_def)
  qed
  moreover have "al_loop s = L_recv" by (simp add: s_def)
  ultimately show ?thesis by blast
qed

section \<open>Fair runs\<close>

text \<open>
  An infinite run makes a step or pauses at each instant. It is fair when an actor that can
  move from some instant on does move: the loop's thread and the peer, and the thread that
  stops the server once it has called \<open>stop\<close>.
\<close>

definition al_run :: "(nat \<Rightarrow> accept_state) \<Rightarrow> bool" where
  "al_run s \<longleftrightarrow> (\<forall>i. s (Suc i) = s i \<or> (\<exists>a. al_step a (s i) (s (Suc i))))"

definition can_act :: "actor \<Rightarrow> accept_state \<Rightarrow> bool" where
  "can_act a s \<longleftrightarrow> (a = Stopper \<longrightarrow> al_stop s \<noteq> S_idle) \<and> (\<exists>s'. al_step a s s')"

definition fair_to :: "actor \<Rightarrow> (nat \<Rightarrow> accept_state) \<Rightarrow> bool" where
  "fair_to a s \<longleftrightarrow> (\<forall>i. \<exists>j \<ge> i. \<not> can_act a (s j) \<or> al_step a (s j) (s (Suc j)))"

fun stop_left :: "stop_pc \<Rightarrow> nat" where
  "stop_left S_idle = 4"
| "stop_left S_exchanged = 3"
| "stop_left S_closed = 2"
| "stop_left S_joining = 1"
| "stop_left S_done = 0"

definition work_left :: "accept_state \<Rightarrow> nat" where
  "work_left s = 2 * steps_left (al_loop s) + (if awaits_peer s then 1 else 0) + stop_left (al_stop s)"

lemma work_left_step:
  "al_step a s s' \<Longrightarrow> \<not> al_running s \<Longrightarrow>
   work_left s' + (if a = Others then 0 else 1) \<le> work_left s"
  by (induction rule: al_step.induct) (auto simp: work_left_def awaits_peer_def)

lemma others_step: "al_step Others s s' \<Longrightarrow> \<exists>fd. s' = s\<lparr>al_fd := fd\<rparr>"
  by (auto elim: al_stepE)

lemma someone_can_act:
  assumes "al_ok s" "\<not> al_running s" "al_stop s \<noteq> S_done"
  shows "can_act (if al_loop s = L_exit \<or> al_stop s \<in> {S_exchanged, S_closed} then Stopper
                  else if awaits_peer s then Peer else Looper) s"
proof -
  have "al_stop s = S_exchanged \<and> al_member s \<or> al_stop s = S_closed \<or> al_stop s = S_joining"
    using assms by (cases "al_stop s") (auto simp: al_ok_def)
  then show ?thesis
    using looper_progress [OF assms(2)] peer_progress [of s] stop_close [of s] stop_forget [of s] stop_join [of s]
    by (auto simp: can_act_def)
qed

text \<open>A run whose work does not shrink any more only changes the descriptor.\<close>

lemma run_without_work:
  assumes "al_run s" "\<not> al_running (s i)" "\<forall>j \<ge> i. work_left (s j) = work_left (s i)" "i \<le> j"
  shows "\<exists>fd. s j = s i\<lparr>al_fd := fd\<rparr>"
  using assms(4)
proof (induction rule: dec_induct)
  case base
  show ?case by (rule exI [of _ "al_fd (s i)"]) simp
next
  case (step n)
  then obtain fd where fd: "s n = s i\<lparr>al_fd := fd\<rparr>" by blast
  then have run: "\<not> al_running (s n)" using assms(2) by simp
  have same: "work_left (s (Suc n)) = work_left (s n)" using assms(3) step.hyps(1) by (metis le_SucI)
  consider "s (Suc n) = s n" | a where "al_step a (s n) (s (Suc n))"
    using assms(1) unfolding al_run_def by blast
  then show ?case
  proof cases
    case 1
    then show ?thesis using fd by auto
  next
    case (2 a)
    have "a = Others" using work_left_step [OF 2 run] same by (simp split: if_splits)
    then obtain fd' where "s (Suc n) = s n\<lparr>al_fd := fd'\<rparr>" using others_step 2 by blast
    then have "s (Suc n) = s i\<lparr>al_fd := fd'\<rparr>" using fd by simp
    then show ?thesis by (rule exI)
  qed
qed

lemma run_keeps:
  assumes "al_run s"
  shows "al_ok (s i) \<Longrightarrow> al_ok (s (i + k))" and "\<not> al_running (s i) \<Longrightarrow> \<not> al_running (s (i + k))"
    and "\<not> al_running (s i) \<Longrightarrow> work_left (s (i + k)) \<le> work_left (s i)"
proof -
  have next_ok: "al_ok (s n) \<Longrightarrow> al_ok (s (Suc n))" for n
    using assms al_ok_step unfolding al_run_def by metis
  have next_work: "\<not> al_running (s n) \<Longrightarrow> \<not> al_running (s (Suc n)) \<and> work_left (s (Suc n)) \<le> work_left (s n)" for n
  proof -
    assume off: "\<not> al_running (s n)"
    consider "s (Suc n) = s n" | a where "al_step a (s n) (s (Suc n))"
      using assms unfolding al_run_def by blast
    then show ?thesis
    proof cases
      case (2 a)
      show ?thesis using steps_left_step [OF 2 off] work_left_step [OF 2 off] by simp
    qed (use off in simp)
  qed
  show "al_ok (s i) \<Longrightarrow> al_ok (s (i + k))" by (induction k) (simp_all add: next_ok)
  have "\<not> al_running (s i) \<Longrightarrow> \<not> al_running (s (i + k)) \<and> work_left (s (i + k)) \<le> work_left (s i)"
  proof (induction k)
    case (Suc k)
    then show ?case using next_work [of "i + k"] by simp
  qed simp
  then show "\<not> al_running (s i) \<Longrightarrow> \<not> al_running (s (i + k))"
    and "\<not> al_running (s i) \<Longrightarrow> work_left (s (i + k)) \<le> work_left (s i)" by simp_all
qed

lemma fair_run_progress:
  assumes run: "al_run s" and fair: "\<forall>a \<in> {Stopper, Looper, Peer}. fair_to a s"
    and ok: "al_ok (s i)" "\<not> al_running (s i)" "al_stop (s i) \<noteq> S_done"
  shows "\<exists>j \<ge> i. work_left (s j) < work_left (s i)"
proof (rule ccontr)
  assume "\<not> ?thesis"
  then have stuck: "\<forall>j \<ge> i. work_left (s j) = work_left (s i)"
    using run_keeps(3) [OF run ok(2)] by (metis le_Suc_ex leI le_antisym)
  then have frozen: "\<exists>fd. s j = s i\<lparr>al_fd := fd\<rparr>" if "i \<le> j" for j
    using run_without_work [OF run ok(2)] that by blast
  define a where "a = (if al_loop (s i) = L_exit \<or> al_stop (s i) \<in> {S_exchanged, S_closed} then Stopper
                       else if awaits_peer (s i) then Peer else Looper)"
  have "fair_to a s" using fair by (simp add: a_def)
  then obtain j where j: "i \<le> j" "\<not> can_act a (s j) \<or> al_step a (s j) (s (Suc j))"
    unfolding fair_to_def by blast
  obtain fd where "s j = s i\<lparr>al_fd := fd\<rparr>" using frozen j(1) by blast
  then have like: "al_loop (s j) = al_loop (s i)" "al_stop (s j) = al_stop (s i)"
    "awaits_peer (s j) = awaits_peer (s i)" "\<not> al_running (s j)"
    using ok(2) by (simp_all add: awaits_peer_def)
  have "al_ok (s j)" using run_keeps(1) [OF run ok(1), of "j - i"] j(1) by simp
  then have "can_act a (s j)"
    using someone_can_act [of "s j"] ok(3) like by (auto simp: a_def)
  then have "al_step a (s j) (s (Suc j))" using j(2) by blast
  moreover have "a \<noteq> Others" by (simp add: a_def)
  ultimately have "work_left (s (Suc j)) < work_left (s j)"
    using work_left_step [of a "s j" "s (Suc j)"] like(4) by simp
  moreover have "work_left (s (Suc j)) = work_left (s i)" "work_left (s j) = work_left (s i)"
    using stuck j(1) by (metis le_SucI, metis)
  ultimately show False by simp
qed


text \<open>A fair run: \<open>stop\<close> is called at once and the loop sees the flag before its first test.\<close>

definition stopping_run :: "nat \<Rightarrow> accept_state" where
  "stopping_run i =
     (let begun = accept_started\<lparr>al_local := True, al_loop := L_test\<rparr>;
          forgot = begun\<lparr>al_running := False, al_stop := S_joining, al_fd := Fd_closed, al_member := False\<rparr>
      in if i = 0 then accept_started
         else if i = 1 then begun
         else if i = 2 then begun\<lparr>al_running := False, al_stop := S_exchanged\<rparr>
         else if i = 3 then begun\<lparr>al_running := False, al_stop := S_closed, al_fd := Fd_closed\<rparr>
         else if i = 4 then forgot
         else if i = 5 then forgot\<lparr>al_loop := L_exit\<rparr>
         else forgot\<lparr>al_loop := L_exit, al_stop := S_done\<rparr>)"

lemma stopping_run_steps: "al_run stopping_run"
  unfolding al_run_def
proof
  fix i :: nat
  consider "i = 0" | "i = 1" | "i = 2" | "i = 3" | "i = 4" | "i = 5" | "6 \<le> i" by linarith
  then show "stopping_run (Suc i) = stopping_run i \<or> (\<exists>a. al_step a (stopping_run i) (stopping_run (Suc i)))"
  proof cases
    case 1
    then show ?thesis using loop_begin [of accept_started]
      by (auto simp: stopping_run_def accept_started_def Let_def)
  next
    case 2
    then show ?thesis using stop_exchange [of "stopping_run 1"]
      by (auto simp: stopping_run_def accept_started_def Let_def)
  next
    case 3
    then show ?thesis using stop_close [of "stopping_run 2"]
      by (auto simp: stopping_run_def accept_started_def Let_def)
  next
    case 4
    then show ?thesis using stop_forget [of "stopping_run 3"]
      by (auto simp: stopping_run_def accept_started_def Let_def)
  next
    case 5
    then show ?thesis using loop_leave [of "stopping_run 4"]
      by (auto simp: stopping_run_def accept_started_def Let_def)
  next
    case 6
    then show ?thesis using stop_join [of "stopping_run 5"]
      by (auto simp: stopping_run_def accept_started_def Let_def)
  qed (simp add: stopping_run_def)
qed

lemma stopping_run_fair: "a \<in> {Stopper, Looper, Peer} \<Longrightarrow> fair_to a stopping_run"
proof -
  assume "a \<in> {Stopper, Looper, Peer}"
  then have "\<not> can_act a (stopping_run (i + 6))" for i
    by (auto simp: can_act_def stopping_run_def accept_started_def Let_def elim: al_stepE)
  then show ?thesis unfolding fair_to_def by (metis le_add1)
qed


section \<open>The closed descriptor\<close>

text \<open>
  The loop can accept on somebody else's socket: \<open>stop\<close> closes the listening descriptor
  before it joins the thread, so a schedule in which another part of the process is given
  the same number lets the loop, still in \<open>select\<close>, call \<open>accept\<close> on it.
\<close>

theorem loop_can_accept_on_reused_descriptor:
  "\<exists>tr s. al_path accept_started tr s \<and> al_fd s = Fd_reused \<and> al_loop s = L_recv"
proof -
  define s where "s = accept_started\<lparr>al_running := False, al_fd := Fd_reused, al_member := False, al_local := True,
    al_stop := S_joining, al_loop := L_recv\<rparr>"
  have "al_step Looper (s\<lparr>al_loop := L_accept\<rparr>) s"
    using accept_client [of "s\<lparr>al_loop := L_accept\<rparr>"] by (simp add: s_def accept_started_def)
  then have "al_path accept_started [Looper, Looper, Stopper, Stopper, Stopper, Others, Looper, Looper] s"
    by (auto simp: accept_started_def s_def
        intro!: exI loop_begin loop_enter stop_exchange stop_close stop_forget reuse select_ready)
  then show ?thesis by (intro exI conjI) (assumption, simp_all add: s_def)
qed

end
