(* ===== verification/Accept_Hangup.thy ===== *)
theory Accept_Hangup
  imports Accept_Loop
begin

text \<open>
  The accept loop when the peer of a connection hangs up before it is answered
  (src/health_metrics_server.cpp, \<open>handle_connection\<close>). POSIX: \<open>send\<close> on a stream socket that is
  no longer connected fails with \<open>EPIPE\<close> and, as the call passes no \<open>MSG_NOSIGNAL\<close>, raises
  \<open>SIGPIPE\<close>, which ends the process unless it is ignored. The library does not ignore it;
  whether the service does is an argument. A \<open>send\<close> that overtakes the news of the hang-up
  still returns.
\<close>

record service_process =
  svc :: accept_state
  gone :: bool     \<comment> \<open>the peer of the connection has closed it\<close>
  killed :: bool

datatype sv_action = Regular actor | Hang_up | Broken_send

inductive sv_step :: "bool \<Rightarrow> sv_action \<Rightarrow> service_process \<Rightarrow> service_process \<Rightarrow> bool" where
  sv_regular: "\<not> killed p \<Longrightarrow> al_step a (svc p) s \<Longrightarrow>
    sv_step ignored (Regular a) p (p\<lparr>svc := s, gone := gone p \<and> al_loop (svc p) \<noteq> L_accept\<rparr>)"
| sv_hang_up: "\<not> killed p \<Longrightarrow> al_loop (svc p) \<in> {L_recv, L_send} \<Longrightarrow>
    sv_step ignored Hang_up p (p\<lparr>svc := (svc p)\<lparr>al_readable := True, al_writable := True\<rparr>, gone := True\<rparr>)"
| sv_broken: "\<not> killed p \<Longrightarrow> al_loop (svc p) = L_send \<Longrightarrow> gone p \<Longrightarrow> \<not> ignored \<Longrightarrow>
    sv_step ignored Broken_send p (p\<lparr>killed := True\<rparr>)"

inductive sv_path :: "bool \<Rightarrow> service_process \<Rightarrow> sv_action list \<Rightarrow> service_process \<Rightarrow> bool" where
  sv_nil: "sv_path ignored p [] p"
| sv_cons: "sv_step ignored a p p1 \<Longrightarrow> sv_path ignored p1 tr p' \<Longrightarrow> sv_path ignored p (a # tr) p'"

inductive_cases sv_stepE: "sv_step ignored a p p'"
inductive_simps sv_path_Nil [simp]: "sv_path ignored p [] p'"
inductive_simps sv_path_Cons [simp]: "sv_path ignored p (a # tr) p'"

definition service_started :: service_process where
  "service_started = \<lparr>svc = accept_started, gone = False, killed = False\<rparr>"

lemma killed_is_final: "killed p \<Longrightarrow> \<not> sv_step ignored a p p'"
  by (auto elim: sv_stepE)

lemma sv_killed:
  "sv_path ignored p tr p' \<Longrightarrow> \<not> killed p \<Longrightarrow> killed p' \<Longrightarrow> \<not> ignored \<and> (gone p \<or> Hang_up \<in> set tr)"
proof (induction rule: sv_path.induct)
  case (sv_cons ignored a p p1 tr p')
  from sv_cons(1) show ?case
  proof cases
    case (sv_broken)
    then show ?thesis by blast
  qed (use sv_cons in auto)
qed simp

text \<open>A hang-up is what the loop waits for anyway: the invariant of the loop is kept.\<close>

lemma sv_ok: "sv_path ignored p tr p' \<Longrightarrow> al_ok (svc p) \<Longrightarrow> al_ok (svc p')"
proof (induction rule: sv_path.induct)
  case (sv_cons ignored a p p1 tr p')
  from sv_cons(1) have "al_ok (svc p1)"
  proof cases
    case (sv_regular b s)
    then show ?thesis using al_ok_step [OF _ sv_cons(4)] by simp
  qed (use sv_cons(4) in \<open>auto simp: al_ok_def\<close>)
  then show ?case by (rule sv_cons.IH)
qed simp


end
