(* ===== verification/Accept_Timing.thy ===== *)
theory Accept_Timing
  imports Accept_Loop
begin

text \<open>
  How long \<open>stop\<close> takes (src/health_metrics_server.cpp). The clock advances by a millisecond at
  a time, only while the loop's thread is inside \<open>select\<close>, whose timeout then runs down, or
  blocked on the connected peer; the steps of Accept_Loop take no time of their own.
\<close>

definition kPollTimeoutMs :: nat where
  "kPollTimeoutMs = 200"

text \<open>A step of a thread, a millisecond in \<open>select\<close>, a millisecond of waiting for the peer.\<close>

datatype timed_label = Act actor | Poll | Wait_peer

record timed_state =
  tm_state :: accept_state
  tm_left :: nat  \<comment> \<open>milliseconds left of the timeout of the \<open>select\<close> under way\<close>

definition timed_started :: timed_state where
  "timed_started = \<lparr>tm_state = accept_started, tm_left = 0\<rparr>"

text \<open>Entering \<open>select\<close> arms its timeout: the loop fills in \<open>tv\<close> anew each time round.\<close>

definition arm_timeout :: "accept_state \<Rightarrow> accept_state \<Rightarrow> nat \<Rightarrow> nat" where
  "arm_timeout s s' left =
     (if al_loop s = L_test \<and> al_loop s' = L_select then kPollTimeoutMs else left)"

inductive timed_step :: "timed_state \<Rightarrow> timed_label \<Rightarrow> timed_state \<Rightarrow> bool" where
  timed_act: "al_step a (tm_state t) s' \<Longrightarrow>
    timed_step t (Act a) (t\<lparr>tm_state := s', tm_left := arm_timeout (tm_state t) s' (tm_left t)\<rparr>)"
| timed_poll: "al_loop (tm_state t) = L_select \<Longrightarrow> tm_left t = Suc n \<Longrightarrow>
    timed_step t Poll (t\<lparr>tm_left := n\<rparr>)"
| timed_wait: "awaits_peer (tm_state t) \<Longrightarrow> timed_step t Wait_peer t"

inductive_cases timed_stepE: "timed_step t l t'"

inductive timed_path :: "timed_state \<Rightarrow> timed_label list \<Rightarrow> timed_state \<Rightarrow> bool" where
  timed_nil: "timed_path t [] t"
| timed_cons: "timed_step t l t1 \<Longrightarrow> timed_path t1 ls t' \<Longrightarrow> timed_path t (l # ls) t'"

inductive_simps timed_path_simps [simp]: "timed_path t [] t'" "timed_path t (l # ls) t'"

section \<open>Invariant\<close>

definition timed_ok :: "timed_state \<Rightarrow> bool" where
  "timed_ok t \<longleftrightarrow> al_ok (tm_state t) \<and> tm_left t \<le> kPollTimeoutMs"

lemma timed_ok_step: "timed_step t l t' \<Longrightarrow> timed_ok t \<Longrightarrow> timed_ok t'"
  by (induction rule: timed_step.induct) (auto simp: timed_ok_def al_ok_step arm_timeout_def)

lemma timed_ok_path: "timed_path t ls t' \<Longrightarrow> timed_ok t \<Longrightarrow> timed_ok t'"
  by (induction rule: timed_path.induct) (auto dest: timed_ok_step)

lemma timed_ok_started: "timed_ok timed_started"
  by (simp add: timed_ok_def timed_started_def al_ok_started)

section \<open>The time \<open>stop\<close> takes\<close>

definition by_thread :: "timed_label \<Rightarrow> bool" where
  "by_thread l \<longleftrightarrow> (\<exists>a. l = Act a \<and> a \<noteq> Others)"

text \<open>Once the flag is cleared no \<open>select\<close> is entered any more: its timeout only runs down.\<close>

lemma stopping_step:
  "timed_step t l t' \<Longrightarrow> \<not> al_running (tm_state t) \<Longrightarrow>
   \<not> al_running (tm_state t') \<and>
   tm_left t' + (if l = Poll then 1 else 0) \<le> tm_left t \<and>
   work_left (tm_state t') + (if by_thread l then 1 else 0) \<le> work_left (tm_state t)"
proof (induction rule: timed_step.induct)
  case (timed_act a t s')
  have "\<not> (al_loop (tm_state t) = L_test \<and> al_loop s' = L_select)"
    using timed_act by (auto elim!: al_stepE)
  then show ?case
    using steps_left_step [OF timed_act] work_left_step [OF timed_act]
    by (auto simp: arm_timeout_def by_thread_def)
qed (auto simp: by_thread_def)

lemma stopping_path:
  "timed_path t ls t' \<Longrightarrow> \<not> al_running (tm_state t) \<Longrightarrow>
   \<not> al_running (tm_state t') \<and> count_list ls Poll \<le> tm_left t \<and>
   length (filter by_thread ls) \<le> work_left (tm_state t)"
proof (induction rule: timed_path.induct)
  case (timed_cons t l t1 ls t')
  from stopping_step [OF timed_cons(1,4)] timed_cons(3) show ?case by (auto split: if_splits)
qed simp

lemma work_left_le: "\<not> al_running s \<Longrightarrow> al_ok s \<Longrightarrow> work_left s \<le> 15"
  using steps_left_le [of "al_loop s"]
  by (cases "al_stop s"; cases "al_loop s") (auto simp: work_left_def al_ok_def awaits_peer_def)


text \<open>The timeout can be used up to the last millisecond.\<close>

lemma poll_all:
  "al_loop (tm_state t) = L_select \<Longrightarrow> tm_left t = n \<Longrightarrow> timed_path t (replicate n Poll) (t\<lparr>tm_left := 0\<rparr>)"
proof (induction n arbitrary: t)
  case 0
  then show ?case by (cases t) simp
next
  case (Suc n)
  have "timed_step t Poll (t\<lparr>tm_left := n\<rparr>)" by (rule timed_poll [OF Suc.prems])
  moreover have "timed_path (t\<lparr>tm_left := n\<rparr>) (replicate n Poll) (t\<lparr>tm_left := 0\<rparr>)"
    using Suc.IH [of "t\<lparr>tm_left := n\<rparr>"] Suc.prems(1) by simp
  ultimately show ?case by auto
qed

definition stopped_in_select :: timed_state where
  "stopped_in_select =
     \<lparr>tm_state = accept_started\<lparr>al_running := False, al_local := True, al_stop := S_exchanged, al_loop := L_select\<rparr>,
      tm_left = kPollTimeoutMs\<rparr>"

lemma reach_stopped_in_select: "timed_path timed_started [Act Looper, Act Looper, Act Stopper] stopped_in_select"
proof -
  define begun where "begun = accept_started\<lparr>al_local := True, al_loop := L_test\<rparr>"
  define polling where "polling = begun\<lparr>al_loop := L_select\<rparr>"
  have "timed_step timed_started (Act Looper) \<lparr>tm_state = begun, tm_left = 0\<rparr>"
    using timed_act [of Looper timed_started begun] loop_begin [of accept_started]
    by (simp add: timed_started_def arm_timeout_def accept_started_def begun_def)
  moreover have "timed_step \<lparr>tm_state = begun, tm_left = 0\<rparr> (Act Looper) \<lparr>tm_state = polling, tm_left = kPollTimeoutMs\<rparr>"
    using timed_act [of Looper "\<lparr>tm_state = begun, tm_left = 0\<rparr>" polling] loop_enter [of begun]
    by (simp add: arm_timeout_def accept_started_def begun_def polling_def)
  moreover have "timed_step \<lparr>tm_state = polling, tm_left = kPollTimeoutMs\<rparr> (Act Stopper) stopped_in_select"
    using timed_act [of Stopper "\<lparr>tm_state = polling, tm_left = kPollTimeoutMs\<rparr>" "tm_state stopped_in_select"]
      stop_exchange [of polling]
    by (simp add: arm_timeout_def accept_started_def begun_def polling_def stopped_in_select_def)
  ultimately show ?thesis by auto
qed

lemma stop_can_wait_a_whole_poll:
  "timed_path stopped_in_select (replicate kPollTimeoutMs Poll) (stopped_in_select\<lparr>tm_left := 0\<rparr>)"
  using poll_all [of stopped_in_select kPollTimeoutMs] by (simp add: stopped_in_select_def)


end
