(* ===== verification/Telemetry.thy ===== *)
theory Telemetry
  imports Dbl_Arith
begin

text \<open>
  The telemetry controller of the ground control station
  (src/frontend/qt-desktop-gcs/src/TelemetryController): its state, the simulation tick, the
  pre-flight verdict, the setters and commands, and the change signals each emits. The
  \<open>sin\<close> and \<open>cos\<close> of the C library and the numbers the random generator returns are arguments.
  A \<open>QString\<close> is its UTF-8 text.
\<close>

section \<open>State\<close>

record telemetry =
  latitude :: double
  longitude :: double
  altitude_wgs84 :: double
  altitude_agl :: double
  satellites :: int
  ground_speed :: double
  roll :: double
  pitch :: double
  yaw :: double
  battery_voltage :: double
  battery_remaining :: double
  e2ee_enabled :: bool
  fhss_sync_active :: bool
  fhss_channel :: int
  signal_jamming :: int
  spoofing_state :: string
  cpu_load :: double
  armed :: bool
  simulated_jamming :: bool
  sim_step :: double  \<comment> \<open>the static \<open>step\<close> of \<open>updateSimulation\<close>\<close>

datatype gcs_signal = TelemetryChanged | SecurityChanged | RfHealthChanged | DiagnosticsChanged

definition new_telemetry :: telemetry where
  "new_telemetry =
     \<lparr>latitude = dlit 284595 10000, longitude = dlit 770266 10000, altitude_wgs84 = dlit 250 1,
      altitude_agl = dlit 0 1, satellites = 18, ground_speed = dlit 0 1,
      roll = dlit 0 1, pitch = dlit 0 1, yaw = dlit 0 1,
      battery_voltage = dlit 168 10, battery_remaining = dlit 1 1,
      e2ee_enabled = True, fhss_sync_active = True, fhss_channel = 12, signal_jamming = 25,
      spoofing_state = ''NO_SPOOFING'', cpu_load = dlit 154 10,
      armed = False, simulated_jamming = False, sim_step = dlit 0 1\<rparr>"

section \<open>The pre-flight verdict\<close>

definition ready_to_fly :: "telemetry \<Rightarrow> bool" where
  "ready_to_fly t =
     (if simulated_jamming t \<or> signal_jamming t > 150 then False
      else if dbl_less (battery_remaining t) (dlit 20 100) then False
      else if \<not> e2ee_enabled t then False
      else if \<not> fhss_sync_active t then False
      else if satellites t < 6 then False
      else True)"

text \<open>The red and green circles that open the messages, U+1F534 and U+1F7E2.\<close>

definition red_circle :: string where "red_circle = [CHR 0xF0, CHR 0x9F, CHR 0x94, CHR 0xB4]"
definition green_circle :: string where "green_circle = [CHR 0xF0, CHR 0x9F, CHR 0x9F, CHR 0xA2]"

definition msg_ready :: string where
  "msg_ready = green_circle @ '' READY TO FLY: SYSTEM HEALTH VERIFIED''"

definition msg_active :: string where
  "msg_active = green_circle @ '' FLIGHT COMMAND ACTIVE: TARGET TRACKING ENGAGED''"

definition status_message :: "telemetry \<Rightarrow> string" where
  "status_message t =
     (if simulated_jamming t then red_circle @ '' NO-GO: ACTIVE RF JAMMING & GPS SPOOFING DETECTED''
      else if dbl_less (battery_remaining t) (dlit 20 100)
      then red_circle @ '' NO-GO: BATTERY CAPACITY CRITICAL (< 20%)''
      else if \<not> e2ee_enabled t then red_circle @ '' NO-GO: E2E LINK ENCRYPTION DISENGAGED''
      else if \<not> fhss_sync_active t then red_circle @ '' NO-GO: FHSS HOPPING OUT OF SYNC''
      else if satellites t < 6 then red_circle @ '' NO-GO: INSUFFICIENT GPS SATELLITES FOR LOCK''
      else if armed t then msg_active
      else msg_ready)"

section \<open>The simulation tick\<close>

record sim_env =
  env_sin :: "double \<Rightarrow> double"
  env_cos :: "double \<Rightarrow> double"
  rnd_hop :: int      \<comment> \<open>\<open>bounded(10)\<close>\<close>
  rnd_channel :: int  \<comment> \<open>\<open>bounded(1, 50)\<close>\<close>
  rnd_jamming :: int  \<comment> \<open>\<open>bounded(200, 255)\<close>\<close>
  rnd_sats :: int     \<comment> \<open>\<open>bounded(0, 4)\<close>\<close>
  rnd_noise :: int    \<comment> \<open>\<open>bounded(10, 45)\<close>\<close>

definition voltage_of :: "double \<Rightarrow> double" where
  "voltage_of remaining = dbl_add (dlit 14 1) (dbl_mul remaining (dlit 28 10))"

definition sim_flying :: "sim_env \<Rightarrow> telemetry \<Rightarrow> telemetry" where
  "sim_flying env t =
     (let st = sim_step t;
          agl = dbl_add (altitude_agl t) (dbl_mul (dbl_sub (dlit 15 1) (altitude_agl t)) (dlit 5 100));
          battery = qMax (dlit 0 1) (dbl_sub (battery_remaining t) (dlit 2 10000))
      in t\<lparr>ground_speed := dbl_add (dlit 125 10) (dbl_mul (env_sin env (dbl_mul st (dlit 2 10))) (dlit 2 1)),
           altitude_agl := agl,
           altitude_wgs84 := dbl_add (dlit 250 1) agl,
           latitude := dbl_add (latitude t) (dbl_mul (env_cos env (dbl_mul st (dlit 5 100))) (dlit 2 100000)),
           longitude := dbl_add (longitude t) (dbl_mul (env_sin env (dbl_mul st (dlit 5 100))) (dlit 2 100000)),
           roll := dbl_mul (env_sin env (dbl_mul st (dlit 5 10))) (dlit 8 1),
           pitch := dbl_mul (env_cos env (dbl_mul st (dlit 5 10))) (dlit 4 1),
           yaw := dbl_fmod (dbl_add (yaw t) (dlit 5 10)) (dlit 360 1),
           battery_remaining := battery,
           battery_voltage := voltage_of battery\<rparr>)"

definition sim_grounded :: "sim_env \<Rightarrow> telemetry \<Rightarrow> telemetry" where
  "sim_grounded env t =
     (let st = sim_step t;
          t1 = t\<lparr>ground_speed := dlit 0 1,
                 altitude_agl := qMax (dlit 0 1) (dbl_sub (altitude_agl t) (dlit 1 1)),
                 altitude_wgs84 := dlit 250 1,
                 roll := dbl_mul (env_sin env (dbl_mul st (dlit 1 10))) (dlit 5 10),
                 pitch := dbl_mul (env_cos env (dbl_mul st (dlit 1 10))) (dlit 5 10)\<rparr>
      in if dbl_less (battery_remaining t1) (dlit 1 1)
         then let battery = qMin (dlit 1 1) (dbl_add (battery_remaining t1) (dlit 1 1000))
              in t1\<lparr>battery_remaining := battery, battery_voltage := voltage_of battery\<rparr>
         else t1)"

definition update_simulation :: "sim_env \<Rightarrow> telemetry \<Rightarrow> telemetry \<times> gcs_signal list" where
  "update_simulation env t0 =
     (let t1 = t0\<lparr>sim_step := dbl_add (sim_step t0) (dlit 1 10)\<rparr>;
          t2 = (if armed t1 then sim_flying env t1 else sim_grounded env t1);
          (t3, sig3) =
            (if fhss_sync_active t2 \<and> rnd_hop env < 3
             then (t2\<lparr>fhss_channel := rnd_channel env\<rparr>, [SecurityChanged]) else (t2, []));
          (t4, sig4) =
            (if simulated_jamming t3
             then (t3\<lparr>signal_jamming := rnd_jamming env, spoofing_state := ''SPOOFING'',
                      satellites := rnd_sats env, fhss_sync_active := False, e2ee_enabled := False\<rparr>,
                   [RfHealthChanged, SecurityChanged])
             else (t3\<lparr>signal_jamming := rnd_noise env, spoofing_state := ''NO_SPOOFING'', satellites := 18\<rparr>, []));
          t5 = t4\<lparr>cpu_load := dbl_add (dlit 12 1)
                      (dbl_mul (env_sin env (dbl_mul (sim_step t4) (dlit 1 10))) (dlit 3 1))\<rparr>
      in (t5, sig3 @ sig4 @ [TelemetryChanged, DiagnosticsChanged]))"

section \<open>Setters\<close>

definition set_latitude :: "double \<Rightarrow> telemetry \<Rightarrow> telemetry \<times> gcs_signal list" where
  "set_latitude val t =
     (if qFuzzyCompare (latitude t) val then (t, []) else (t\<lparr>latitude := val\<rparr>, [TelemetryChanged]))"

definition set_longitude :: "double \<Rightarrow> telemetry \<Rightarrow> telemetry \<times> gcs_signal list" where
  "set_longitude val t =
     (if qFuzzyCompare (longitude t) val then (t, []) else (t\<lparr>longitude := val\<rparr>, [TelemetryChanged]))"

definition set_altitude_wgs84 :: "double \<Rightarrow> telemetry \<Rightarrow> telemetry \<times> gcs_signal list" where
  "set_altitude_wgs84 val t =
     (if qFuzzyCompare (altitude_wgs84 t) val then (t, []) else (t\<lparr>altitude_wgs84 := val\<rparr>, [TelemetryChanged]))"

definition set_altitude_agl :: "double \<Rightarrow> telemetry \<Rightarrow> telemetry \<times> gcs_signal list" where
  "set_altitude_agl val t =
     (if qFuzzyCompare (altitude_agl t) val then (t, []) else (t\<lparr>altitude_agl := val\<rparr>, [TelemetryChanged]))"

definition set_satellites :: "int \<Rightarrow> telemetry \<Rightarrow> telemetry \<times> gcs_signal list" where
  "set_satellites val t =
     (if satellites t = val then (t, []) else (t\<lparr>satellites := val\<rparr>, [TelemetryChanged]))"

definition set_ground_speed :: "double \<Rightarrow> telemetry \<Rightarrow> telemetry \<times> gcs_signal list" where
  "set_ground_speed val t =
     (if qFuzzyCompare (ground_speed t) val then (t, []) else (t\<lparr>ground_speed := val\<rparr>, [TelemetryChanged]))"

definition set_roll :: "double \<Rightarrow> telemetry \<Rightarrow> telemetry \<times> gcs_signal list" where
  "set_roll val t =
     (if qFuzzyCompare (roll t) val then (t, []) else (t\<lparr>roll := val\<rparr>, [TelemetryChanged]))"

definition set_pitch :: "double \<Rightarrow> telemetry \<Rightarrow> telemetry \<times> gcs_signal list" where
  "set_pitch val t =
     (if qFuzzyCompare (pitch t) val then (t, []) else (t\<lparr>pitch := val\<rparr>, [TelemetryChanged]))"

definition set_yaw :: "double \<Rightarrow> telemetry \<Rightarrow> telemetry \<times> gcs_signal list" where
  "set_yaw val t =
     (if qFuzzyCompare (yaw t) val then (t, []) else (t\<lparr>yaw := val\<rparr>, [TelemetryChanged]))"

definition set_battery_voltage :: "double \<Rightarrow> telemetry \<Rightarrow> telemetry \<times> gcs_signal list" where
  "set_battery_voltage val t =
     (if qFuzzyCompare (battery_voltage t) val then (t, []) else (t\<lparr>battery_voltage := val\<rparr>, [TelemetryChanged]))"

definition set_battery_remaining :: "double \<Rightarrow> telemetry \<Rightarrow> telemetry \<times> gcs_signal list" where
  "set_battery_remaining val t =
     (if qFuzzyCompare (battery_remaining t) val then (t, [])
      else (t\<lparr>battery_remaining := val\<rparr>, [TelemetryChanged]))"

definition set_e2ee_enabled :: "bool \<Rightarrow> telemetry \<Rightarrow> telemetry \<times> gcs_signal list" where
  "set_e2ee_enabled val t =
     (if e2ee_enabled t = val then (t, [])
      else (t\<lparr>e2ee_enabled := val\<rparr>, [SecurityChanged, DiagnosticsChanged]))"

definition set_fhss_sync_active :: "bool \<Rightarrow> telemetry \<Rightarrow> telemetry \<times> gcs_signal list" where
  "set_fhss_sync_active val t =
     (if fhss_sync_active t = val then (t, [])
      else (t\<lparr>fhss_sync_active := val\<rparr>, [SecurityChanged, DiagnosticsChanged]))"

definition set_fhss_channel :: "int \<Rightarrow> telemetry \<Rightarrow> telemetry \<times> gcs_signal list" where
  "set_fhss_channel val t =
     (if fhss_channel t = val then (t, []) else (t\<lparr>fhss_channel := val\<rparr>, [SecurityChanged]))"

definition set_signal_jamming :: "int \<Rightarrow> telemetry \<Rightarrow> telemetry \<times> gcs_signal list" where
  "set_signal_jamming val t =
     (if signal_jamming t = val then (t, [])
      else (t\<lparr>signal_jamming := val\<rparr>, [RfHealthChanged, DiagnosticsChanged]))"

definition set_spoofing_state :: "string \<Rightarrow> telemetry \<Rightarrow> telemetry \<times> gcs_signal list" where
  "set_spoofing_state val t =
     (if spoofing_state t = val then (t, [])
      else (t\<lparr>spoofing_state := val\<rparr>, [RfHealthChanged, DiagnosticsChanged]))"

definition set_cpu_load :: "double \<Rightarrow> telemetry \<Rightarrow> telemetry \<times> gcs_signal list" where
  "set_cpu_load val t =
     (if qFuzzyCompare (cpu_load t) val then (t, []) else (t\<lparr>cpu_load := val\<rparr>, [DiagnosticsChanged]))"

section \<open>Commands\<close>

definition arm_vehicle :: "telemetry \<Rightarrow> telemetry \<times> gcs_signal list" where
  "arm_vehicle t = (if \<not> ready_to_fly t then (t, []) else (t\<lparr>armed := True\<rparr>, [DiagnosticsChanged]))"

definition disarm_vehicle :: "telemetry \<Rightarrow> telemetry \<times> gcs_signal list" where
  "disarm_vehicle t = (t\<lparr>armed := False\<rparr>, [DiagnosticsChanged])"

definition toggle_jamming_simulation :: "telemetry \<Rightarrow> telemetry \<times> gcs_signal list" where
  "toggle_jamming_simulation t =
     (let t1 = t\<lparr>simulated_jamming := \<not> simulated_jamming t\<rparr>;
          t2 = (if \<not> simulated_jamming t1
                then t1\<lparr>fhss_sync_active := True, e2ee_enabled := True, satellites := 18\<rparr> else t1)
      in (t2, [DiagnosticsChanged]))"

definition abort_mission :: "telemetry \<Rightarrow> telemetry \<times> gcs_signal list" where
  "abort_mission t =
     (t\<lparr>armed := False, altitude_agl := dlit 0 1, ground_speed := dlit 0 1\<rparr>, [DiagnosticsChanged])"

section \<open>What the display is told\<close>

datatype gcs_op =
    Tick sim_env
  | Set_latitude double | Set_longitude double | Set_altitude_wgs84 double | Set_altitude_agl double
  | Set_satellites int | Set_ground_speed double | Set_roll double | Set_pitch double | Set_yaw double
  | Set_battery_voltage double | Set_battery_remaining double
  | Set_e2ee_enabled bool | Set_fhss_sync_active bool | Set_fhss_channel int
  | Set_signal_jamming int | Set_spoofing_state string | Set_cpu_load double
  | Arm | Disarm | Toggle_jamming | Abort

fun telemetry_step :: "gcs_op \<Rightarrow> telemetry \<Rightarrow> telemetry \<times> gcs_signal list" where
  "telemetry_step (Tick env) t = update_simulation env t"
| "telemetry_step (Set_latitude v) t = set_latitude v t"
| "telemetry_step (Set_longitude v) t = set_longitude v t"
| "telemetry_step (Set_altitude_wgs84 v) t = set_altitude_wgs84 v t"
| "telemetry_step (Set_altitude_agl v) t = set_altitude_agl v t"
| "telemetry_step (Set_satellites n) t = set_satellites n t"
| "telemetry_step (Set_ground_speed v) t = set_ground_speed v t"
| "telemetry_step (Set_roll v) t = set_roll v t"
| "telemetry_step (Set_pitch v) t = set_pitch v t"
| "telemetry_step (Set_yaw v) t = set_yaw v t"
| "telemetry_step (Set_battery_voltage v) t = set_battery_voltage v t"
| "telemetry_step (Set_battery_remaining v) t = set_battery_remaining v t"
| "telemetry_step (Set_e2ee_enabled b) t = set_e2ee_enabled b t"
| "telemetry_step (Set_fhss_sync_active b) t = set_fhss_sync_active b t"
| "telemetry_step (Set_fhss_channel n) t = set_fhss_channel n t"
| "telemetry_step (Set_signal_jamming n) t = set_signal_jamming n t"
| "telemetry_step (Set_spoofing_state s) t = set_spoofing_state s t"
| "telemetry_step (Set_cpu_load v) t = set_cpu_load v t"
| "telemetry_step Arm t = arm_vehicle t"
| "telemetry_step Disarm t = disarm_vehicle t"
| "telemetry_step Toggle_jamming t = toggle_jamming_simulation t"
| "telemetry_step Abort t = abort_mission t"

lemmas telemetry_setters =
  set_latitude_def set_longitude_def set_altitude_wgs84_def set_altitude_agl_def set_satellites_def
  set_ground_speed_def set_roll_def set_pitch_def set_yaw_def set_battery_voltage_def
  set_battery_remaining_def set_e2ee_enabled_def set_fhss_sync_active_def set_fhss_channel_def
  set_signal_jamming_def set_spoofing_state_def set_cpu_load_def

lemmas telemetry_commands =
  arm_vehicle_def disarm_vehicle_def toggle_jamming_simulation_def abort_mission_def

text \<open>The groups of properties that share a notification.\<close>

definition telemetry_view :: "telemetry \<Rightarrow> double list \<times> int" where
  "telemetry_view t =
     ([latitude t, longitude t, altitude_wgs84 t, altitude_agl t, ground_speed t, roll t, pitch t, yaw t,
       battery_voltage t, battery_remaining t], satellites t)"

definition security_view :: "telemetry \<Rightarrow> bool \<times> bool \<times> int" where
  "security_view t = (e2ee_enabled t, fhss_sync_active t, fhss_channel t)"

definition rf_view :: "telemetry \<Rightarrow> int \<times> string" where
  "rf_view t = (signal_jamming t, spoofing_state t)"

definition diagnostics_view :: "telemetry \<Rightarrow> bool \<times> string \<times> double" where
  "diagnostics_view t = (ready_to_fly t, status_message t, cpu_load t)"

lemmas telemetry_views = telemetry_view_def security_view_def rf_view_def

lemma diagnostics_update [simp]:
  "diagnostics_view (t\<lparr>latitude := v\<rparr>) = diagnostics_view t"
  "diagnostics_view (t\<lparr>longitude := v\<rparr>) = diagnostics_view t"
  "diagnostics_view (t\<lparr>altitude_wgs84 := v\<rparr>) = diagnostics_view t"
  "diagnostics_view (t\<lparr>altitude_agl := v\<rparr>) = diagnostics_view t"
  "diagnostics_view (t\<lparr>ground_speed := v\<rparr>) = diagnostics_view t"
  "diagnostics_view (t\<lparr>roll := v\<rparr>) = diagnostics_view t"
  "diagnostics_view (t\<lparr>pitch := v\<rparr>) = diagnostics_view t"
  "diagnostics_view (t\<lparr>yaw := v\<rparr>) = diagnostics_view t"
  "diagnostics_view (t\<lparr>battery_voltage := v\<rparr>) = diagnostics_view t"
  "diagnostics_view (t\<lparr>fhss_channel := n\<rparr>) = diagnostics_view t"
  by (simp_all add: diagnostics_view_def ready_to_fly_def status_message_def)

text \<open>
  Setters notify what they change: after any setter, arming or disarming, every group of
  properties whose values changed has been notified, except that a new satellite count or
  battery level, which the verdict depends on, does not notify the diagnostics.
\<close>

theorem setters_notify_their_group:
  assumes "telemetry_step op t = (t', sigs)"
    and "op \<notin> {Toggle_jamming, Abort}" and "\<forall>env. op \<noteq> Tick env"
  shows "(telemetry_view t' = telemetry_view t \<or> TelemetryChanged \<in> set sigs) \<and>
         (security_view t' = security_view t \<or> SecurityChanged \<in> set sigs) \<and>
         (rf_view t' = rf_view t \<or> RfHealthChanged \<in> set sigs) \<and>
         (diagnostics_view t' = diagnostics_view t \<or> DiagnosticsChanged \<in> set sigs \<or>
          (\<exists>n. op = Set_satellites n) \<or> (\<exists>v. op = Set_battery_remaining v))"
  using assms
  by (cases op) (auto simp: telemetry_setters arm_vehicle_def disarm_vehicle_def telemetry_views split: if_splits)

theorem setters_notify_their_group_witness:
  "let (t', sigs) = telemetry_step (Set_signal_jamming 200) new_telemetry
   in rf_view t' = rf_view new_telemetry \<or> RfHealthChanged \<in> set sigs"
  using setters_notify_their_group
    [of "Set_signal_jamming 200" new_telemetry "fst (telemetry_step (Set_signal_jamming 200) new_telemetry)"
        "snd (telemetry_step (Set_signal_jamming 200) new_telemetry)"]
  by (simp add: split_beta)

lemma dlit_values: "dlit 20 100 = 0x3FC999999999999A" "dlit 1 1 = 0x3FF0000000000000"
  by (simp_all add: dlit_def dbl_pack_def round_dbl_def floor_log_frac_def floor_log_nat.simps
      div_half_even_def Let_def)

lemma battery_full [simp]: "\<not> dbl_less (battery_remaining new_telemetry) (dlit 20 100)"
proof -
  have "battery_remaining new_telemetry = dlit 1 1" by (simp add: new_telemetry_def)
  then show ?thesis
    unfolding dlit_values
    by (simp add: dlit_values dbl_less_def dbl_decode_def dbl_exponent_def dbl_fraction_def dbl_sign_def
        with_sign_def Let_def)
qed

lemma new_telemetry_ready: "ready_to_fly new_telemetry"
  unfolding ready_to_fly_def using battery_full by (simp add: new_telemetry_def)

text \<open>Losing the satellites turns the verdict without a word to the diagnostics.\<close>

lemma satellites_flip_verdict_silently:
  "ready_to_fly new_telemetry \<and> \<not> ready_to_fly (fst (set_satellites 5 new_telemetry)) \<and>
   snd (set_satellites 5 new_telemetry) = [TelemetryChanged]"
  using new_telemetry_ready by (simp add: set_satellites_def ready_to_fly_def) (simp add: new_telemetry_def)

section \<open>The verdict\<close>

text \<open>
  The message and the verdict disagree in one case: the message is one of the two green
  ones when the vehicle is ready, and also, though it is not ready, when interference above
  150 is measured without the simulated jamming and every other check passes.
\<close>

theorem green_message_iff:
  "status_message t \<in> {msg_ready, msg_active} \<longleftrightarrow>
     ready_to_fly t \<or>
     (signal_jamming t > 150 \<and> \<not> simulated_jamming t \<and>
      \<not> dbl_less (battery_remaining t) (dlit 20 100) \<and> e2ee_enabled t \<and> fhss_sync_active t \<and>
      6 \<le> satellites t)"
  by (auto simp: status_message_def ready_to_fly_def msg_ready_def msg_active_def red_circle_def green_circle_def)

lemma armed_sim: "armed (fst (update_simulation env t)) = armed t"
  by (simp add: update_simulation_def sim_flying_def sim_grounded_def Let_def split: prod.splits)

text \<open>
  C33. Arming is guarded and nothing else arms or disarms: after an operation the vehicle is
  armed exactly when it was the arm command on a ready vehicle, or the vehicle was armed and
  the operation is neither disarming nor aborting. In particular an armed vehicle stays
  armed when the verdict turns to no-go.
\<close>

theorem armed_only_by_guarded_command:
  "armed (fst (telemetry_step op t)) \<longleftrightarrow>
     (op = Arm \<and> ready_to_fly t) \<or> (armed t \<and> op \<noteq> Disarm \<and> op \<noteq> Abort)"
  by (cases op) (simp_all add: telemetry_setters telemetry_commands armed_sim Let_def)

text \<open>
  Simulated jamming always grounds: a tick under it leaves the vehicle not ready, with
  encryption and hopping off, spoofing reported and all four signals sent, whatever the
  state before.
\<close>

theorem jamming_tick_grounds:
  assumes "simulated_jamming t"
  shows "\<not> ready_to_fly (fst (update_simulation env t)) \<and>
         security_view (fst (update_simulation env t)) =
           (False, False, fhss_channel (fst (update_simulation env t))) \<and>
         rf_view (fst (update_simulation env t)) = (rnd_jamming env, ''SPOOFING'') \<and>
         set (snd (update_simulation env t)) =
           {RfHealthChanged, SecurityChanged, TelemetryChanged, DiagnosticsChanged}"
proof -
  have keep: "simulated_jamming (sim_flying env u) = simulated_jamming u"
    "simulated_jamming (sim_grounded env u) = simulated_jamming u" for u
    by (simp_all add: sim_flying_def sim_grounded_def Let_def)
  show ?thesis
    using assms by (auto simp: update_simulation_def keep ready_to_fly_def security_view_def rf_view_def Let_def)
qed

theorem jamming_tick_grounds_witness:
  "\<not> ready_to_fly (fst (update_simulation
      \<lparr>env_sin = \<lambda>x. x, env_cos = \<lambda>x. x, rnd_hop = 5, rnd_channel = 3, rnd_jamming = 220, rnd_sats = 2, rnd_noise = 20\<rparr>
      (fst (toggle_jamming_simulation new_telemetry))))"
  using jamming_tick_grounds
    [of "fst (toggle_jamming_simulation new_telemetry)"
        "\<lparr>env_sin = \<lambda>x. x, env_cos = \<lambda>x. x, rnd_hop = 5, rnd_channel = 3, rnd_jamming = 220, rnd_sats = 2, rnd_noise = 20\<rparr>"]
  by (simp add: toggle_jamming_simulation_def Let_def) (simp add: new_telemetry_def)

text \<open>
  The end of jamming is not notified: a tick without simulated jamming sets the
  interference to background noise and the spoofing state to none but never emits
  \<open>rfHealthChanged\<close>, so a display that follows the notification keeps showing SPOOFING.
\<close>

theorem jamming_recovery_is_not_notified:
  assumes "\<not> simulated_jamming t"
  shows "rf_view (fst (update_simulation env t)) = (rnd_noise env, ''NO_SPOOFING'') \<and>
         RfHealthChanged \<notin> set (snd (update_simulation env t))"
proof -
  have keep: "simulated_jamming (sim_flying env u) = simulated_jamming u"
    "simulated_jamming (sim_grounded env u) = simulated_jamming u" for u
    by (simp_all add: sim_flying_def sim_grounded_def Let_def)
  show ?thesis using assms by (auto simp: update_simulation_def keep rf_view_def Let_def)
qed

theorem jamming_recovery_is_not_notified_witness:
  "RfHealthChanged \<notin> set (snd (update_simulation
      \<lparr>env_sin = \<lambda>x. x, env_cos = \<lambda>x. x, rnd_hop = 5, rnd_channel = 3, rnd_jamming = 220, rnd_sats = 2, rnd_noise = 20\<rparr>
      new_telemetry))"
  using jamming_recovery_is_not_notified
    [of new_telemetry
        "\<lparr>env_sin = \<lambda>x. x, env_cos = \<lambda>x. x, rnd_hop = 5, rnd_channel = 3, rnd_jamming = 220, rnd_sats = 2, rnd_noise = 20\<rparr>"]
  by (simp add: new_telemetry_def)

section \<open>Battery\<close>

text \<open>
  The simulation keeps the battery within its range: after a tick it is not below zero if
  the vehicle was flying, and not above one if it was on the ground and below one before,
  and a full battery on the ground is left as it is.
\<close>

theorem tick_keeps_battery_in_range:
  "if armed t then \<not> dbl_less (battery_remaining (fst (update_simulation env t))) (dlit 0 1)
   else if dbl_less (battery_remaining t) (dlit 1 1)
   then \<not> dbl_less (dlit 1 1) (battery_remaining (fst (update_simulation env t)))
   else battery_remaining (fst (update_simulation env t)) = battery_remaining t"
  by (auto simp: update_simulation_def sim_flying_def sim_grounded_def Let_def qMax_ge qMin_le split: prod.splits)

end
