(* ===== verification/Dbl_Bounds.thy ===== *)
theory Dbl_Bounds
  imports Dbl_Round
begin

text \<open>
  What nearest rounding gives a computation: products and quotients of finite numbers are
  rounded to nearest, a representable result is exact, rounding keeps representable bounds,
  its error is at most half a unit in the last place, and scaling by a power of two is exact.
\<close>

text \<open>Evaluates the value of a concrete bit pattern.\<close>

lemmas dbl_fields = dbl_real_def dbl_decode_def dbl_finite_def dbl_exponent_def dbl_fraction_def dbl_sign_def Let_def

section \<open>Products and quotients\<close>

theorem dbl_mul_nearest:
  assumes "dbl_finite a" "dbl_finite b" and "\<bar>dbl_real a * dbl_real b\<bar> < overflow_threshold"
  shows "dbl_nearest (dbl_mul a b) (dbl_real a * dbl_real b)"
proof -
  obtain n d m e where dec: "dbl_decode a = Finite (dbl_sign a) n d" "dbl_decode b = Finite (dbl_sign b) m e"
    using decode_fraction [OF assms(1)] decode_fraction [OF assms(2)] by blast
  have pos: "0 < d" "0 < e" and vals: "dbl_real a = (if dbl_sign a then - 1 else 1) * (real n / real d)"
    "dbl_real b = (if dbl_sign b then - 1 else 1) * (real m / real e)"
    using dbl_real_decode [OF dec(1)] dbl_real_decode [OF dec(2)] by simp_all
  have val: "(if dbl_sign a \<noteq> dbl_sign b then - 1 else 1) * (real (n * m) / real (d * e)) = dbl_real a * dbl_real b"
    unfolding vals by simp
  have mag: "real (n * m) / real (d * e) = \<bar>dbl_real a * dbl_real b\<bar>"
    unfolding vals by (simp add: abs_mult)
  have prod: "dbl_mul a b =
      (if n * m = 0 then dbl_zero (dbl_sign a \<noteq> dbl_sign b) else dbl_pack (dbl_sign a \<noteq> dbl_sign b) (n * m) (d * e))"
    by (simp add: dbl_mul_def dec)
  show ?thesis
  proof (cases "n * m = 0")
    case True
    then have zero: "dbl_real a * dbl_real b = 0" using mag by auto
    show ?thesis unfolding zero prod using True dbl_zero_nearest by simp
  next
    case False
    then have eq: "dbl_mul a b = dbl_pack (dbl_sign a \<noteq> dbl_sign b) (n * m) (d * e)" unfolding prod by simp
    have small: "real (n * m) / real (d * e) < overflow_threshold" unfolding mag by (rule assms(3))
    have "0 < d * e" using pos by simp
    from dbl_pack_nearest [OF this small, of "dbl_sign a \<noteq> dbl_sign b"] show ?thesis unfolding eq val .
  qed
qed

theorem dbl_div_nearest:
  assumes "dbl_finite a" "dbl_finite b" and "dbl_real b \<noteq> 0" and "\<bar>dbl_real a / dbl_real b\<bar> < overflow_threshold"
  shows "dbl_nearest (dbl_div a b) (dbl_real a / dbl_real b)"
proof -
  obtain n d m e where dec: "dbl_decode a = Finite (dbl_sign a) n d" "dbl_decode b = Finite (dbl_sign b) m e"
    using decode_fraction [OF assms(1)] decode_fraction [OF assms(2)] by blast
  have pos: "0 < d" "0 < e" and vals: "dbl_real a = (if dbl_sign a then - 1 else 1) * (real n / real d)"
    "dbl_real b = (if dbl_sign b then - 1 else 1) * (real m / real e)"
    using dbl_real_decode [OF dec(1)] dbl_real_decode [OF dec(2)] by simp_all
  have m: "m \<noteq> 0" using assms(3) unfolding vals(2) by auto
  have val: "(if dbl_sign a \<noteq> dbl_sign b then - 1 else 1) * (real (n * e) / real (d * m)) = dbl_real a / dbl_real b"
    unfolding vals by simp
  have mag: "real (n * e) / real (d * m) = \<bar>dbl_real a / dbl_real b\<bar>"
    unfolding vals by (simp add: abs_mult)
  have quot: "dbl_div a b =
      (if n = 0 then dbl_zero (dbl_sign a \<noteq> dbl_sign b) else dbl_pack (dbl_sign a \<noteq> dbl_sign b) (n * e) (d * m))"
    using m by (simp add: dbl_div_def dec)
  show ?thesis
  proof (cases "n = 0")
    case True
    then have zero: "dbl_real a / dbl_real b = 0" using mag by simp
    show ?thesis unfolding zero quot using True dbl_zero_nearest by simp
  next
    case False
    then have eq: "dbl_div a b = dbl_pack (dbl_sign a \<noteq> dbl_sign b) (n * e) (d * m)" unfolding quot by simp
    have small: "real (n * e) / real (d * m) < overflow_threshold" unfolding mag by (rule assms(4))
    have "0 < d * m" using pos m by simp
    from dbl_pack_nearest [OF this small, of "dbl_sign a \<noteq> dbl_sign b"] show ?thesis unfolding eq val .
  qed
qed

section \<open>Exact and bounded results\<close>

lemma nearest_exact: "dbl_nearest b x \<Longrightarrow> dbl_finite c \<Longrightarrow> dbl_real c = x \<Longrightarrow> dbl_real b = x"
  unfolding dbl_nearest_def by force

lemma nearest_le:
  assumes "dbl_nearest b x" "dbl_finite c" "x \<le> dbl_real c"
  shows "dbl_real b \<le> dbl_real c"
proof -
  have "\<bar>dbl_real b - x\<bar> \<le> \<bar>dbl_real c - x\<bar>" using assms unfolding dbl_nearest_def by blast
  with assms(3) show ?thesis by linarith
qed

lemma nearest_ge:
  assumes "dbl_nearest b x" "dbl_finite c" "dbl_real c \<le> x"
  shows "dbl_real c \<le> dbl_real b"
proof -
  have "\<bar>dbl_real b - x\<bar> \<le> \<bar>dbl_real c - x\<bar>" using assms unfolding dbl_nearest_def by blast
  with assms(3) show ?thesis by linarith
qed

lemma nearest_finite: "dbl_nearest b x \<Longrightarrow> dbl_finite b"
  by (simp add: dbl_nearest_def)

lemma round_exp_less:
  assumes "0 < n" "0 < d" "real n / real d < pow2 k" "- 1022 < k"
  shows "round_exp n d < k"
proof -
  have "pow2 (floor_log_frac 2 n d) < pow2 k"
    using floor_log_frac_bounds(1) [OF assms(1,2)] assms(3) by linarith
  then have "floor_log_frac 2 n d < k" by (meson linorder_not_less pow2_mono)
  with assms(4) show ?thesis by (simp add: round_exp_def)
qed

text \<open>The error of rounding a rational below \<open>2 ^ k\<close>.\<close>

lemma nearest_error:
  assumes "dbl_nearest b ((if s then - 1 else 1) * (real n / real d))" and "0 < d"
    and "real n / real d < pow2 k" and "- 1022 < k" "k \<le> 1023"
  shows "\<bar>dbl_real b - (if s then - 1 else 1) * (real n / real d)\<bar> \<le> pow2 (k - 54)"
proof (cases "n = 0")
  case True
  have zero: "dbl_finite 0" "dbl_real 0 = 0"
    by (simp_all add: dbl_finite_def dbl_real_def dbl_decode_def dbl_exponent_def dbl_fraction_def Let_def)
  have "dbl_real b = 0" using nearest_exact [OF assms(1) zero(1)] zero(2) True by simp
  then show ?thesis using True by simp
next
  case False
  then have n: "0 < n" by simp
  have e: "round_exp n d \<le> k - 1" using round_exp_less [OF n assms(2,3,4)] by simp
  have "pow2 (round_exp n d - 52) / 2 = pow2 (round_exp n d - 53)"
    using pow2_add [of "round_exp n d - 53" 1] by simp
  also have "\<dots> \<le> pow2 (k - 54)" by (rule pow2_mono) (use e in simp)
  finally have half: "pow2 (round_exp n d - 52) / 2 \<le> pow2 (k - 54)" .
  have "\<not> 2047 * 2 ^ 52 \<le> round_bits n d"
    unfolding round_bits_overflow_exp [OF n assms(2)] using e assms(5) by simp
  then have bits: "round_bits n d < 2047 * 2 ^ 52" by simp
  define c where "c = (if s then dbl_neg (of_nat (round_bits n d)) else of_nat (round_bits n d))"
  note v = round_bits_value [OF n assms(2) bits]
  have c: "dbl_finite c" "dbl_real c = (if s then - 1 else 1) * (real (round_sig n d) * pow2 (round_exp n d - 52))"
    using v(1,3) dbl_neg_real [OF v(1)] by (simp_all add: c_def)
  have "\<bar>dbl_real c - (if s then - 1 else 1) * (real n / real d)\<bar> =
      \<bar>real n / real d - real (round_sig n d) * pow2 (round_exp n d - 52)\<bar>"
    unfolding c(2) by (cases s) (simp_all add: abs_minus_commute)
  also have "\<dots> \<le> pow2 (k - 54)" using round_sig_near(1) [OF assms(2), of n] half by linarith
  finally show ?thesis
    using assms(1) c(1) unfolding dbl_nearest_def by (meson order_trans)
qed

lemma dbl_real_rational:
  assumes "dbl_finite b"
  shows "\<exists>v d. 0 < d \<and> dbl_real b = of_int v / real d"
proof -
  obtain n d where "dbl_decode b = Finite (dbl_sign b) n d" using decode_fraction [OF assms] by blast
  then have "0 < d" "dbl_real b = of_int (with_sign (dbl_sign b) n) / real d"
    using dbl_real_decode [of b "dbl_sign b" n d] by (simp_all add: with_sign_def)
  then show ?thesis by blast
qed

lemma nearest_error_rational:
  assumes "dbl_nearest b x" and "x = of_int v / real d" "0 < d"
    and "\<bar>x\<bar> < pow2 k" and "- 1022 < k" "k \<le> 1023"
  shows "\<bar>dbl_real b - x\<bar> \<le> pow2 (k - 54)"
proof -
  have x: "(if v < 0 then - 1 else 1) * (real (nat \<bar>v\<bar>) / real d) = x" and mag: "real (nat \<bar>v\<bar>) / real d = \<bar>x\<bar>"
    unfolding assms(2) by simp_all
  show ?thesis
    using nearest_error [of b "v < 0" "nat \<bar>v\<bar>" d k] assms(1,3-6) unfolding x unfolding mag by blast
qed

section \<open>Scaling\<close>

lemma dbl_double:
  assumes "dbl_finite q" "\<not> dbl_sign q" "dbl_exponent q < 2046"
  obtains c where "dbl_finite c" "\<not> dbl_sign c" "dbl_exponent c \<le> Suc (dbl_exponent q)"
    "dbl_real c = 2 * dbl_real q"
proof -
  define x f where "x = (if dbl_exponent q = 0 \<and> dbl_fraction q < 2 ^ 51 then 0 else Suc (dbl_exponent q))"
    and "f = (if dbl_exponent q = 0 then (if dbl_fraction q < 2 ^ 51 then 2 * dbl_fraction q else 2 * dbl_fraction q - 2 ^ 52)
              else dbl_fraction q)"
  have frac: "dbl_fraction q < 2 ^ 52" unfolding dbl_fraction_def by (rule mod_less_divisor) simp
  have xf: "x < 2047" "f < 2 ^ 52" using assms(3) frac by (auto simp: x_def f_def)
  have val: "dbl_real q = real (significand q) * pow2 (int (scale q) - 1075)"
    unfolding dbl_real_finite [OF assms(1)] using assms(2) by simp
  have step: "pow2 (int (Suc k) - 1075) = 2 * pow2 (int k - 1075)" for k
    using pow2_add [of "int k - 1075" 1] by (simp add: algebra_simps)
  have "dbl_real (of_nat (x * 2 ^ 52 + f)) = 2 * dbl_real q"
  proof (cases "dbl_exponent q = 0")
    case True
    then show ?thesis
      unfolding pattern_value(2) [OF xf] val significand_def scale_def
      by (auto simp: x_def f_def of_nat_diff)
  next
    case False
    then have "max x 1 = Suc (dbl_exponent q)" "max (dbl_exponent q) 1 = dbl_exponent q" by (simp_all add: x_def)
    then show ?thesis
      unfolding pattern_value(2) [OF xf] val significand_def scale_def
      using False step [of "dbl_exponent q"] by (simp add: x_def f_def)
  qed
  then show ?thesis
    using that [of "of_nat (x * 2 ^ 52 + f)"] pattern_value(1) [OF xf] pattern_fields [OF xf]
    by (simp add: x_def del: of_nat_add of_nat_mult)
qed

lemma dbl_scale:
  assumes "dbl_finite q" "\<not> dbl_sign q" "dbl_exponent q + k < 2047"
  obtains c where "dbl_finite c" "\<not> dbl_sign c" "dbl_exponent c \<le> dbl_exponent q + k"
    "dbl_real c = 2 ^ k * dbl_real q"
  using assms(3)
proof (induction k arbitrary: thesis)
  case 0
  then show ?case using assms(1,2) by simp
next
  case (Suc k)
  obtain c where c: "dbl_finite c" "\<not> dbl_sign c" "dbl_exponent c \<le> dbl_exponent q + k" "dbl_real c = 2 ^ k * dbl_real q"
    using Suc.IH Suc.prems(2) by auto
  have "dbl_exponent c < 2046" using c(3) Suc.prems(2) by simp
  from dbl_double [OF c(1,2) this] obtain e where
    "dbl_finite e" "\<not> dbl_sign e" "dbl_exponent e \<le> Suc (dbl_exponent c)" "dbl_real e = 2 * dbl_real c"
    by blast
  then show ?case using Suc.prems(1) [of e] c(3,4) by simp
qed

end
