(* ===== verification/Dbl_Range.thy ===== *)
theory Dbl_Range
  imports Dbl_Bounds
begin

text \<open>
  Ranges of computed \<open>double\<close> values: comparison is comparison of the real values, rounding is
  monotone, and a sum, difference or product whose exact value lies between two
  representable numbers is finite and stays between them.
\<close>

section \<open>Distances\<close>

lemma abs_le_trans: "\<bar>a - b\<bar> \<le> e \<Longrightarrow> \<bar>b - c\<bar> \<le> e' \<Longrightarrow> \<bar>a - c\<bar> \<le> e + e'" for a b c :: real
  by linarith

lemma abs_near: "\<bar>a - b\<bar> \<le> e \<Longrightarrow> \<bar>b\<bar> \<le> c \<Longrightarrow> \<bar>a\<bar> \<le> c + e" for a b :: real
  by linarith

lemma abs_add: "\<bar>a\<bar> \<le> e \<Longrightarrow> \<bar>b\<bar> \<le> e' \<Longrightarrow> \<bar>a + b\<bar> \<le> e + e'" for a b :: real
  by linarith

section \<open>Comparison\<close>

lemma dbl_less_real:
  assumes "dbl_finite a" "dbl_finite b"
  shows "dbl_less a b \<longleftrightarrow> dbl_real a < dbl_real b"
proof -
  obtain n d where a: "dbl_decode a = Finite (dbl_sign a) n d" "0 < d" using decode_fraction [OF assms(1)] by blast
  obtain m e where b: "dbl_decode b = Finite (dbl_sign b) m e" "0 < e" using decode_fraction [OF assms(2)] by blast
  have real: "dbl_real a = of_int (with_sign (dbl_sign a) n) / real d" "dbl_real b = of_int (with_sign (dbl_sign b) m) / real e"
    using a b by (simp_all add: dbl_real_def with_sign_def)
  have "dbl_less a b \<longleftrightarrow> with_sign (dbl_sign a) n * int e < with_sign (dbl_sign b) m * int d"
    by (simp add: dbl_less_def a(1) b(1))
  also have "\<dots> \<longleftrightarrow> real_of_int (with_sign (dbl_sign a) n * int e) < real_of_int (with_sign (dbl_sign b) m * int d)"
    by (simp only: of_int_less_iff)
  also have "\<dots> \<longleftrightarrow> dbl_real a < dbl_real b"
    using a(2) b(2) unfolding real by (simp add: field_simps)
  finally show ?thesis .
qed

lemma nearest_mono:
  assumes "dbl_nearest b x" "dbl_nearest c y" "x < y"
  shows "dbl_real b \<le> dbl_real c"
proof (rule ccontr)
  assume "\<not> dbl_real b \<le> dbl_real c"
  moreover have "\<bar>dbl_real b - x\<bar> \<le> \<bar>dbl_real c - x\<bar>" "\<bar>dbl_real c - y\<bar> \<le> \<bar>dbl_real b - y\<bar>"
    using assms by (auto simp: dbl_nearest_def)
  ultimately show False using assms(3) by linarith
qed

section \<open>Ranges\<close>

definition dbl_within :: "real \<Rightarrow> real \<Rightarrow> double \<Rightarrow> bool" where
  "dbl_within a b x \<longleftrightarrow> dbl_finite x \<and> a \<le> dbl_real x \<and> dbl_real x \<le> b"

lemma dbl_within_mono: "dbl_within a b x \<Longrightarrow> a' \<le> a \<Longrightarrow> b \<le> b' \<Longrightarrow> dbl_within a' b' x"
  by (auto simp: dbl_within_def)

text \<open>A representable real number.\<close>

definition is_dbl :: "real \<Rightarrow> bool" where
  "is_dbl r \<longleftrightarrow> (\<exists>c. dbl_finite c \<and> dbl_real c = r)"

lemma is_dblI: "dbl_finite c \<Longrightarrow> dbl_real c = r \<Longrightarrow> is_dbl r"
  by (auto simp: is_dbl_def)

lemma is_dbl_self [simp]: "dbl_finite c \<Longrightarrow> is_dbl (dbl_real c)"
  by (auto simp: is_dbl_def)

lemma is_dbl_minus: "is_dbl r \<Longrightarrow> is_dbl (- r)"
  unfolding is_dbl_def by (metis dbl_neg_finite dbl_neg_real)

lemma is_dbl_zero [simp]: "is_dbl 0"
  by (rule is_dblI [of 0]) (simp_all add: dbl_fields)

lemma within_bounds_threshold:
  assumes "is_dbl lo" "is_dbl hi" "lo \<le> x" "x \<le> hi"
  shows "\<bar>x\<bar> < overflow_threshold"
proof -
  have "\<bar>lo\<bar> < overflow_threshold" "\<bar>hi\<bar> < overflow_threshold"
    using assms(1,2) dbl_finite_below_threshold by (auto simp: is_dbl_def)
  with assms(3,4) show ?thesis by linarith
qed

lemma nearest_within:
  assumes "dbl_nearest b x" "is_dbl lo" "is_dbl hi" "lo \<le> x" "x \<le> hi"
  shows "dbl_within lo hi b"
  using assms nearest_ge [OF assms(1)] nearest_le [OF assms(1)] nearest_finite [OF assms(1)]
  by (auto simp: dbl_within_def is_dbl_def)

lemma add_within:
  assumes "dbl_finite a" "dbl_finite b" "is_dbl lo" "is_dbl hi"
    and "lo \<le> dbl_real a + dbl_real b" "dbl_real a + dbl_real b \<le> hi"
  shows "dbl_within lo hi (dbl_add a b)"
  using dbl_add_nearest [OF assms(1,2) within_bounds_threshold [OF assms(3-6)]] assms(3-6)
  by (rule nearest_within)

lemma mul_within:
  assumes "dbl_finite a" "dbl_finite b" "is_dbl lo" "is_dbl hi"
    and "lo \<le> dbl_real a * dbl_real b" "dbl_real a * dbl_real b \<le> hi"
  shows "dbl_within lo hi (dbl_mul a b)"
  using dbl_mul_nearest [OF assms(1,2) within_bounds_threshold [OF assms(3-6)]] assms(3-6)
  by (rule nearest_within)

lemma dbl_sub_add: "dbl_finite a \<Longrightarrow> dbl_finite b \<Longrightarrow> dbl_sub a b = dbl_add a (dbl_neg b)"
  using decode_fraction [of a] decode_fraction [of b] by (auto simp: dbl_sub_def)

lemma dbl_sub_nearest:
  assumes "dbl_finite a" "dbl_finite b" and "\<bar>dbl_real a - dbl_real b\<bar> < overflow_threshold"
  shows "dbl_nearest (dbl_sub a b) (dbl_real a - dbl_real b)"
  using dbl_add_nearest [of a "dbl_neg b"] assms by (simp add: dbl_sub_add dbl_neg_real)

lemma sub_within:
  assumes "dbl_finite a" "dbl_finite b" "is_dbl lo" "is_dbl hi"
    and "lo \<le> dbl_real a - dbl_real b" "dbl_real a - dbl_real b \<le> hi"
  shows "dbl_within lo hi (dbl_sub a b)"
  using add_within [of a "dbl_neg b" lo hi] assms by (simp add: dbl_sub_add dbl_neg_real)

text \<open>The error of an operation, in the binade of its exact value.\<close>

lemma add_error:
  assumes "dbl_finite a" "dbl_finite b" "\<bar>dbl_real a + dbl_real b\<bar> < overflow_threshold"
    and "\<bar>dbl_real a + dbl_real b\<bar> < pow2 k" "- 1022 < k" "k \<le> 1023"
  shows "\<bar>dbl_real (dbl_add a b) - (dbl_real a + dbl_real b)\<bar> \<le> pow2 (k - 54)"
proof -
  obtain v d where a: "0 < d" "dbl_real a = of_int v / real d" using dbl_real_rational [OF assms(1)] by blast
  obtain w e where b: "0 < e" "dbl_real b = of_int w / real e" using dbl_real_rational [OF assms(2)] by blast
  have "dbl_real a + dbl_real b = of_int (v * int e + w * int d) / real (d * e)"
    using a(1) b(1) unfolding a(2) b(2) by (simp add: add_frac_eq)
  moreover have "0 < d * e" using a b by simp
  ultimately show ?thesis using dbl_add_nearest [OF assms(1-3)] assms(4-6) nearest_error_rational by blast
qed

lemma mul_error:
  assumes "dbl_finite a" "dbl_finite b" "\<bar>dbl_real a * dbl_real b\<bar> < overflow_threshold"
    and "\<bar>dbl_real a * dbl_real b\<bar> < pow2 k" "- 1022 < k" "k \<le> 1023"
  shows "\<bar>dbl_real (dbl_mul a b) - dbl_real a * dbl_real b\<bar> \<le> pow2 (k - 54)"
proof -
  obtain v d where a: "0 < d" "dbl_real a = of_int v / real d" using dbl_real_rational [OF assms(1)] by blast
  obtain w e where b: "0 < e" "dbl_real b = of_int w / real e" using dbl_real_rational [OF assms(2)] by blast
  have "dbl_real a * dbl_real b = of_int (v * w) / real (d * e)" unfolding a(2) b(2) by simp
  moreover have "0 < d * e" using a b by simp
  ultimately show ?thesis using dbl_mul_nearest [OF assms(1-3)] assms(4-6) nearest_error_rational by blast
qed

lemma sub_error:
  assumes "dbl_finite a" "dbl_finite b" "\<bar>dbl_real a - dbl_real b\<bar> < overflow_threshold"
    and "\<bar>dbl_real a - dbl_real b\<bar> < pow2 k" "- 1022 < k" "k \<le> 1023"
  shows "\<bar>dbl_real (dbl_sub a b) - (dbl_real a - dbl_real b)\<bar> \<le> pow2 (k - 54)"
proof -
  obtain v d where a: "0 < d" "dbl_real a = of_int v / real d" using dbl_real_rational [OF assms(1)] by blast
  obtain w e where b: "0 < e" "dbl_real b = of_int w / real e" using dbl_real_rational [OF assms(2)] by blast
  have "dbl_real a - dbl_real b = of_int (v * int e - w * int d) / real (d * e)"
    using a(1) b(1) unfolding a(2) b(2) by (simp add: diff_frac_eq)
  moreover have "0 < d * e" using a b by simp
  ultimately show ?thesis using dbl_sub_nearest [OF assms(1-3)] assms(4-6) nearest_error_rational by blast
qed

text \<open>Rounding moves a number no further than any representable number is away.\<close>

lemma nearest_off: "dbl_nearest b x \<Longrightarrow> is_dbl r \<Longrightarrow> \<bar>dbl_real b - x\<bar> \<le> \<bar>r - x\<bar>"
  unfolding dbl_nearest_def is_dbl_def by blast

lemma qMin_within:
  assumes "dbl_within a b x" "dbl_within a' b' y"
  shows "dbl_within (min a a') (min b b') (qMin x y)" and "dbl_real (qMin x y) = min (dbl_real x) (dbl_real y)"
  using assms by (auto simp: qMin_def dbl_within_def dbl_less_real)

lemma qMax_within:
  assumes "dbl_within a b x" "dbl_within a' b' y"
  shows "dbl_within (max a a') (max b b') (qMax x y)" and "dbl_real (qMax x y) = max (dbl_real x) (dbl_real y)"
  using assms by (auto simp: qMax_def dbl_within_def dbl_less_real)

lemma positive_sign: "dbl_finite a \<Longrightarrow> 0 < dbl_real a \<Longrightarrow> \<not> dbl_sign a"
proof
  assume "dbl_finite a" "0 < dbl_real a" "dbl_sign a"
  moreover have "0 \<le> real (significand a) * pow2 (int (scale a) - 1075)" by simp
  ultimately show False by (simp add: dbl_real_finite)
qed

text \<open>The remainder of a positive number below twice the divisor.\<close>

lemma fmod_near:
  assumes "dbl_finite a" "dbl_finite b" "0 < dbl_real a" "0 < dbl_real b"
  shows "dbl_real a < dbl_real b \<Longrightarrow> dbl_within 0 (dbl_real a) (dbl_fmod a b)"
    and "dbl_real b \<le> dbl_real a \<Longrightarrow> dbl_real a < 2 * dbl_real b \<Longrightarrow> is_dbl hi \<Longrightarrow> dbl_real a - dbl_real b \<le> hi \<Longrightarrow>
      dbl_within 0 hi (dbl_fmod a b)"
proof -
  obtain n d where a: "dbl_decode a = Finite (dbl_sign a) n d" "0 < d" using decode_fraction [OF assms(1)] by blast
  obtain m e where b: "dbl_decode b = Finite (dbl_sign b) m e" "0 < e" using decode_fraction [OF assms(2)] by blast
  note sign = positive_sign [OF assms(1,3)]
  have ra: "dbl_real a = real n / real d" using sign a by (simp add: dbl_real_def)
  have rb: "\<not> dbl_sign b" "dbl_real b = real m / real e"
    using b assms(4) by (auto simp: dbl_real_def divide_less_0_iff split: if_splits)
  have m: "0 < m" using rb assms(4) b(2) by (cases m) auto
  define r where "r = (n * e) mod (m * d)"
  have fm: "dbl_fmod a b = (if r = 0 then dbl_zero False else dbl_pack False r (d * e))"
    using a b m sign by (simp add: dbl_fmod_def r_def Let_def)
  have near: "dbl_nearest (dbl_fmod a b) (real r / real (d * e))" if "real r / real (d * e) < overflow_threshold"
    using dbl_pack_nearest [of "d * e" r False] dbl_zero_nearest [of False] a(2) b(2) that by (simp add: fm)
  show "dbl_within 0 (dbl_real a) (dbl_fmod a b)" if "dbl_real a < dbl_real b"
  proof -
    have "real (n * e) < real (m * d)" using that a(2) b(2) by (simp add: ra rb field_simps)
    then have "r = n * e" unfolding of_nat_less_iff by (simp add: r_def)
    then have "real r / real (d * e) = dbl_real a" using b(2) by (simp add: ra)
    moreover have "\<bar>dbl_real a\<bar> < overflow_threshold" by (rule dbl_finite_below_threshold [OF assms(1)])
    ultimately have "dbl_nearest (dbl_fmod a b) (dbl_real a)" using near by simp
    from nearest_within [OF this is_dbl_zero is_dbl_self [OF assms(1)] less_imp_le [OF assms(3)] order_refl]
    show ?thesis .
  qed
  show "dbl_within 0 hi (dbl_fmod a b)"
    if "dbl_real b \<le> dbl_real a" "dbl_real a < 2 * dbl_real b" "is_dbl hi" "dbl_real a - dbl_real b \<le> hi"
  proof -
    have "real (m * d) \<le> real (n * e)" "real (n * e) < real (2 * (m * d))"
      using that(1,2) a(2) b(2) by (simp_all add: ra rb field_simps)
    then have le: "m * d \<le> n * e" and lt: "n * e < 2 * (m * d)" unfolding of_nat_le_iff of_nat_less_iff by simp_all
    then have "r = n * e - m * d" unfolding r_def by (simp add: mod_if)
    then have "real r = real (n * e) - real (m * d)" using le by (simp add: of_nat_diff)
    then have diff: "real r / real (d * e) = dbl_real a - dbl_real b" using a(2) b(2) by (simp add: ra rb field_simps)
    have "0 \<le> dbl_real a - dbl_real b" using that(1) by simp
    then have "\<bar>dbl_real a - dbl_real b\<bar> < overflow_threshold"
      using within_bounds_threshold [of 0 hi "dbl_real a - dbl_real b"] that(3,4) by simp
    then have "dbl_nearest (dbl_fmod a b) (dbl_real a - dbl_real b)" using near diff by simp
    then show ?thesis using that(1,3,4) by (intro nearest_within) simp_all
  qed
qed

end
