(* ===== verification/Telemetry_Envelope.thy ===== *)
theory Telemetry_Envelope
  imports Telemetry Dbl_Range
begin

text \<open>
  What the simulation of src/frontend/qt-desktop-gcs/src/TelemetryController.cpp keeps to, in
  \<open>double\<close> arithmetic: the range of every displayed number under any sequence of operations,
  how a flight drains the battery and how the climb settles. Sine and cosine need only lie
  between -1 and 1.
\<close>

section \<open>Literals\<close>

lemma telemetry_literals:
  "dlit 0 1 = 0x0000000000000000"
  "dlit 1 1 = 0x3FF0000000000000"
  "dlit 2 1 = 0x4000000000000000"
  "dlit 3 1 = 0x4008000000000000"
  "dlit 4 1 = 0x4010000000000000"
  "dlit 8 1 = 0x4020000000000000"
  "dlit 9 1 = 0x4022000000000000"
  "dlit 12 1 = 0x4028000000000000"
  "dlit 14 1 = 0x402C000000000000"
  "dlit 15 1 = 0x402E000000000000"
  "dlit 250 1 = 0x406F400000000000"
  "dlit 265 1 = 0x4070900000000000"
  "dlit 360 1 = 0x4076800000000000"
  "dlit 5 10 = 0x3FE0000000000000"
  "dlit 105 10 = 0x4025000000000000"
  "dlit 125 10 = 0x4029000000000000"
  "dlit 145 10 = 0x402D000000000000"
  "dlit 5 100 = 0x3FA999999999999A"
  "dlit 2 10 = 0x3FC999999999999A"
  "dlit 2 10000 = 0x3F2A36E2EB1C432D"
  "dlit 28 10 = 0x4006666666666666"
  "dlit 168 10 = 0x4030CCCCCCCCCCCD"
  "dlit 1 1000 = 0x3F50624DD2F1A9FC"
  "dlit 1 10 = 0x3FB999999999999A"
  "dlit 154 10 = 0x402ECCCCCCCCCCCD"
  "dlit 2 100000 = 0x3EF4F8B588E368F1"
  "dlit 9007199254740992 1 = 0x4340000000000000"
  by (simp_all add: dlit_def dbl_pack_def round_dbl_def floor_log_frac_def floor_log_nat.simps
      div_half_even_def Let_def)

lemma literal_values:
  "dbl_finite (dlit 0 1)" "dbl_real (dlit 0 1) = 0"
  "dbl_finite (dlit 1 1)" "dbl_real (dlit 1 1) = 1"
  "dbl_finite (dlit 2 1)" "dbl_real (dlit 2 1) = 2"
  "dbl_finite (dlit 3 1)" "dbl_real (dlit 3 1) = 3"
  "dbl_finite (dlit 4 1)" "dbl_real (dlit 4 1) = 4"
  "dbl_finite (dlit 8 1)" "dbl_real (dlit 8 1) = 8"
  "dbl_finite (dlit 9 1)" "dbl_real (dlit 9 1) = 9"
  "dbl_finite (dlit 12 1)" "dbl_real (dlit 12 1) = 12"
  "dbl_finite (dlit 14 1)" "dbl_real (dlit 14 1) = 14"
  "dbl_finite (dlit 15 1)" "dbl_real (dlit 15 1) = 15"
  "dbl_finite (dlit 250 1)" "dbl_real (dlit 250 1) = 250"
  "dbl_finite (dlit 265 1)" "dbl_real (dlit 265 1) = 265"
  "dbl_finite (dlit 360 1)" "dbl_real (dlit 360 1) = 360"
  "dbl_finite (dlit 5 10)" "dbl_real (dlit 5 10) = 1 / 2"
  "dbl_finite (dlit 105 10)" "dbl_real (dlit 105 10) = 21 / 2"
  "dbl_finite (dlit 125 10)" "dbl_real (dlit 125 10) = 25 / 2"
  "dbl_finite (dlit 145 10)" "dbl_real (dlit 145 10) = 29 / 2"
  "dbl_finite (dlit 5 100)" "dbl_real (dlit 5 100) = 3602879701896397 / 72057594037927936"
  "dbl_finite (dlit 2 10)" "dbl_real (dlit 2 10) = 3602879701896397 / 18014398509481984"
  "dbl_finite (dlit 2 10000)" "dbl_real (dlit 2 10000) = 7378697629483821 / 36893488147419103232"
  "dbl_finite (dlit 28 10)" "dbl_real (dlit 28 10) = 3152519739159347 / 1125899906842624"
  "dbl_finite (dlit 168 10)" "dbl_real (dlit 168 10) = 4728779608739021 / 281474976710656"
  "dbl_finite (dlit 1 1000)" "dbl_real (dlit 1 1000) = 1152921504606847 / 1152921504606846976"
  "dbl_finite (dlit 1 10)" "dbl_real (dlit 1 10) = 3602879701896397 / 36028797018963968"
  "dbl_finite (dlit 154 10)" "dbl_real (dlit 154 10) = 8669429282688205 / 562949953421312"
  "dbl_finite (dlit 2 100000)" "dbl_real (dlit 2 100000) = 5902958103587057 / 295147905179352825856"
  "dbl_finite (dlit 9007199254740992 1)" "dbl_real (dlit 9007199254740992 1) = 9007199254740992"
  unfolding telemetry_literals by (simp_all add: dbl_fields)

lemmas literal_values_simps [simp] = literal_values literal_values [unfolded One_nat_def]

lemma is_dbl_neg [simp]: "is_dbl (- r) \<longleftrightarrow> is_dbl r"
  using is_dbl_minus [of r] is_dbl_minus [of "- r"] by auto

lemma is_dbl_literals [simp]:
  "is_dbl 1" "is_dbl 2" "is_dbl 3" "is_dbl 4" "is_dbl 8" "is_dbl 9" "is_dbl 14" "is_dbl 15"
  "is_dbl 250" "is_dbl 265" "is_dbl 360" "is_dbl (1 / 2)" "is_dbl (21 / 2)" "is_dbl (29 / 2)" "is_dbl 9007199254740992"
  by (rule is_dblI [OF literal_values(3)], simp, rule is_dblI [OF literal_values(5)], simp,
      rule is_dblI [OF literal_values(7)], simp, rule is_dblI [OF literal_values(9)], simp,
      rule is_dblI [OF literal_values(11)], simp, rule is_dblI [OF literal_values(13)], simp,
      rule is_dblI [OF literal_values(17)], simp, rule is_dblI [OF literal_values(19)], simp,
      rule is_dblI [OF literal_values(21)], simp, rule is_dblI [OF literal_values(23)], simp,
      rule is_dblI [OF literal_values(25)], simp, rule is_dblI [OF literal_values(27)], simp,
      rule is_dblI [OF literal_values(29)], simp, rule is_dblI [OF literal_values(33)], simp,
      rule is_dblI [OF literal_values(53)], simp)

section \<open>One tick, quantity by quantity\<close>

lemma clock_saturates: "dbl_add (dlit 9007199254740992 1) (dlit 1 10) = dlit 9007199254740992 1"
proof -
  have "dbl_decode 0x4340000000000000 = Finite False 9007199254740992 1"
    "dbl_decode 0x3FB999999999999A = Finite False 7205759403792794 72057594037927936"
    by (simp_all add: dbl_decode_def dbl_exponent_def dbl_fraction_def dbl_sign_def Let_def)
  then have "dbl_add 0x4340000000000000 0x3FB999999999999A =
      dbl_pack False 649037107316853460772071444945306 72057594037927936"
    by (simp add: dbl_add_def with_sign_def)
  also have "\<dots> = 0x4340000000000000"
    by (simp add: dbl_pack_def round_dbl_def floor_log_frac_def floor_log_nat.simps div_half_even_def Let_def)
  finally show ?thesis unfolding telemetry_literals .
qed

lemma clock_step:
  assumes "dbl_within 0 9007199254740992 st"
  shows "dbl_within 0 9007199254740992 (dbl_add st (dlit 1 10))"
proof -
  have st: "dbl_finite st" "0 \<le> dbl_real st" "dbl_real st \<le> 9007199254740992" using assms by (simp_all add: dbl_within_def)
  have "is_dbl 18014398509481984"
    by (rule is_dblI [of "0x4350000000000000"]) (simp_all add: dbl_fields)
  from within_bounds_threshold [OF is_dbl_zero this]
  have threshold: "\<bar>x + dbl_real (dlit 1 10)\<bar> < overflow_threshold" if "0 \<le> x" "x \<le> 9007199254740992" for x
    using that by simp
  have near: "dbl_nearest (dbl_add st (dlit 1 10)) (dbl_real st + dbl_real (dlit 1 10))"
    using st by (intro dbl_add_nearest threshold) simp_all
  show ?thesis
  proof (cases "dbl_real st = 9007199254740992")
    case True
    then have "st = dlit 9007199254740992 1"
      using st(1) by (intro dbl_real_inj) (simp_all add: positive_sign)
    then show ?thesis using clock_saturates by (simp add: dbl_within_def)
  next
    case False
    have "dbl_nearest (dlit 9007199254740992 1) (9007199254740992 + dbl_real (dlit 1 10))"
      using dbl_add_nearest [of "dlit 9007199254740992 1" "dlit 1 10"] threshold [of 9007199254740992]
      unfolding clock_saturates by simp
    from nearest_mono [OF near this] False st have "dbl_real (dbl_add st (dlit 1 10)) \<le> 9007199254740992" by simp
    moreover have "0 \<le> dbl_real (dbl_add st (dlit 1 10))"
      using nearest_ge [OF near literal_values(1)] st(2) by simp
    ultimately show ?thesis using nearest_finite [OF near] by (simp add: dbl_within_def)
  qed
qed

text \<open>An amplitude times a sine.\<close>

lemma swing_within:
  assumes "dbl_within (- 1) 1 s" "dbl_finite c" "0 \<le> dbl_real c"
  shows "dbl_within (- dbl_real c) (dbl_real c) (dbl_mul s c)"
proof -
  have s: "dbl_finite s" "- 1 \<le> dbl_real s" "dbl_real s \<le> 1" using assms(1) by (simp_all add: dbl_within_def)
  show ?thesis
    using mult_right_mono [OF s(2) assms(3)] mult_right_mono [OF s(3) assms(3)]
    by (intro mul_within s(1) assms(2)) (simp_all add: assms(2))
qed

lemma climb_step:
  assumes "dbl_within 0 15 agl"
  defines "agl' \<equiv> dbl_add agl (dbl_mul (dbl_sub (dlit 15 1) agl) (dlit 5 100))"
  shows "dbl_within (dbl_real agl) 15 agl'"
proof -
  have agl: "dbl_finite agl" "0 \<le> dbl_real agl" "dbl_real agl \<le> 15" using assms(1) by (simp_all add: dbl_within_def)
  define g where "g = dbl_sub (dlit 15 1) agl"
  define p where "p = dbl_mul g (dlit 5 100)"
  have g: "dbl_within 0 15 g" unfolding g_def using agl by (intro sub_within) simp_all
  have "dbl_nearest g (15 - dbl_real agl)"
    using dbl_sub_nearest [of "dlit 15 1" agl] within_bounds_threshold [OF is_dbl_zero is_dbl_literals(8), of "15 - dbl_real agl"] agl
    by (simp add: g_def)
  from nearest_off [OF this is_dbl_zero] have g2: "dbl_real g \<le> 2 * (15 - dbl_real agl)"
    using agl by (simp add: abs_le_iff)
  have fg: "dbl_finite g" "0 \<le> dbl_real g" "dbl_real g \<le> 15" using g by (simp_all add: dbl_within_def)
  define x where "x = dbl_real g * dbl_real (dlit 5 100)"
  have x: "0 \<le> x" "x \<le> dbl_real g / 16" using fg by (simp_all add: x_def)
  then have near: "dbl_nearest p x"
    using dbl_mul_nearest [of g "dlit 5 100"] within_bounds_threshold [OF is_dbl_zero is_dbl_literals(8), of x] fg
    by (simp add: p_def x_def)
  have "dbl_real p \<le> 2 * x" using nearest_off [OF near is_dbl_zero] x(1) by (simp add: abs_le_iff)
  then have p: "dbl_finite p" "0 \<le> dbl_real p" "dbl_real p \<le> 15 - dbl_real agl"
    using nearest_finite [OF near] nearest_ge [OF near literal_values(1)] x g2 agl(3) by simp_all
  show ?thesis unfolding agl'_def g_def [symmetric] p_def [symmetric]
    using agl p by (intro add_within) simp_all
qed

lemma dbl_within_simps:
  "dbl_within a b x \<Longrightarrow> dbl_finite x" "dbl_within a b x \<Longrightarrow> a \<le> dbl_real x" "dbl_within a b x \<Longrightarrow> dbl_real x \<le> b"
  by (simp_all add: dbl_within_def)

lemma descend_step:
  assumes "dbl_within 0 15 agl"
  shows "dbl_within 0 15 (qMax (dlit 0 1) (dbl_sub agl (dlit 1 1)))"
proof -
  have "dbl_within (- 1) 15 (dbl_sub agl (dlit 1 1))"
    using dbl_within_simps [OF assms] by (intro sub_within) simp_all
  from qMax_within(1) [OF _ this, of 0 0 "dlit 0 1"] show ?thesis by (simp add: dbl_within_def)
qed

lemma drain_step:
  assumes "dbl_within 0 1 b"
  shows "dbl_within 0 1 (qMax (dlit 0 1) (dbl_sub b (dlit 2 10000)))"
proof -
  have "dbl_within (- 1) 1 (dbl_sub b (dlit 2 10000))"
    using dbl_within_simps [OF assms] by (intro sub_within) simp_all
  from qMax_within(1) [OF _ this, of 0 0 "dlit 0 1"] show ?thesis by (simp add: dbl_within_def)
qed

lemma recharge_step:
  assumes "dbl_within 0 1 b"
  shows "dbl_within 0 1 (qMin (dlit 1 1) (dbl_add b (dlit 1 1000)))"
proof -
  have "dbl_within 0 2 (dbl_add b (dlit 1 1000))"
    using dbl_within_simps [OF assms] by (intro add_within) simp_all
  from qMin_within(1) [OF _ this, of 1 1 "dlit 1 1"] show ?thesis by (simp add: dbl_within_def)
qed

text \<open>The voltage of a battery in range; the literal 16.8 is the highest.\<close>

lemma voltage_step:
  assumes "dbl_within 0 1 b"
  shows "dbl_within 14 (dbl_real (dlit 168 10)) (voltage_of b)"
proof -
  note b = dbl_within_simps [OF assms]
  have "dbl_within 0 (dbl_real (dlit 28 10)) (dbl_mul b (dlit 28 10))"
    using b mult_right_mono [OF b(3), of "dbl_real (dlit 28 10)"] by (intro mul_within is_dbl_self) simp_all
  note part = dbl_within_simps [OF this]
  show ?thesis unfolding voltage_of_def
    using part by (intro add_within is_dbl_self) simp_all
qed

lemma yaw_step:
  assumes "dbl_within 0 360 y" "dbl_real y < 360"
  shows "dbl_within 0 360 (dbl_fmod (dbl_add y (dlit 5 10)) (dlit 360 1))"
    and "dbl_real (dbl_fmod (dbl_add y (dlit 5 10)) (dlit 360 1)) < 360"
proof -
  let ?a = "dbl_add y (dlit 5 10)"
  note y = dbl_within_simps [OF assms(1)]
  have "is_dbl (721 / 2)" by (rule is_dblI [of "0x4076880000000000"]) (simp_all add: dbl_fields)
  then have "dbl_within (1 / 2) (721 / 2) ?a" using y by (intro add_within) simp_all
  note a = dbl_within_simps [OF this]
  have pos: "0 < dbl_real ?a" using a(2) by simp
  have "dbl_within 0 360 (dbl_fmod ?a (dlit 360 1)) \<and> dbl_real (dbl_fmod ?a (dlit 360 1)) < 360"
  proof (cases "dbl_real ?a < 360")
    case True
    with fmod_near(1) [OF a(1) literal_values(25) pos] show ?thesis by (simp add: dbl_within_def)
  next
    case False
    with fmod_near(2) [OF a(1) literal_values(25) pos, of "1 / 2"] a(3) show ?thesis by (simp add: dbl_within_def)
  qed
  then show "dbl_within 0 360 (dbl_fmod ?a (dlit 360 1))" "dbl_real (dbl_fmod ?a (dlit 360 1)) < 360" by blast+
qed

lemma speed_step:
  assumes "dbl_within (- 1) 1 s"
  shows "dbl_within 0 (29 / 2) (dbl_add (dlit 125 10) (dbl_mul s (dlit 2 1)))"
proof -
  have "dbl_within (- 2) 2 (dbl_mul s (dlit 2 1))" using swing_within [OF assms, of "dlit 2 1"] by simp
  note swing = dbl_within_simps [OF this]
  have "dbl_within (21 / 2) (29 / 2) (dbl_add (dlit 125 10) (dbl_mul s (dlit 2 1)))"
    using swing by (intro add_within) simp_all
  then show ?thesis by (simp add: dbl_within_def)
qed

lemma load_step:
  assumes "dbl_within (- 1) 1 s"
  shows "dbl_within 9 15 (dbl_add (dlit 12 1) (dbl_mul s (dlit 3 1)))"
proof -
  have "dbl_within (- 3) 3 (dbl_mul s (dlit 3 1))" using swing_within [OF assms, of "dlit 3 1"] by simp
  note swing = dbl_within_simps [OF this]
  show ?thesis using swing by (intro add_within) simp_all
qed

lemma wgs84_step: "dbl_within 0 15 agl \<Longrightarrow> dbl_within 250 265 (dbl_add (dlit 250 1) agl)"
  by (intro add_within) (simp_all add: dbl_within_def)

section \<open>The envelope\<close>

definition envelope :: "telemetry \<Rightarrow> bool" where
  "envelope t \<longleftrightarrow>
     dbl_within 0 15 (altitude_agl t) \<and> dbl_within 250 265 (altitude_wgs84 t) \<and>
     dbl_within 0 (29 / 2) (ground_speed t) \<and>
     dbl_within (- 8) 8 (roll t) \<and> dbl_within (- 4) 4 (pitch t) \<and>
     dbl_within 0 360 (yaw t) \<and> dbl_real (yaw t) < 360 \<and>
     dbl_within 0 1 (battery_remaining t) \<and>
     dbl_within 14 (dbl_real (dlit 168 10)) (battery_voltage t) \<and>
     dbl_within 9 (dbl_real (dlit 154 10)) (cpu_load t) \<and>
     dbl_within 0 9007199254740992 (sim_step t) \<and>
     fhss_channel t \<in> {1..49} \<and> signal_jamming t \<in> {10..44} \<union> {200..254} \<and> satellites t \<in> {0..18}"

text \<open>
  What the C library and the random generator promise: sine and cosine of a finite number
  are between -1 and 1, and a number drawn from a range lies in it.
\<close>

definition sane_env :: "sim_env \<Rightarrow> bool" where
  "sane_env env \<longleftrightarrow>
     (\<forall>x. dbl_finite x \<longrightarrow> dbl_within (- 1) 1 (env_sin env x) \<and> dbl_within (- 1) 1 (env_cos env x)) \<and>
     rnd_hop env \<in> {0..9} \<and> rnd_channel env \<in> {1..49} \<and> rnd_jamming env \<in> {200..254} \<and>
     rnd_sats env \<in> {0..3} \<and> rnd_noise env \<in> {10..44}"

text \<open>Ticks of such an environment, commands, and writes of values within the envelope.\<close>

fun sane_op :: "gcs_op \<Rightarrow> bool" where
  "sane_op (Tick env) = sane_env env"
| "sane_op (Set_altitude_wgs84 v) = dbl_within 250 265 v"
| "sane_op (Set_altitude_agl v) = dbl_within 0 15 v"
| "sane_op (Set_satellites n) = (n \<in> {0..18})"
| "sane_op (Set_ground_speed v) = dbl_within 0 (29 / 2) v"
| "sane_op (Set_roll v) = dbl_within (- 8) 8 v"
| "sane_op (Set_pitch v) = dbl_within (- 4) 4 v"
| "sane_op (Set_yaw v) = (dbl_within 0 360 v \<and> dbl_real v < 360)"
| "sane_op (Set_battery_voltage v) = dbl_within 14 (dbl_real (dlit 168 10)) v"
| "sane_op (Set_battery_remaining v) = dbl_within 0 1 v"
| "sane_op (Set_fhss_channel n) = (n \<in> {1..49})"
| "sane_op (Set_signal_jamming n) = (n \<in> {10..44} \<union> {200..254})"
| "sane_op (Set_cpu_load v) = dbl_within 9 (dbl_real (dlit 154 10)) v"
| "sane_op _ = True"

lemma envelope_new: "envelope new_telemetry"
  by (simp add: envelope_def new_telemetry_def dbl_within_def)

lemma phase_within:
  assumes "dbl_within 0 9007199254740992 st" "dbl_finite c" "0 \<le> dbl_real c" "dbl_real c \<le> 1"
  shows "dbl_finite (dbl_mul st c)"
proof -
  note st = dbl_within_simps [OF assms(1)]
  have "dbl_real st * dbl_real c \<le> 9007199254740992 * 1" using st assms(3,4) by (intro mult_mono) simp_all
  then have "dbl_within 0 9007199254740992 (dbl_mul st c)"
    using st assms by (intro mul_within) simp_all
  then show ?thesis by (rule dbl_within_simps(1))
qed

lemma sin_within:
  assumes "sane_env env" "dbl_within 0 9007199254740992 st" "dbl_finite c" "0 \<le> dbl_real c" "dbl_real c \<le> 1"
  shows "dbl_within (- 1) 1 (env_sin env (dbl_mul st c))" "dbl_within (- 1) 1 (env_cos env (dbl_mul st c))"
  using assms(1) phase_within [OF assms(2-5)] by (auto simp: sane_env_def)

lemma envelope_flying:
  assumes "envelope t" "sane_env env"
  shows "envelope (sim_flying env t)"
proof -
  have st: "dbl_within 0 9007199254740992 (sim_step t)" using assms(1) by (simp add: envelope_def)
  note s = sin_within [OF assms(2) st]
  have agl: "dbl_within 0 15 (dbl_add (altitude_agl t) (dbl_mul (dbl_sub (dlit 15 1) (altitude_agl t)) (dlit 5 100)))"
    using climb_step [of "altitude_agl t"] assms(1) by (auto simp: envelope_def dbl_within_def)
  have battery: "dbl_within 0 1 (qMax (dlit 0 1) (dbl_sub (battery_remaining t) (dlit 2 10000)))"
    using assms(1) by (intro drain_step) (simp add: envelope_def)
  show ?thesis
    using assms(1) agl battery wgs84_step [OF agl] voltage_step [OF battery]
      speed_step [OF s(1) [of "dlit 2 10"]] yaw_step [of "yaw t"]
      swing_within [OF s(1) [of "dlit 5 10"], of "dlit 8 1"] swing_within [OF s(2) [of "dlit 5 10"], of "dlit 4 1"]
    by (simp add: envelope_def sim_flying_def Let_def)
qed

lemma envelope_grounded:
  assumes "envelope t" "sane_env env"
  shows "envelope (sim_grounded env t)"
proof -
  have st: "dbl_within 0 9007199254740992 (sim_step t)" using assms(1) by (simp add: envelope_def)
  note s = sin_within [OF assms(2) st]
  have battery: "dbl_within 0 1 (qMin (dlit 1 1) (dbl_add (battery_remaining t) (dlit 1 1000)))"
    using assms(1) by (intro recharge_step) (simp add: envelope_def)
  have "dbl_within (- (1 / 2)) (1 / 2) (dbl_mul (env_sin env (dbl_mul (sim_step t) (dlit 1 10))) (dlit 5 10))"
    "dbl_within (- (1 / 2)) (1 / 2) (dbl_mul (env_cos env (dbl_mul (sim_step t) (dlit 1 10))) (dlit 5 10))"
    using swing_within [OF s(1) [of "dlit 1 10"], of "dlit 5 10"] swing_within [OF s(2) [of "dlit 1 10"], of "dlit 5 10"]
    by simp_all
  then have "dbl_within (- 8) 8 (dbl_mul (env_sin env (dbl_mul (sim_step t) (dlit 1 10))) (dlit 5 10))"
    "dbl_within (- 4) 4 (dbl_mul (env_cos env (dbl_mul (sim_step t) (dlit 1 10))) (dlit 5 10))"
    by (auto elim: dbl_within_mono)
  moreover have "dbl_within 0 (29 / 2) (dlit 0 1)" "dbl_within 250 265 (dlit 250 1)"
    by (simp_all add: dbl_within_def)
  ultimately show ?thesis
    using assms(1) battery voltage_step [OF battery] descend_step [of "altitude_agl t"]
    by (simp add: envelope_def sim_grounded_def Let_def)
qed

lemma envelope_tick:
  assumes "envelope t" "sane_env env"
  shows "envelope (fst (update_simulation env t))"
proof -
  define t1 where "t1 = t\<lparr>sim_step := dbl_add (sim_step t) (dlit 1 10)\<rparr>"
  define t2 where "t2 = (if armed t1 then sim_flying env t1 else sim_grounded env t1)"
  have "envelope t1" using assms(1) clock_step [of "sim_step t"] by (simp add: t1_def envelope_def)
  then have t2: "envelope t2" using envelope_flying envelope_grounded assms(2) by (simp add: t2_def)
  have "dbl_within 0 9007199254740992 (sim_step t2)" using t2 by (simp add: envelope_def)
  from load_step [OF sin_within(1) [OF assms(2) this, of "dlit 1 10"]]
  have "dbl_within 9 15 (dbl_add (dlit 12 1) (dbl_mul (env_sin env (dbl_mul (sim_step t2) (dlit 1 10))) (dlit 3 1)))"
    by simp
  then have load: "dbl_within 9 (dbl_real (dlit 154 10))
      (dbl_add (dlit 12 1) (dbl_mul (env_sin env (dbl_mul (sim_step t2) (dlit 1 10))) (dlit 3 1)))"
    by (rule dbl_within_mono) simp_all
  show ?thesis
    unfolding update_simulation_def t1_def [symmetric] t2_def [symmetric] Let_def
    using t2 load assms(2) by (auto simp: envelope_def sane_env_def)
qed

lemma envelope_setter:
  assumes "envelope t" "sane_op op" "\<forall>env. op \<noteq> Tick env"
  shows "envelope (fst (telemetry_step op t))"
  using assms
  by (cases op) (simp_all add: envelope_def telemetry_setters telemetry_commands Let_def dbl_within_def)

lemma envelope_step: "envelope t \<Longrightarrow> sane_op op \<Longrightarrow> envelope (fst (telemetry_step op t))"
  by (cases "\<exists>env. op = Tick env") (auto simp: envelope_tick envelope_setter)

text \<open>
  C34. The displayed values never leave their envelope: after any ticks, commands and in-range
  writes since start the altitude is at most 15 m above ground and 250 to 265 m above the
  ellipsoid, the speed at most 14.5, roll and pitch within 8 and 4 degrees, the heading in
  [0, 360), the battery in [0, 1] and its voltage in [14, 16.8], the load in [9, 15.4], and
  the drawn numbers in their ranges; nothing becomes infinite or NaN, however long it runs.
\<close>

theorem flight_envelope:
  assumes "\<forall>op \<in> set ops. sane_op op"
  shows "envelope (fold (\<lambda>op t. fst (telemetry_step op t)) ops new_telemetry)"
proof -
  have "envelope (fold (\<lambda>op t. fst (telemetry_step op t)) ops t)" if "envelope t" for t
    using assms that by (induction ops arbitrary: t) (simp_all add: envelope_step)
  then show ?thesis using envelope_new by blast
qed

definition still_env :: sim_env where
  "still_env = \<lparr>env_sin = (\<lambda>_. dlit 0 1), env_cos = (\<lambda>_. dlit 1 1), rnd_hop = 5, rnd_channel = 3,
     rnd_jamming = 220, rnd_sats = 2, rnd_noise = 20\<rparr>"

lemma still_env_sane: "sane_env still_env"
  by (simp add: sane_env_def still_env_def dbl_within_def)

theorem flight_envelope_witness:
  "envelope (fold (\<lambda>op t. fst (telemetry_step op t)) [Arm, Tick still_env, Toggle_jamming, Tick still_env, Abort] new_telemetry)"
  by (rule flight_envelope) (simp add: still_env_sane)

section \<open>A flight on one charge\<close>

definition fly :: "sim_env list \<Rightarrow> telemetry \<Rightarrow> telemetry" where
  "fly envs t = fold (\<lambda>env t. fst (update_simulation env t)) envs t"

lemma fly_armed: "armed (fly envs t) = armed t"
  by (induction envs arbitrary: t) (simp_all add: fly_def armed_sim)

lemma tick_battery:
  assumes "armed t"
  shows "battery_remaining (fst (update_simulation env t)) = qMax (dlit 0 1) (dbl_sub (battery_remaining t) (dlit 2 10000))"
  using assms by (simp add: update_simulation_def sim_flying_def Let_def)

lemma max_zero_diff: "\<bar>max 0 x - max 0 y\<bar> \<le> \<bar>x - y\<bar>" for x y :: real
  by (simp add: max_def)

lemma drain_error:
  assumes "dbl_within 0 1 b"
  shows "\<bar>dbl_real (qMax (dlit 0 1) (dbl_sub b (dlit 2 10000))) - max 0 (dbl_real b - dbl_real (dlit 2 10000))\<bar> \<le> pow2 (- 54)"
proof -
  note b = dbl_within_simps [OF assms]
  let ?x = "dbl_real b - dbl_real (dlit 2 10000)"
  have err: "\<bar>dbl_real (dbl_sub b (dlit 2 10000)) - ?x\<bar> \<le> pow2 (0 - 54)"
    using b within_bounds_threshold [of "- 1" 1 ?x] by (intro sub_error) simp_all
  have "dbl_within (- 1) 1 (dbl_sub b (dlit 2 10000))"
    using b by (intro sub_within) simp_all
  from qMax_within(2) [OF _ this, of 0 0 "dlit 0 1"]
  have "dbl_real (qMax (dlit 0 1) (dbl_sub b (dlit 2 10000))) = max 0 (dbl_real (dbl_sub b (dlit 2 10000)))"
    by (simp add: dbl_within_def)
  then show ?thesis using order_trans [OF max_zero_diff err] by (simp only: diff_0)
qed

lemma fly_battery:
  assumes "armed t" "dbl_within 0 1 (battery_remaining t)"
  shows "dbl_within 0 1 (battery_remaining (fly envs t)) \<and>
    \<bar>dbl_real (battery_remaining (fly envs t)) -
       max 0 (dbl_real (battery_remaining t) - real (length envs) * dbl_real (dlit 2 10000))\<bar> \<le> real (length envs) * pow2 (- 54)"
  using assms
proof (induction envs rule: rev_induct)
  case Nil
  then show ?case by (simp add: fly_def dbl_within_def)
next
  case (snoc env envs)
  define d where "d = dbl_real (dlit 2 10000)"
  let ?b = "dbl_real (battery_remaining t)" and ?u = "battery_remaining (fly envs t)" and ?n = "real (length envs)"
  have d: "0 \<le> d" by (simp add: d_def)
  have ih: "dbl_within 0 1 ?u" "\<bar>dbl_real ?u - max 0 (?b - ?n * d)\<bar> \<le> ?n * pow2 (- 54)"
    using snoc by (simp_all add: d_def)
  have after: "battery_remaining (fly (envs @ [env]) t) = qMax (dlit 0 1) (dbl_sub ?u (dlit 2 10000))"
    using tick_battery [of "fly envs t" env] snoc.prems(1) fly_armed [of envs t] by (simp add: fly_def)
  have "\<bar>dbl_real (battery_remaining (fly (envs @ [env]) t)) - max 0 (dbl_real ?u - d)\<bar> \<le> pow2 (- 54)"
    using drain_error [OF ih(1)] by (simp only: after d_def)
  moreover have "\<bar>max 0 (dbl_real ?u - d) - max 0 (?b - (?n + 1) * d)\<bar> \<le> \<bar>dbl_real ?u - max 0 (?b - ?n * d)\<bar>"
    using d by (simp add: max_def algebra_simps) 
  ultimately have "\<bar>dbl_real (battery_remaining (fly (envs @ [env]) t)) - max 0 (?b - (?n + 1) * d)\<bar> \<le> (?n + 1) * pow2 (- 54)"
    using ih(2) unfolding distrib_right by linarith
  then show ?case using drain_step [OF ih(1)] by (simp add: after d_def add.commute)
qed

text \<open>
  The battery falls by the literal 0.0002 a tick: after \<open>n\<close> ticks in the air what is left
  differs from the exact linear discharge, stopped at zero, by at most \<open>n * 2 ^ -54\<close>.
\<close>

theorem battery_discharges_linearly:
  assumes "armed t" and "dbl_within 0 1 (battery_remaining t)"
  shows "\<bar>dbl_real (battery_remaining (fly envs t)) -
           max 0 (dbl_real (battery_remaining t) - real (length envs) * dbl_real (dlit 2 10000))\<bar>
         \<le> real (length envs) * pow2 (- 54)"
  using fly_battery [OF assms] by blast

lemma last_drain:
  assumes "dbl_within 0 1 b" "dbl_real b \<le> 5000 * pow2 (- 54)"
  shows "qMax (dlit 0 1) (dbl_sub b (dlit 2 10000)) = dlit 0 1"
proof -
  note b = dbl_within_simps [OF assms(1)]
  have "dbl_real b \<le> dbl_real (dlit 2 10000)" using assms(2) by simp
  then have "dbl_within (- 1) 0 (dbl_sub b (dlit 2 10000))" using b by (intro sub_within) simp_all
  then show ?thesis by (simp add: qMax_def dbl_less_real dbl_within_def)
qed

lemma fly_empty:
  "armed t \<Longrightarrow> dbl_within 0 1 (battery_remaining t) \<Longrightarrow> dbl_real (battery_remaining t) \<le> 5000 * pow2 (- 54) \<Longrightarrow>
   envs \<noteq> [] \<Longrightarrow> battery_remaining (fly envs t) = dlit 0 1"
proof (induction envs arbitrary: t)
  case (Cons e es)
  let ?t = "fst (update_simulation e t)"
  have t: "battery_remaining ?t = dlit 0 1"
    using tick_battery [OF Cons.prems(1)] last_drain Cons.prems(2,3) by simp
  show ?case
  proof (cases "es = []")
    case True
    with t show ?thesis by (simp add: fly_def)
  next
    case False
    have "battery_remaining (fly es ?t) = dlit 0 1"
      using t Cons.prems(1) False by (intro Cons.IH) (simp_all add: armed_sim dbl_within_def)
    then show ?thesis by (simp add: fly_def)
  qed
qed simp

lemma empty_not_ready: "battery_remaining t = dlit 0 1 \<Longrightarrow> \<not> ready_to_fly t"
proof -
  have "dbl_finite (dlit 20 100)" "0 < dbl_real (dlit 20 100)" unfolding dlit_values by (simp_all add: dbl_fields)
  then show "battery_remaining t = dlit 0 1 \<Longrightarrow> \<not> ready_to_fly t" by (simp add: ready_to_fly_def dbl_less_real)
qed

text \<open>
  C35. The vehicle flies on when the battery is empty: after 5001 or more ticks in the air the
  battery is exactly zero, the vehicle is not ready to fly, and it is still armed.
\<close>

theorem flight_outlasts_the_battery:
  assumes "armed t" and "dbl_within 0 1 (battery_remaining t)" and "5001 \<le> length envs"
  shows "battery_remaining (fly envs t) = dlit 0 1 \<and> \<not> ready_to_fly (fly envs t) \<and> armed (fly envs t)"
proof -
  define pre where "pre = take 5000 envs"
  define post where "post = drop 5000 envs"
  let ?u = "fly pre t"
  have envs: "envs = pre @ post" "length pre = 5000" "post \<noteq> []"
    using assms(3) by (simp_all add: pre_def post_def)
  have u: "armed ?u" "dbl_within 0 1 (battery_remaining ?u)"
    using fly_armed [of pre t] fly_battery [OF assms(1,2), of pre] assms(1) by simp_all
  have "max 0 (dbl_real (battery_remaining t) - real (length pre) * dbl_real (dlit 2 10000)) = 0"
    using assms(2) by (simp add: envs(2) dbl_within_def)
  then have "dbl_real (battery_remaining ?u) \<le> 5000 * pow2 (- 54)"
    using fly_battery [OF assms(1,2), of pre] unfolding envs(2) by (auto simp: dbl_within_def)
  moreover have "fly envs t = fly post ?u" by (simp add: envs(1) fly_def)
  ultimately have "battery_remaining (fly envs t) = dlit 0 1" using fly_empty [OF u _ envs(3)] by simp
  then show ?thesis using empty_not_ready fly_armed assms(1) by blast
qed

text \<open>The vehicle of a fresh station, armed.\<close>

lemma armed_start: "armed (fst (arm_vehicle new_telemetry))" "dbl_within 0 1 (battery_remaining (fst (arm_vehicle new_telemetry)))"
  using new_telemetry_ready
  by (simp_all add: arm_vehicle_def) (simp add: new_telemetry_def dbl_within_def)

theorem battery_discharges_linearly_witness:
  "\<bar>dbl_real (battery_remaining (fly [still_env, still_env] (fst (arm_vehicle new_telemetry)))) -
     max 0 (dbl_real (battery_remaining (fst (arm_vehicle new_telemetry))) - 2 * dbl_real (dlit 2 10000))\<bar> \<le> 2 * pow2 (- 54)"
  using battery_discharges_linearly [OF armed_start, of "[still_env, still_env]"] by simp

theorem flight_outlasts_the_battery_witness:
  "battery_remaining (fly (replicate 6000 still_env) (fst (arm_vehicle new_telemetry))) = dlit 0 1 \<and>
   \<not> ready_to_fly (fly (replicate 6000 still_env) (fst (arm_vehicle new_telemetry))) \<and>
   armed (fly (replicate 6000 still_env) (fst (arm_vehicle new_telemetry)))"
  by (rule flight_outlasts_the_battery [OF armed_start]) simp

section \<open>The climb\<close>

lemma climb_error:
  assumes "dbl_within 0 15 agl"
  defines "agl' \<equiv> dbl_add agl (dbl_mul (dbl_sub (dlit 15 1) agl) (dlit 5 100))"
  shows "15 - dbl_real agl' \<le> (15 - dbl_real agl) * (19 / 20) + 3 * pow2 (- 50)"
proof -
  note agl = dbl_within_simps [OF assms(1)]
  define g where "g = dbl_sub (dlit 15 1) agl"
  define p where "p = dbl_mul g (dlit 5 100)"
  have g: "dbl_within 0 15 g" unfolding g_def using agl by (intro sub_within) simp_all
  note g = dbl_within_simps [OF this]
  have e1: "\<bar>dbl_real g - (15 - dbl_real agl)\<bar> \<le> pow2 (4 - 54)"
    using sub_error [of "dlit 15 1" agl 4] within_bounds_threshold [of 0 15 "15 - dbl_real agl"] agl
    by (simp add: g_def)
  have "dbl_within 0 1 p" unfolding p_def using g by (intro mul_within) simp_all
  note p = dbl_within_simps [OF this]
  have "\<bar>dbl_real p - dbl_real g * dbl_real (dlit 5 100)\<bar> \<le> pow2 (0 - 54)"
    unfolding p_def using g within_bounds_threshold [of 0 1 "dbl_real g * dbl_real (dlit 5 100)"]
    by (intro mul_error) simp_all
  moreover have "dbl_real g / 20 \<le> dbl_real g * dbl_real (dlit 5 100)" using g by simp
  ultimately have e2: "dbl_real g / 20 - pow2 (- 54) \<le> dbl_real p" by (simp only: diff_0)
  have "is_dbl 16" by (rule is_dblI [of "0x4030000000000000"]) (simp_all add: dbl_fields)
  then have "\<bar>dbl_real agl' - (dbl_real agl + dbl_real p)\<bar> \<le> pow2 (5 - 54)"
    unfolding agl'_def g_def [symmetric] p_def [symmetric]
    using agl p within_bounds_threshold [of 0 16 "dbl_real agl + dbl_real p"] by (intro add_error) simp_all
  from abs_le_D2 [OF this] abs_le_D2 [OF e1] e2 show ?thesis by (simp add: field_simps)
qed

lemma tick_altitude:
  assumes "armed t"
  shows "altitude_agl (fst (update_simulation env t)) =
    dbl_add (altitude_agl t) (dbl_mul (dbl_sub (dlit 15 1) (altitude_agl t)) (dlit 5 100))"
  using assms by (simp add: update_simulation_def sim_flying_def Let_def)

lemma fly_climb:
  assumes "armed t" "dbl_within 0 15 (altitude_agl t)"
  shows "dbl_within 0 15 (altitude_agl (fly envs t)) \<and>
    15 - dbl_real (altitude_agl (fly envs t)) \<le>
      (15 - dbl_real (altitude_agl t)) * (19 / 20) ^ length envs + 60 * pow2 (- 50)"
  using assms
proof (induction envs rule: rev_induct)
  case Nil
  then show ?case by (simp add: fly_def dbl_within_def)
next
  case (snoc env envs)
  let ?u = "altitude_agl (fly envs t)"
  have ih: "dbl_within 0 15 ?u"
    "15 - dbl_real ?u \<le> (15 - dbl_real (altitude_agl t)) * (19 / 20) ^ length envs + 60 * pow2 (- 50)"
    using snoc by simp_all
  have after: "altitude_agl (fly (envs @ [env]) t) = dbl_add ?u (dbl_mul (dbl_sub (dlit 15 1) ?u) (dlit 5 100))"
    using tick_altitude [of "fly envs t" env] snoc.prems(1) fly_armed [of envs t] by (simp add: fly_def)
  have "dbl_within 0 15 (altitude_agl (fly (envs @ [env]) t))"
    using climb_step [OF ih(1)] ih(1) unfolding after by (auto simp: dbl_within_def)
  moreover have "15 - dbl_real (altitude_agl (fly (envs @ [env]) t)) \<le>
      ((15 - dbl_real (altitude_agl t)) * (19 / 20) ^ length envs + 60 * pow2 (- 50)) * (19 / 20) + 3 * pow2 (- 50)"
    unfolding after by (rule order_trans [OF climb_error [OF ih(1)]], intro add_right_mono mult_right_mono ih(2)) simp
  ultimately show ?case by (simp add: field_simps)
qed

text \<open>
  The climb settles at 15 m: after \<open>n\<close> ticks in the air the vehicle is not above 15 m and
  misses it by at most what it missed at first, times 0.95 to the \<open>n\<close>, plus \<open>2 ^ -44\<close> m.
\<close>

theorem climb_settles_at_15:
  assumes "armed t" and "dbl_within 0 15 (altitude_agl t)"
  shows "15 - dbl_real (altitude_agl (fly envs t)) \<in>
    {0 .. (15 - dbl_real (altitude_agl t)) * (19 / 20) ^ length envs + pow2 (- 44)}"
  using fly_climb [OF assms, of envs] by (simp add: dbl_within_def)

theorem climb_settles_at_15_witness:
  "15 - dbl_real (altitude_agl (fly [still_env, still_env] (fst (arm_vehicle new_telemetry)))) \<in>
   {0 .. 15 * (19 / 20) ^ 2 + pow2 (- 44)}"
proof -
  have "altitude_agl (fst (arm_vehicle new_telemetry)) = dlit 0 1"
    using new_telemetry_ready by (simp add: arm_vehicle_def) (simp add: new_telemetry_def)
  moreover from this have "dbl_within 0 15 (altitude_agl (fst (arm_vehicle new_telemetry)))" by (simp add: dbl_within_def)
  ultimately show ?thesis using climb_settles_at_15 [OF armed_start(1), of "[still_env, still_env]"]
    by (simp add: numeral_2_eq_2)
qed

text \<open>
  In the air the two altitudes agree, the one above the ellipsoid being 250 m plus the one
  above ground, rounded. On the ground they need not: the tick after disarming shows 250 m
  at once while the altitude above ground comes down by a metre a tick.
\<close>

theorem altitudes_agree_in_the_air_only:
  assumes "dbl_within 2 15 (altitude_agl t)"
  shows "if armed t
    then dbl_nearest (altitude_wgs84 (fst (update_simulation env t)))
           (250 + dbl_real (altitude_agl (fst (update_simulation env t))))
    else altitude_wgs84 (fst (update_simulation env t)) = dlit 250 1 \<and>
         1 \<le> dbl_real (altitude_agl (fst (update_simulation env t)))"
proof (cases "armed t")
  case True
  have "dbl_within 0 15 (altitude_agl t)" using assms by (rule dbl_within_mono) simp_all
  from climb_step [OF this] assms have agl: "dbl_within 0 15 (altitude_agl (fst (update_simulation env t)))"
    unfolding tick_altitude [OF True] by (auto simp: dbl_within_def)
  have "altitude_wgs84 (fst (update_simulation env t)) = dbl_add (dlit 250 1) (altitude_agl (fst (update_simulation env t)))"
    using True by (simp add: update_simulation_def sim_flying_def Let_def)
  with True dbl_add_nearest [OF literal_values(21) dbl_within_simps(1) [OF agl]]
    within_bounds_threshold [of 250 265 "250 + dbl_real (altitude_agl (fst (update_simulation env t)))"] dbl_within_simps [OF agl]
  show ?thesis by simp
next
  case False
  have "altitude_wgs84 (fst (update_simulation env t)) = dlit 250 1"
    "altitude_agl (fst (update_simulation env t)) = qMax (dlit 0 1) (dbl_sub (altitude_agl t) (dlit 1 1))"
    using False by (simp_all add: update_simulation_def sim_grounded_def Let_def)
  moreover have "dbl_within 1 15 (dbl_sub (altitude_agl t) (dlit 1 1))"
    using dbl_within_simps [OF assms] by (intro sub_within) simp_all
  from qMax_within(1) [OF _ this, of 0 0 "dlit 0 1"]
  have "dbl_within 1 15 (qMax (dlit 0 1) (dbl_sub (altitude_agl t) (dlit 1 1)))" by (simp add: dbl_within_def)
  ultimately show ?thesis using False by (simp add: dbl_within_def)
qed

theorem altitudes_agree_in_the_air_only_witness:
  "altitude_wgs84 (fst (update_simulation still_env (new_telemetry\<lparr>altitude_agl := dlit 15 1\<rparr>))) = dlit 250 1"
  using altitudes_agree_in_the_air_only [of "new_telemetry\<lparr>altitude_agl := dlit 15 1\<rparr>" still_env]
  by (simp add: dbl_within_def) (simp add: new_telemetry_def)

end
