(* ===== verification/Telemetry_Position.thy ===== *)
theory Telemetry_Position
  imports Telemetry_Envelope
begin

text \<open>
  The position the ground station displays (\<open>m_latitude\<close> and \<open>m_longitude\<close> of
  src/frontend/qt-desktop-gcs/src/TelemetryController.cpp). Every tick in the air adds a sine or
  cosine times 0.00002 to it, so it is the one displayed quantity without a fixed range: it is
  bounded by the number of ticks.
\<close>

lemma tick_position:
  defines "t' \<equiv> \<lambda>env t. fst (update_simulation env t)"
    and "phase \<equiv> \<lambda>t. dbl_mul (dbl_add (sim_step t) (dlit 1 10)) (dlit 5 100)"
  shows "latitude (t' env t) =
      (if armed t then dbl_add (latitude t) (dbl_mul (env_cos env (phase t)) (dlit 2 100000)) else latitude t)"
    and "longitude (t' env t) =
      (if armed t then dbl_add (longitude t) (dbl_mul (env_sin env (phase t)) (dlit 2 100000)) else longitude t)"
  by (simp_all add: t'_def phase_def update_simulation_def sim_flying_def sim_grounded_def Let_def)

text \<open>One step along a coordinate: 0.00002 at most, and the rounding of the sum.\<close>

lemma coordinate_step:
  assumes "dbl_within (- 250) 250 p" "dbl_within (- 1) 1 s"
  shows "dbl_finite (dbl_add p (dbl_mul s (dlit 2 100000)))"
    and "\<bar>dbl_real (dbl_add p (dbl_mul s (dlit 2 100000))) - dbl_real p\<bar> \<le> 21 / 10 ^ 6"
proof -
  define d where "d = dbl_mul s (dlit 2 100000)"
  have d: "dbl_finite d" "\<bar>dbl_real d\<bar> \<le> 5902958103587057 / 295147905179352825856"
    using swing_within [OF assms(2), of "dlit 2 100000"] unfolding abs_le_iff d_def by (simp_all add: dbl_within_def)
  note p = dbl_within_simps [OF assms(1)]
  have "\<bar>dbl_real d\<bar> \<le> 1" by (rule order_trans [OF d(2)]) simp
  then have sum: "\<bar>dbl_real p + dbl_real d\<bar> < 256" using p by linarith
  have small: "\<bar>dbl_real p + dbl_real d\<bar> < overflow_threshold"
    by (rule within_bounds_threshold [of "- 360" 360]) (use sum in \<open>simp_all add: abs_less_iff\<close>)
  show "dbl_finite (dbl_add p (dbl_mul s (dlit 2 100000)))"
    using dbl_add_nearest [OF p(1) d(1) small] nearest_finite by (simp add: d_def)
  have "\<bar>dbl_real (dbl_add p d) - (dbl_real p + dbl_real d)\<bar> \<le> pow2 (8 - 54)"
    using sum by (intro add_error p(1) d(1) small) simp_all
  from abs_le_trans [OF this, of "dbl_real p" "5902958103587057 / 295147905179352825856"] d(2)
  have "\<bar>dbl_real (dbl_add p d) - dbl_real p\<bar> \<le> pow2 (8 - 54) + 5902958103587057 / 295147905179352825856" by simp
  then show "\<bar>dbl_real (dbl_add p (dbl_mul s (dlit 2 100000))) - dbl_real p\<bar> \<le> 21 / 10 ^ 6"
    unfolding d_def by (rule order_trans) (simp add: power_int_minus_divide)
qed

fun writes_position :: "gcs_op \<Rightarrow> bool" where
  "writes_position (Set_latitude v) = True"
| "writes_position (Set_longitude v) = True"
| "writes_position op = False"

lemma position_kept:
  assumes "\<not> writes_position op" "\<forall>env. op \<noteq> Tick env"
  shows "latitude (fst (telemetry_step op t)) = latitude t" "longitude (fst (telemetry_step op t)) = longitude t"
  using assms by (cases op; simp add: telemetry_setters telemetry_commands Let_def)+

lemma position_step:
  assumes "envelope t" "sane_op op" "\<not> writes_position op"
    and "dbl_within (- 250) 250 (latitude t)" "dbl_within (- 250) 250 (longitude t)"
  defines "t' \<equiv> fst (telemetry_step op t)"
  shows "dbl_finite (latitude t') \<and> dbl_finite (longitude t') \<and>
     \<bar>dbl_real (latitude t') - dbl_real (latitude t)\<bar> \<le> 21 / 10 ^ 6 \<and>
     \<bar>dbl_real (longitude t') - dbl_real (longitude t)\<bar> \<le> 21 / 10 ^ 6"
proof (cases "\<exists>env. op = Tick env")
  case True
  then obtain env where op: "op = Tick env" by blast
  have "dbl_within 0 9007199254740992 (dbl_add (sim_step t) (dlit 1 10))"
    using clock_step [of "sim_step t"] assms(1) by (simp add: envelope_def)
  from sin_within [OF _ this, of env "dlit 5 100"] assms(2) op
  have "dbl_within (- 1) 1 (env_sin env (dbl_mul (dbl_add (sim_step t) (dlit 1 10)) (dlit 5 100)))"
    "dbl_within (- 1) 1 (env_cos env (dbl_mul (dbl_add (sim_step t) (dlit 1 10)) (dlit 5 100)))" by simp_all
  then show ?thesis
    using coordinate_step [OF assms(4)] coordinate_step [OF assms(5)] dbl_within_simps(1) [OF assms(4)] dbl_within_simps(1) [OF assms(5)]
    by (simp add: t'_def op tick_position)
next
  case False
  then show ?thesis
    using position_kept [OF assms(3)] assms(4,5) by (simp add: t'_def dbl_within_def)
qed

text \<open>
  The displayed position moves slowly: over up to a million operations (twenty-eight hours of
  ticks alone) with no write to it, latitude and longitude stay finite and each operation moves
  either of them by at most 0.000021 degrees.
\<close>

theorem position_moves_slowly:
  assumes "\<forall>op \<in> set ops. sane_op op \<and> \<not> writes_position op" "length ops \<le> 1000000"
    and "envelope t" "dbl_within (- 180) 180 (latitude t)" "dbl_within (- 180) 180 (longitude t)"
  defines "t' \<equiv> fold (\<lambda>op t. fst (telemetry_step op t)) ops t"
  shows "dbl_finite (latitude t') \<and> dbl_finite (longitude t') \<and>
     \<bar>dbl_real (latitude t') - dbl_real (latitude t)\<bar> \<le> real (length ops) * (21 / 10 ^ 6) \<and>
     \<bar>dbl_real (longitude t') - dbl_real (longitude t)\<bar> \<le> real (length ops) * (21 / 10 ^ 6)"
  unfolding t'_def using assms(1,2)
proof (induction ops rule: rev_induct)
  case Nil
  then show ?case using assms(4,5) by (simp add: dbl_within_def)
next
  case (snoc op ops)
  define u where "u = fold (\<lambda>op t. fst (telemetry_step op t)) ops t"
  have ops: "\<forall>op \<in> set ops. sane_op op \<and> \<not> writes_position op" "sane_op op" "\<not> writes_position op" "length ops \<le> 1000000"
    using snoc.prems by auto
  have u: "dbl_finite (latitude u)" "dbl_finite (longitude u)"
    "\<bar>dbl_real (latitude u) - dbl_real (latitude t)\<bar> \<le> real (length ops) * (21 / 10 ^ 6)"
    "\<bar>dbl_real (longitude u) - dbl_real (longitude t)\<bar> \<le> real (length ops) * (21 / 10 ^ 6)"
    using snoc.IH ops(1,4) by (simp_all add: u_def)
  have "real (length ops) * (21 / 10 ^ 6) \<le> 1000000 * (21 / 10 ^ 6)" using ops(4) by (intro mult_right_mono) simp_all
  then have "real (length ops) * (21 / 10 ^ 6) \<le> 21" by simp
  from order_trans [OF u(3) this] order_trans [OF u(4) this]
  have "dbl_within (- 250) 250 (latitude u)" "dbl_within (- 250) 250 (longitude u)"
    using u(1,2) assms(4,5) by (simp_all add: dbl_within_def abs_le_iff)
  moreover have "envelope u"
    unfolding u_def using ops(1) assms(3) by (induction ops arbitrary: t) (simp_all add: envelope_step)
  ultimately have s: "dbl_finite (latitude (fst (telemetry_step op u)))" "dbl_finite (longitude (fst (telemetry_step op u)))"
    "\<bar>dbl_real (latitude (fst (telemetry_step op u))) - dbl_real (latitude u)\<bar> \<le> 21 / 10 ^ 6"
    "\<bar>dbl_real (longitude (fst (telemetry_step op u))) - dbl_real (longitude u)\<bar> \<le> 21 / 10 ^ 6"
    using position_step [of u op] ops(2,3) by simp_all
  show ?case
    using s(1,2) abs_le_trans [OF s(3) u(3)] abs_le_trans [OF s(4) u(4)] by (simp add: u_def distrib_right)
qed

lemma start_position: "dbl_within 28 29 (latitude new_telemetry)" "dbl_within 77 78 (longitude new_telemetry)"
proof -
  have "dlit 284595 10000 = 0x403C75A1CAC08312" "dlit 770266 10000 = 0x405341B3D07C84B6"
    by (simp_all add: dlit_def dbl_pack_def round_dbl_def floor_log_frac_def floor_log_nat.simps
        div_half_even_def Let_def)
  then show "dbl_within 28 29 (latitude new_telemetry)" "dbl_within 77 78 (longitude new_telemetry)"
    by (simp_all add: new_telemetry_def dbl_within_def dbl_fields)
qed

theorem position_moves_slowly_witness:
  "\<bar>dbl_real (latitude (fold (\<lambda>op t. fst (telemetry_step op t)) [Arm, Tick still_env, Tick still_env] new_telemetry)) -
    dbl_real (latitude new_telemetry)\<bar> \<le> 3 * (21 / 10 ^ 6)"
  using position_moves_slowly [of "[Arm, Tick still_env, Tick still_env]" new_telemetry]
    start_position [THEN dbl_within_mono, of "- 180" 180] envelope_new still_env_sane by simp

end
