(* ===== verification/Shell.thy ===== *)
theory Shell
  imports Prelude
begin

text \<open>
  The shell of the ground control station: the panel registry (core/PanelRegistry), the
  workspace manager (core/WorkspaceManager) and the wiring of both in main.cpp, all under
  src/frontend/qt-desktop-gcs/src. A \<open>QVariantMap\<close> is a map ordered by key.
\<close>

section \<open>Panels\<close>

record panel_definition =
  pd_id :: string
  pd_title :: string
  pd_source :: string
  pd_min_width :: int
  pd_min_height :: int

datatype variant = VString string | VInt int | VStrings "string list"

type_synonym variant_map = "(string \<times> variant) list"

definition register_panel :: "panel_definition \<Rightarrow> panel_definition list \<Rightarrow> panel_definition list" where
  "register_panel def panels = panels @ [def]"

definition panel_ids :: "panel_definition list \<Rightarrow> string list" where
  "panel_ids panels = map pd_id panels"

definition variant_map :: "(string \<times> variant) list \<Rightarrow> variant_map" where
  "variant_map kvs = fold (\<lambda>(k, v). om_put k v) kvs []"

fun panel :: "panel_definition list \<Rightarrow> string \<Rightarrow> variant_map" where
  "panel [] pid = []"
| "panel (p # ps) pid =
     (if pd_id p = pid
      then variant_map [(''id'', VString (pd_id p)), (''title'', VString (pd_title p)),
                        (''source'', VString (pd_source p)), (''minWidth'', VInt (pd_min_width p)),
                        (''minHeight'', VInt (pd_min_height p))]
      else panel ps pid)"

section \<open>Workspaces\<close>

record workspace_column =
  wc_panels :: "string list"
  wc_stretch :: int

record workspace =
  ws_name :: string
  ws_columns :: "workspace_column list"

record workspace_manager =
  workspaces :: "workspace list"
  current_index :: int

definition new_workspace_manager :: workspace_manager where
  "new_workspace_manager = \<lparr>workspaces = [], current_index = 0\<rparr>"

definition add_workspace :: "workspace \<Rightarrow> workspace_manager \<Rightarrow> workspace_manager" where
  "add_workspace ws wm = wm\<lparr>workspaces := workspaces wm @ [ws]\<rparr>"

definition workspace_names :: "workspace_manager \<Rightarrow> string list" where
  "workspace_names wm = map ws_name (workspaces wm)"

text \<open>The new state and whether \<open>currentIndexChanged\<close> was emitted.\<close>

definition set_current_index :: "int \<Rightarrow> workspace_manager \<Rightarrow> workspace_manager \<times> bool" where
  "set_current_index index wm =
     (if index < 0 \<or> int (length (workspaces wm)) \<le> index \<or> index = current_index wm then (wm, False)
      else (wm\<lparr>current_index := index\<rparr>, True))"

definition current_layout :: "workspace_manager \<Rightarrow> variant_map list" where
  "current_layout wm =
     (if current_index wm < 0 \<or> int (length (workspaces wm)) \<le> current_index wm then []
      else map (\<lambda>col. variant_map [(''panels'', VStrings (wc_panels col)), (''stretch'', VInt (wc_stretch col))])
             (ws_columns (workspaces wm ! nat (current_index wm))))"

section \<open>Wiring\<close>

definition register_panels :: "panel_definition list \<Rightarrow> panel_definition list" where
  "register_panels panels =
     register_panel \<lparr>pd_id = ''map'', pd_title = ''MAP'', pd_source = ''components/MapView.qml'',
                     pd_min_width = 400, pd_min_height = 320\<rparr>
    (register_panel \<lparr>pd_id = ''compliance'', pd_title = ''PRE-FLIGHT COMPLIANCE'',
                     pd_source = ''views/compliance/ComplianceView.qml'', pd_min_width = 360, pd_min_height = 320\<rparr>
    (register_panel \<lparr>pd_id = ''mission'', pd_title = ''MISSION'', pd_source = ''views/mission/MissionView.qml'',
                     pd_min_width = 400, pd_min_height = 320\<rparr>
    (register_panel \<lparr>pd_id = ''flight'', pd_title = ''FLIGHT TELEMETRY'',
                     pd_source = ''views/telemetry/TelemetryView.qml'', pd_min_width = 480, pd_min_height = 320\<rparr>
     panels)))"

definition register_workspaces :: "workspace_manager \<Rightarrow> workspace_manager" where
  "register_workspaces wm =
     add_workspace \<lparr>ws_name = ''REVIEW'',
                    ws_columns = [\<lparr>wc_panels = [''compliance''], wc_stretch = 1\<rparr>,
                                  \<lparr>wc_panels = [''flight''], wc_stretch = 2\<rparr>]\<rparr>
    (add_workspace \<lparr>ws_name = ''FLIGHT OPS'',
                    ws_columns = [\<lparr>wc_panels = [''flight''], wc_stretch = 3\<rparr>,
                                  \<lparr>wc_panels = [''map''], wc_stretch = 2\<rparr>,
                                  \<lparr>wc_panels = [''mission'', ''compliance''], wc_stretch = 2\<rparr>]\<rparr> wm)"

text \<open>\<open>hasFlag\<close> looks at the arguments after the program name.\<close>

definition has_flag :: "string list \<Rightarrow> string \<Rightarrow> bool" where
  "has_flag argv flag = list_ex (\<lambda>a. a = flag) (drop 1 argv)"

section \<open>Properties\<close>

lemma variant_map_lookup: "map_of (variant_map kvs) k = map_of (rev kvs) k"
  unfolding variant_map_def using om.find_put_all [OF om_sorted_Nil, of kvs k]
  by (simp split: option.splits)

lemma variant_map_nonempty: "variant_map (kv # kvs) \<noteq> []"
proof
  obtain k v where kv: "kv = (k, v)" by (cases kv)
  assume "variant_map (kv # kvs) = []"
  then have "map_of (rev (kv # kvs)) k = None" using variant_map_lookup [of "kv # kvs" k] by simp
  then show False by (simp add: kv map_of_eq_None_iff)
qed

lemma panel_known: "panel panels pid \<noteq> [] \<longleftrightarrow> pid \<in> set (panel_ids panels)"
  by (induction panels pid rule: panel.induct) (auto simp: panel_ids_def variant_map_nonempty)

text \<open>The first panel registered under an id is the one shown for it.\<close>

lemma panel_first_wins:
  "panel (register_panel def panels) pid =
     (if pid \<in> set (panel_ids panels) then panel panels pid else panel [def] pid)"
  by (induction panels) (auto simp: register_panel_def panel_ids_def)

text \<open>
  A layout switch is atomic and notified exactly when it happens: the index changes only
  to an existing workspace and only together with one notification, a refused or repeated
  index changes nothing, so the index is always that of an existing workspace.
\<close>

theorem workspace_switch_is_notified_exactly:
  assumes "set_current_index index wm = (wm', notified)"
    and "0 \<le> current_index wm" and "current_index wm < int (length (workspaces wm))"
  shows "0 \<le> current_index wm' \<and> current_index wm' < int (length (workspaces wm')) \<and>
         (notified \<longleftrightarrow> current_index wm' \<noteq> current_index wm) \<and>
         (\<not> notified \<longrightarrow> wm' = wm) \<and> workspaces wm' = workspaces wm"
  using assms by (auto simp: set_current_index_def split: if_splits)

theorem workspace_switch_is_notified_exactly_witness:
  "current_index (fst (set_current_index 1 (register_workspaces new_workspace_manager))) < 2"
  using workspace_switch_is_notified_exactly
    [where index = 1 and wm = "register_workspaces new_workspace_manager", OF prod.collapse [symmetric]]
  by (simp add: register_workspaces_def add_workspace_def new_workspace_manager_def set_current_index_def)

definition layout_panels :: "variant_map list \<Rightarrow> string list" where
  "layout_panels layout =
     concat (map (\<lambda>col. case map_of col ''panels'' of Some (VStrings ids) \<Rightarrow> ids | _ \<Rightarrow> []) layout)"

lemma column_panels:
  "map_of (variant_map [(''panels'', VStrings ids), (''stretch'', VInt n)]) ''panels'' = Some (VStrings ids)"
  by (simp add: variant_map_lookup)

lemma switches_index:
  "0 \<le> current_index wm \<Longrightarrow> current_index wm < int (length (workspaces wm)) \<Longrightarrow>
   let wm' = fold (\<lambda>i wm. fst (set_current_index i wm)) indexes wm in
   workspaces wm' = workspaces wm \<and> 0 \<le> current_index wm' \<and> current_index wm' < int (length (workspaces wm))"
proof (induction indexes arbitrary: wm)
  case Nil
  then show ?case by simp
next
  case (Cons i indexes)
  have "workspaces (fst (set_current_index i wm)) = workspaces wm"
    "0 \<le> current_index (fst (set_current_index i wm))"
    "current_index (fst (set_current_index i wm)) < int (length (workspaces wm))"
    using Cons.prems by (auto simp: set_current_index_def)
  then show ?case using Cons.IH [of "fst (set_current_index i wm)"] by (simp add: Let_def)
qed

text \<open>
  The shell as wired never shows a placeholder: after any sequence of workspace
  switches, with any indices, the layout has a column, and every panel it names is a
  registered panel.
\<close>

theorem wired_layouts_name_registered_panels:
  "let wm = fold (\<lambda>i wm. fst (set_current_index i wm)) indexes (register_workspaces new_workspace_manager)
   in layout_panels (current_layout wm) \<noteq> [] \<and>
      list_all (\<lambda>pid. panel (register_panels []) pid \<noteq> []) (layout_panels (current_layout wm))"
proof -
  define wm where "wm = fold (\<lambda>i wm. fst (set_current_index i wm)) indexes (register_workspaces new_workspace_manager)"
  have start: "0 \<le> current_index (register_workspaces new_workspace_manager)"
    "length (workspaces (register_workspaces new_workspace_manager)) = 2"
    by (simp_all add: register_workspaces_def add_workspace_def new_workspace_manager_def)
  have "workspaces wm = workspaces (register_workspaces new_workspace_manager)"
    "0 \<le> current_index wm" "current_index wm < 2"
    using switches_index [of "register_workspaces new_workspace_manager" indexes] start
    by (simp_all add: wm_def Let_def register_workspaces_def add_workspace_def new_workspace_manager_def)
  moreover from this(2,3) have "current_index wm = 0 \<or> current_index wm = 1" by linarith
  ultimately have "layout_panels (current_layout wm) \<in>
      {[''flight'', ''map'', ''mission'', ''compliance''], [''compliance'', ''flight'']}"
    by (auto simp: current_layout_def layout_panels_def column_panels register_workspaces_def add_workspace_def
        new_workspace_manager_def)
  then have "layout_panels (current_layout wm) \<noteq> [] \<and>
      list_all (\<lambda>pid. panel (register_panels []) pid \<noteq> []) (layout_panels (current_layout wm))"
    unfolding panel_known
    by (auto simp: register_panels_def register_panel_def panel_ids_def)
  then show ?thesis unfolding wm_def Let_def .
qed

end
