(* ===== verification/Gcs_Properties.thy ===== *)
theory Gcs_Properties
  imports Telemetry
begin

text \<open>
  The properties the telemetry controller exposes to the display (the \<open>Q_PROPERTY\<close>
  declarations, getters and setters of TelemetryController.h): their types, their accessors
  and the signal that announces a change. A display that binds to a property reads it again
  when its signal is emitted, and only then.
\<close>

section \<open>The table\<close>

datatype qproperty =
    P_latitude | P_longitude | P_altitudeWGS84 | P_altitudeAGL | P_satellites | P_groundSpeed
  | P_roll | P_pitch | P_yaw | P_batteryVoltage | P_batteryRemaining
  | P_e2eeEnabled | P_fhssSyncActive | P_fhssChannel | P_signalJamming | P_spoofingState
  | P_readyToFly | P_statusMessage | P_cpuLoad

datatype qtype = TDouble | TInt | TBool | TString
datatype qvalue = QDouble double | QInt int | QBool bool | QString string

fun value_type :: "qvalue \<Rightarrow> qtype" where
  "value_type (QDouble v) = TDouble"
| "value_type (QInt v) = TInt"
| "value_type (QBool v) = TBool"
| "value_type (QString v) = TString"

definition property_type :: "qproperty \<Rightarrow> qtype" where
  "property_type p =
     (if p \<in> {P_satellites, P_fhssChannel, P_signalJamming} then TInt
      else if p \<in> {P_e2eeEnabled, P_fhssSyncActive, P_readyToFly} then TBool
      else if p \<in> {P_spoofingState, P_statusMessage} then TString
      else TDouble)"

fun read_property :: "qproperty \<Rightarrow> telemetry \<Rightarrow> qvalue" where
  "read_property P_latitude t = QDouble (latitude t)"
| "read_property P_longitude t = QDouble (longitude t)"
| "read_property P_altitudeWGS84 t = QDouble (altitude_wgs84 t)"
| "read_property P_altitudeAGL t = QDouble (altitude_agl t)"
| "read_property P_satellites t = QInt (satellites t)"
| "read_property P_groundSpeed t = QDouble (ground_speed t)"
| "read_property P_roll t = QDouble (roll t)"
| "read_property P_pitch t = QDouble (pitch t)"
| "read_property P_yaw t = QDouble (yaw t)"
| "read_property P_batteryVoltage t = QDouble (battery_voltage t)"
| "read_property P_batteryRemaining t = QDouble (battery_remaining t)"
| "read_property P_e2eeEnabled t = QBool (e2ee_enabled t)"
| "read_property P_fhssSyncActive t = QBool (fhss_sync_active t)"
| "read_property P_fhssChannel t = QInt (fhss_channel t)"
| "read_property P_signalJamming t = QInt (signal_jamming t)"
| "read_property P_spoofingState t = QString (spoofing_state t)"
| "read_property P_readyToFly t = QBool (ready_to_fly t)"
| "read_property P_statusMessage t = QString (status_message t)"
| "read_property P_cpuLoad t = QDouble (cpu_load t)"

text \<open>
  The setter a write calls, for a value of the property's type; \<open>None\<close> for a property without
  \<open>WRITE\<close>. (Qt converts values of other types before; the setters are typed.)
\<close>

fun write_property :: "qproperty \<Rightarrow> qvalue \<Rightarrow> telemetry \<Rightarrow> (telemetry \<times> gcs_signal list) option" where
  "write_property P_latitude (QDouble v) t = Some (set_latitude v t)"
| "write_property P_longitude (QDouble v) t = Some (set_longitude v t)"
| "write_property P_altitudeWGS84 (QDouble v) t = Some (set_altitude_wgs84 v t)"
| "write_property P_altitudeAGL (QDouble v) t = Some (set_altitude_agl v t)"
| "write_property P_satellites (QInt n) t = Some (set_satellites n t)"
| "write_property P_groundSpeed (QDouble v) t = Some (set_ground_speed v t)"
| "write_property P_roll (QDouble v) t = Some (set_roll v t)"
| "write_property P_pitch (QDouble v) t = Some (set_pitch v t)"
| "write_property P_yaw (QDouble v) t = Some (set_yaw v t)"
| "write_property P_batteryVoltage (QDouble v) t = Some (set_battery_voltage v t)"
| "write_property P_batteryRemaining (QDouble v) t = Some (set_battery_remaining v t)"
| "write_property P_e2eeEnabled (QBool b) t = Some (set_e2ee_enabled b t)"
| "write_property P_fhssSyncActive (QBool b) t = Some (set_fhss_sync_active b t)"
| "write_property P_fhssChannel (QInt n) t = Some (set_fhss_channel n t)"
| "write_property P_signalJamming (QInt n) t = Some (set_signal_jamming n t)"
| "write_property P_spoofingState (QString s) t = Some (set_spoofing_state s t)"
| "write_property P_cpuLoad (QDouble v) t = Some (set_cpu_load v t)"
| "write_property _ _ t = None"

definition notify_signal :: "qproperty \<Rightarrow> gcs_signal" where
  "notify_signal p =
     (if p \<in> {P_e2eeEnabled, P_fhssSyncActive, P_fhssChannel} then SecurityChanged
      else if p \<in> {P_signalJamming, P_spoofingState} then RfHealthChanged
      else if p \<in> {P_readyToFly, P_statusMessage, P_cpuLoad} then DiagnosticsChanged
      else TelemetryChanged)"

definition computed :: "qproperty \<Rightarrow> bool" where
  "computed p \<longleftrightarrow> p = P_readyToFly \<or> p = P_statusMessage"

text \<open>When a setter takes the new value for the one it has.\<close>

fun same_value :: "qvalue \<Rightarrow> qvalue \<Rightarrow> bool" where
  "same_value (QDouble a) (QDouble b) = qFuzzyCompare a b"
| "same_value a b = (a = b)"

section \<open>Observable properties\<close>

text \<open>
  The contract of a property: reading gives the value written, unless that counts as the value
  it had; then nothing changes and nothing is announced, otherwise its signal is among those
  announced. \<open>ok\<close> are the values it can hold.
\<close>

locale observable_property =
  fixes get :: "'s \<Rightarrow> 'v"
    and put :: "'v \<Rightarrow> 's \<Rightarrow> 's \<times> 'n list"
    and same :: "'v \<Rightarrow> 'v \<Rightarrow> bool"
    and ok :: "'v \<Rightarrow> bool"
    and sig :: 'n
  assumes get_put: "ok v \<Longrightarrow> \<not> same (get s) v \<Longrightarrow> get (fst (put v s)) = v"
    and put_same: "ok v \<Longrightarrow> same (get s) v \<Longrightarrow> put v s = (s, [])"
    and put_notes: "ok v \<Longrightarrow> \<not> same (get s) v \<Longrightarrow> sig \<in> set (snd (put v s))"
begin

lemma silent_put_changes_nothing: "ok v \<Longrightarrow> snd (put v s) = [] \<Longrightarrow> fst (put v s) = s"
  using put_same [of v s] put_notes [of v s] by fastforce

lemma put_twice: "ok v \<Longrightarrow> same v v \<Longrightarrow> put v (fst (put v s)) = (fst (put v s), [])"
  using get_put [of v s] put_same [of v s] put_same [of v "fst (put v s)"] by (cases "same (get s) v") auto

lemma announced_iff: "ok v \<Longrightarrow> sig \<in> set (snd (put v s)) \<longleftrightarrow> \<not> same (get s) v"
  using put_same [of v s] put_notes [of v s] by auto

end

definition put_property :: "qproperty \<Rightarrow> qvalue \<Rightarrow> telemetry \<Rightarrow> telemetry \<times> gcs_signal list" where
  "put_property p v t = (case write_property p v t of Some r \<Rightarrow> r | None \<Rightarrow> (t, []))"

interpretation gcs: observable_property "read_property p" "put_property p" same_value
    "\<lambda>v. value_type v = property_type p \<and> \<not> computed p" "notify_signal p" for p
proof unfold_locales
  fix v t
  assume ok: "value_type v = property_type p \<and> \<not> computed p"
  show "\<not> same_value (read_property p t) v \<Longrightarrow> read_property p (fst (put_property p v t)) = v"
    using ok by (cases p; cases v) (simp_all add: put_property_def property_type_def computed_def telemetry_setters)
  show "same_value (read_property p t) v \<Longrightarrow> put_property p v t = (t, [])"
    using ok by (cases p; cases v) (simp_all add: put_property_def property_type_def computed_def telemetry_setters)
  show "\<not> same_value (read_property p t) v \<Longrightarrow> notify_signal p \<in> set (snd (put_property p v t))"
    using ok by (cases p; cases v)
      (simp_all add: put_property_def property_type_def computed_def telemetry_setters notify_signal_def)
qed

lemma read_property_type: "value_type (read_property p t) = property_type p"
  by (cases p) (simp_all add: property_type_def)

lemma write_property_typed:
  "write_property p v t \<noteq> None \<longleftrightarrow> \<not> computed p \<and> value_type v = property_type p"
  by (cases p; cases v) (simp_all add: property_type_def computed_def)

text \<open>The stored property a setter is for, and that no other stored property depends on it.\<close>

lemma write_property_frame:
  "write_property p v t = Some (t', sigs) \<Longrightarrow> q \<noteq> p \<Longrightarrow> \<not> computed q \<Longrightarrow> read_property q t' = read_property q t"
  by (cases p; cases v; simp add: telemetry_setters split: if_splits; cases q; auto simp: computed_def)



section \<open>Stale displays\<close>

text \<open>An operation leaves a property stale: it reads differently and its signal was not emitted.\<close>

definition goes_stale :: "gcs_op \<Rightarrow> qproperty \<Rightarrow> telemetry \<Rightarrow> bool" where
  "goes_stale op p t \<longleftrightarrow>
     read_property p (fst (telemetry_step op t)) \<noteq> read_property p t \<and>
     notify_signal p \<notin> set (snd (telemetry_step op t))"

fun stale_after :: "gcs_op \<Rightarrow> qproperty set" where
  "stale_after (Set_satellites n) = {P_readyToFly, P_statusMessage}"
| "stale_after (Set_battery_remaining v) = {P_readyToFly, P_statusMessage}"
| "stale_after (Tick env) = {P_signalJamming, P_spoofingState}"
| "stale_after Toggle_jamming = {P_satellites, P_e2eeEnabled, P_fhssSyncActive}"
| "stale_after Abort = {P_altitudeAGL, P_groundSpeed}"
| "stale_after _ = {}"

lemma tick_security:
  "security_view (fst (update_simulation env t)) \<noteq> security_view t \<Longrightarrow>
   SecurityChanged \<in> set (snd (update_simulation env t))"
  by (auto simp: update_simulation_def sim_flying_def sim_grounded_def security_view_def Let_def split: if_splits)

lemma tick_always: "{TelemetryChanged, DiagnosticsChanged} \<subseteq> set (snd (update_simulation env t))"
  by (auto simp: update_simulation_def Let_def)

lemma stale_after_tick: "goes_stale (Tick env) p t \<Longrightarrow> p \<in> stale_after (Tick env)"
  using tick_security [of env t] tick_always [of env t]
  by (cases p) (auto simp: goes_stale_def notify_signal_def security_view_def)

lemma diagnostics_view_properties:
  "diagnostics_view t' = diagnostics_view t \<Longrightarrow> p \<in> {P_readyToFly, P_statusMessage, P_cpuLoad} \<Longrightarrow>
   read_property p t' = read_property p t"
  by (auto simp: diagnostics_view_def)

lemma read_computed: "computed p \<Longrightarrow> diagnostics_view t' = diagnostics_view t \<Longrightarrow> read_property p t' = read_property p t"
  by (auto simp: computed_def diagnostics_view_def)

lemma stored_stale:
  assumes "goes_stale op p t" "\<not> computed p" "\<forall>env. op \<noteq> Tick env"
  shows "p \<in> stale_after op"
  using assms
  by (cases op; simp add: goes_stale_def telemetry_setters telemetry_commands Let_def split: if_splits;
      cases p; simp add: notify_signal_def computed_def split: if_splits)

lemma silent_diagnostics:
  "diagnostics_view (fst (telemetry_step op t)) = diagnostics_view t \<or>
   DiagnosticsChanged \<in> set (snd (telemetry_step op t)) \<or>
   (\<exists>env. op = Tick env) \<or> (\<exists>n. op = Set_satellites n) \<or> (\<exists>v. op = Set_battery_remaining v)"
  by (cases op) (simp_all add: telemetry_setters telemetry_commands Let_def)

lemma computed_stale:
  assumes "goes_stale op p t" "computed p" "\<forall>env. op \<noteq> Tick env"
  shows "p \<in> stale_after op"
proof -
  have sig: "notify_signal p = DiagnosticsChanged" and p: "p \<in> {P_readyToFly, P_statusMessage}"
    using assms(2) by (auto simp: computed_def notify_signal_def)
  have "diagnostics_view (fst (telemetry_step op t)) \<noteq> diagnostics_view t"
    using read_computed [OF assms(2)] assms(1) unfolding goes_stale_def by blast
  moreover have "DiagnosticsChanged \<notin> set (snd (telemetry_step op t))"
    using assms(1) unfolding goes_stale_def sig by blast
  ultimately have "(\<exists>n. op = Set_satellites n) \<or> (\<exists>v. op = Set_battery_remaining v)"
    using silent_diagnostics [of op t] assms(3) by blast
  then show ?thesis using p by auto
qed

lemma stale_only_there: "goes_stale op p t \<Longrightarrow> p \<in> stale_after op"
  using stored_stale [of op p t] computed_stale [of op p t] stale_after_tick [of _ p t] by blast

text \<open>The states in which they do go stale.\<close>

definition grounded_link :: telemetry where
  "grounded_link = new_telemetry\<lparr>simulated_jamming := True, satellites := 3, e2ee_enabled := False,
     fhss_sync_active := False, altitude_agl := dlit 15 1, ground_speed := dlit 15 1\<rparr>"

lemma dlit_differ: "dlit 15 1 \<noteq> dlit 0 1"
  by (simp add: dlit_def dbl_pack_def round_dbl_def floor_log_frac_def floor_log_nat.simps div_half_even_def Let_def)

lemma satellites_stale:
  assumes "p \<in> {P_readyToFly, P_statusMessage}"
  shows "\<exists>t. goes_stale (Set_satellites n) p t"
proof (cases "n < 6")
  case True
  then have "goes_stale (Set_satellites n) p new_telemetry"
    using assms new_telemetry_ready
    by (auto simp: goes_stale_def notify_signal_def set_satellites_def ready_to_fly_def status_message_def
        msg_ready_def msg_active_def red_circle_def green_circle_def new_telemetry_def)
  then show ?thesis by blast
next
  case False
  then have "goes_stale (Set_satellites n) p (new_telemetry\<lparr>satellites := 5\<rparr>)"
    using assms new_telemetry_ready
    by (auto simp: goes_stale_def notify_signal_def set_satellites_def ready_to_fly_def status_message_def
        msg_ready_def msg_active_def red_circle_def green_circle_def new_telemetry_def)
  then show ?thesis by blast
qed

lemma tick_stale:
  assumes "p \<in> {P_signalJamming, P_spoofingState}"
  shows "\<exists>t. goes_stale (Tick env) p t"
proof -
  let ?t = "new_telemetry\<lparr>signal_jamming := rnd_noise env + 1, spoofing_state := ''SPOOFING''\<rparr>"
  have grounded: "\<not> armed (?t\<lparr>sim_step := s\<rparr>)" for s by (simp add: new_telemetry_def)
  have keep: "simulated_jamming (sim_grounded env u) = simulated_jamming u" for u
    by (simp add: sim_grounded_def Let_def)
  have calm: "\<not> simulated_jamming (?t\<lparr>sim_step := s\<rparr>)" for s by (simp add: new_telemetry_def)
  have "signal_jamming (fst (update_simulation env ?t)) = rnd_noise env \<and>
      spoofing_state (fst (update_simulation env ?t)) = ''NO_SPOOFING'' \<and>
      RfHealthChanged \<notin> set (snd (update_simulation env ?t))"
    using grounded calm by (simp add: update_simulation_def keep Let_def)
  then have "goes_stale (Tick env) p ?t" using assms by (auto simp: goes_stale_def notify_signal_def)
  then show ?thesis by blast
qed

lemma commands_stale:
  "p \<in> stale_after Toggle_jamming \<Longrightarrow> goes_stale Toggle_jamming p grounded_link"
  "p \<in> stale_after Abort \<Longrightarrow> goes_stale Abort p grounded_link"
  using dlit_differ
  by (auto simp: goes_stale_def notify_signal_def grounded_link_def toggle_jamming_simulation_def
      abort_mission_def Let_def)

lemma goes_stale_there:
  assumes "p \<in> stale_after op" "\<forall>v. op \<noteq> Set_battery_remaining v"
  shows "\<exists>t. goes_stale op p t"
proof (cases op)
  case (Tick env)
  then show ?thesis using assms tick_stale [of p env] by simp
next
  case (Set_satellites n)
  then show ?thesis using assms satellites_stale [of p n] by simp
next
  case Toggle_jamming
  then show ?thesis using assms commands_stale(1) by blast
next
  case Abort
  then show ?thesis using assms commands_stale(2) by blast
qed (use assms in auto)

text \<open>
  C37. Which displays can go stale, per operation other than a write of the battery level: a
  display bound to a property keeps an old value after an operation (the property reads
  differently and its signal was not emitted) only for the computed verdict after a satellite
  count is set, the interference and spoofing after a tick, the satellites, encryption and
  hopping after the jamming simulation is toggled, and altitude and speed after an abort; and
  in each of these cases there is a state where it does.
\<close>

theorem stale_displays_are_exactly:
  assumes "\<forall>v. op \<noteq> Set_battery_remaining v"
  shows "{p. \<exists>t. goes_stale op p t} = stale_after op"
  using goes_stale_there [OF _ assms] stale_only_there by blast

theorem stale_displays_are_exactly_witness:
  "{p. \<exists>t. goes_stale Abort p t} = {P_altitudeAGL, P_groundSpeed}"
  using stale_displays_are_exactly [of Abort] by simp

end
