(* ===== verification/Slippy_Map.thy ===== *)
theory Slippy_Map
  imports Complex_Main Prelude
begin

text \<open>
  The map of the ground control station (src/frontend/qt-desktop-gcs/src/map): tile
  arithmetic (SlippyMath.h) and the MBTiles image provider (MbtilesProvider). The projection
  is stated over the real numbers, without the rounding of \<open>double\<close>; the integer rows are
  those of the code, \<open>None\<close> where a signed 64-bit result overflows. Qt's number parser, image
  codec and SQLite are arguments of the operations that use them.
\<close>

section \<open>Tiles\<close>

definition tiles_per_axis :: "int \<Rightarrow> int" where
  "tiles_per_axis z = 1 * 2 ^ nat (max 0 (min z 22))"

definition xyz_to_tms_row :: "int \<Rightarrow> int \<Rightarrow> int option" where
  "xyz_to_tms_row xyz_y z =
     (let row = tiles_per_axis z - 1 - xyz_y in if in_i64 row then Some row else None)"

definition lon_lat_to_tile_frac :: "real \<Rightarrow> real \<Rightarrow> int \<Rightarrow> real \<times> real" where
  "lon_lat_to_tile_frac lon_deg lat_deg z =
     (let n = of_int (tiles_per_axis z);
          lat_rad = lat_deg * pi / 180;
          x = (lon_deg + 180) / 360 * n;
          y = (1 - arsinh (tan lat_rad) / pi) / 2 * n
      in (x, y))"

definition tile_frac_to_lon_lat :: "real \<Rightarrow> real \<Rightarrow> int \<Rightarrow> real \<times> real" where
  "tile_frac_to_lon_lat x_frac y_frac z =
     (let n = of_int (tiles_per_axis z);
          lon_deg = x_frac / n * 360 - 180;
          lat_rad = arctan (sinh (pi * (1 - 2 * y_frac / n)));
          lat_deg = lat_rad * 180 / pi
      in (lon_deg, lat_deg))"

lemma tiles_per_axis_bounds: "1 \<le> tiles_per_axis z \<and> tiles_per_axis z \<le> 4194304"
proof -
  have "(2 :: int) ^ nat (max 0 (min z 22)) \<le> 2 ^ 22" by (intro power_increasing) auto
  then show ?thesis by (simp add: tiles_per_axis_def)
qed

text \<open>
  The row flip is an involution on the rows of a zoom level and stays within them, so the
  XYZ and TMS rows of a tile determine each other.
\<close>

theorem tms_row_involution:
  assumes "0 \<le> y" and "y < tiles_per_axis z"
  shows "\<exists>row. xyz_to_tms_row y z = Some row \<and> 0 \<le> row \<and> row < tiles_per_axis z \<and>
           xyz_to_tms_row row z = Some y"
  using assms tiles_per_axis_bounds [of z]
  by (intro exI [of _ "tiles_per_axis z - 1 - y"]) (simp add: xyz_to_tms_row_def in_i64_def)

theorem tms_row_involution_witness:
  "\<exists>row. xyz_to_tms_row 1 2 = Some row \<and> 0 \<le> row \<and> row < tiles_per_axis 2 \<and> xyz_to_tms_row row 2 = Some 1"
  by (rule tms_row_involution) (simp_all add: tiles_per_axis_def)

text \<open>
  The projection and its inverse are inverse to each other at every zoom level: tile
  coordinates come back exactly, and so do longitude and latitude for every latitude
  strictly between the poles.
\<close>

theorem projection_roundtrip:
  assumes "- 90 < lat" and "lat < 90"
  shows "(case tile_frac_to_lon_lat x y z of (lon', lat') \<Rightarrow> lon_lat_to_tile_frac lon' lat' z) = (x, y) \<and>
         (case lon_lat_to_tile_frac lon lat z of (x', y') \<Rightarrow> tile_frac_to_lon_lat x' y' z) = (lon, lat)"
proof -
  have n: "of_int (tiles_per_axis z) \<noteq> (0 :: real)" using tiles_per_axis_bounds [of z] by simp
  have "- 90 * pi < lat * pi" "lat * pi < 90 * pi"
    using mult_strict_right_mono [OF assms(1) pi_gt_zero] mult_strict_right_mono [OF assms(2) pi_gt_zero] by simp_all
  then have range: "- (pi / 2) < lat * pi / 180" "lat * pi / 180 < pi / 2" by simp_all
  have "arctan (tan (lat * pi / 180)) = lat * pi / 180" by (rule arctan_tan) (use range in auto)
  then show ?thesis
    using n by (simp add: lon_lat_to_tile_frac_def tile_frac_to_lon_lat_def Let_def tan_arctan arsinh_sinh_real)
qed

theorem projection_roundtrip_witness:
  "(case lon_lat_to_tile_frac 77 28 3 of (x', y') \<Rightarrow> tile_frac_to_lon_lat x' y' 3) = (77, 28)"
  using projection_roundtrip [where lat = 28 and lon = 77 and z = 3 and x = 0 and y = 0] by simp

text \<open>Longitudes of the globe fall on tiles of the axis.\<close>

lemma projection_x_on_axis:
  assumes "- 180 \<le> lon" and "lon < 180"
  shows "0 \<le> fst (lon_lat_to_tile_frac lon lat z) \<and>
         fst (lon_lat_to_tile_frac lon lat z) < of_int (tiles_per_axis z)"
proof -
  have n: "(0 :: real) < of_int (tiles_per_axis z)" using tiles_per_axis_bounds [of z] by simp
  have "(lon + 180) / 360 < 1" "0 \<le> (lon + 180) / 360" using assms by simp_all
  then have "(lon + 180) / 360 * of_int (tiles_per_axis z) < 1 * of_int (tiles_per_axis z)"
    using n by (intro mult_strict_right_mono)
  then show ?thesis using n assms by (simp add: lon_lat_to_tile_frac_def Let_def)
qed

section \<open>The tile provider\<close>

text \<open>What the provider uses of Qt, and the open database.\<close>

record 'img qt =
  to_int :: "string \<Rightarrow> int option"
  to_longlong :: "string \<Rightarrow> int option"
  load_from_data :: "string \<Rightarrow> 'img"
  is_null :: "'img \<Rightarrow> bool"
  image_size :: "'img \<Rightarrow> int \<times> int"
  new_image :: "int \<Rightarrow> int \<Rightarrow> 'img"
  fill :: "string \<Rightarrow> 'img \<Rightarrow> 'img"
  draw_rect :: "string \<Rightarrow> int \<times> int \<times> int \<times> int \<Rightarrow> 'img \<Rightarrow> 'img"  \<comment> \<open>pen, rectangle\<close>
  draw_text :: "string \<Rightarrow> string \<Rightarrow> 'img \<Rightarrow> 'img"                   \<comment> \<open>pen, text centred in the image\<close>

record mbtiles =
  mb_open :: bool
  mb_tiles :: "int \<Rightarrow> int \<Rightarrow> int \<Rightarrow> string option"
  min_zoom :: int
  max_zoom :: int

text \<open>
  The constructor: whether the file exists, whether the database opens, its tiles, and the
  integer the metadata table gives for a name.
\<close>

definition mbtiles_provider ::
  "bool \<Rightarrow> bool \<Rightarrow> (int \<Rightarrow> int \<Rightarrow> int \<Rightarrow> string option) \<Rightarrow> (string \<Rightarrow> int option) \<Rightarrow> mbtiles" where
  "mbtiles_provider file_exists opens tiles metadata =
     (let closed = \<lparr>mb_open = False, mb_tiles = tiles, min_zoom = 0, max_zoom = 0\<rparr> in
      if \<not> file_exists \<or> \<not> opens then closed
      else closed\<lparr>mb_open := True,
                  min_zoom := (case metadata ''minzoom'' of Some v \<Rightarrow> v | None \<Rightarrow> 0),
                  max_zoom := (case metadata ''maxzoom'' of Some v \<Rightarrow> v | None \<Rightarrow> 0)\<rparr>)"

definition isOpen :: "mbtiles \<Rightarrow> bool" where
  "isOpen mb = mb_open mb"

text \<open>
  The connections Qt knows by name: a provider registers one under a name made from a new
  UUID and its destructor removes it.
\<close>

definition connection_name :: "string \<Rightarrow> string" where
  "connection_name uuid = ''uaop-mbtiles-'' @ uuid"

definition add_connection :: "string \<Rightarrow> string set \<Rightarrow> string set" where
  "add_connection uuid conns = insert (connection_name uuid) conns"

definition destroy_provider :: "string \<Rightarrow> string set \<Rightarrow> string set" where
  "destroy_provider uuid conns = conns - {connection_name uuid}"

definition placeholder_tile :: "'img qt \<Rightarrow> string \<Rightarrow> 'img" where
  "placeholder_tile qt reason =
     (let img = fill qt ''#1A2027'' (new_image qt 256 256);
          pen = ''#5C6773''
      in draw_text qt pen reason (draw_rect qt pen (0, 0, 255, 255) img))"

fun split_slash :: "string \<Rightarrow> string list" where
  "split_slash [] = [[]]"
| "split_slash (c # cs) =
     (if c = CHR ''/'' then [] # split_slash cs
      else case split_slash cs of p # ps \<Rightarrow> (c # p) # ps | [] \<Rightarrow> [[c]])"

definition part :: "string list \<Rightarrow> nat \<Rightarrow> (string \<Rightarrow> int option) \<Rightarrow> int option" where
  "part parts i parse = (if i < length parts then parse (parts ! i) else None)"

text \<open>The image and the size reported; \<open>None\<close> where the row computation overflows.\<close>

definition request_image :: "'img qt \<Rightarrow> mbtiles \<Rightarrow> string \<Rightarrow> ('img \<times> (int \<times> int)) option" where
  "request_image qt mb ident =
     (let parts = split_slash ident in
      case (part parts 0 (to_int qt), part parts 1 (to_longlong qt), part parts 2 (to_longlong qt)) of
        (Some z, Some x, Some y) \<Rightarrow>
          if \<not> mb_open mb
          then (let ph = placeholder_tile qt ''map data unavailable'' in Some (ph, image_size qt ph))
          else
            (case xyz_to_tms_row y z of
               None \<Rightarrow> None
             | Some tms_row \<Rightarrow>
                 let no_tile = placeholder_tile qt
                       (''no tile'' @ [CHR 0x0A] @ ''z'' @ dec_int z @ ''/'' @ dec_int x @ ''/'' @ dec_int y);
                     img = (case mb_tiles mb z x tms_row of
                              Some bytes \<Rightarrow>
                                if is_null qt (load_from_data qt bytes) then no_tile else load_from_data qt bytes
                            | None \<Rightarrow> no_tile)
                 in Some (img, image_size qt img))
      | _ \<Rightarrow>
          let ph = placeholder_tile qt (if mb_open mb then ''invalid tile id'' else ''map data unavailable'')
          in Some (ph, image_size qt ph))"

lemma part_Some: "part parts i parse = Some v \<longleftrightarrow> i < length parts \<and> parse (parts ! i) = Some v"
  by (simp add: part_def)

text \<open>
  A provider's destructor removes its own connection and no other's, so the connections are
  those of the living providers.
\<close>

lemma connections_of_living:
  "fold destroy_provider destroyed (fold add_connection created {}) = connection_name ` (set created - set destroyed)"
proof -
  have "fold add_connection created conns = conns \<union> connection_name ` set created" for conns
    by (induction created arbitrary: conns) (auto simp: add_connection_def)
  moreover have "fold destroy_provider destroyed conns = conns - connection_name ` set destroyed" for conns
    by (induction destroyed arbitrary: conns) (auto simp: destroy_provider_def)
  ultimately show ?thesis by (auto simp: connection_name_def)
qed

text \<open>
  What is relied on of the painter: a new image of positive size is not null and has its size,
  and painting keeps both.
\<close>

definition paints :: "'img qt \<Rightarrow> bool" where
  "paints qt \<longleftrightarrow>
     (\<forall>w h. 0 < w \<and> 0 < h \<longrightarrow> \<not> is_null qt (new_image qt w h) \<and> image_size qt (new_image qt w h) = (w, h)) \<and>
     (\<forall>c img. is_null qt (fill qt c img) = is_null qt img \<and> image_size qt (fill qt c img) = image_size qt img) \<and>
     (\<forall>p r img. is_null qt (draw_rect qt p r img) = is_null qt img \<and> image_size qt (draw_rect qt p r img) = image_size qt img) \<and>
     (\<forall>p t img. is_null qt (draw_text qt p t img) = is_null qt img \<and> image_size qt (draw_text qt p t img) = image_size qt img)"

lemma placeholder_painted:
  "paints qt \<Longrightarrow> \<not> is_null qt (placeholder_tile qt reason) \<and> image_size qt (placeholder_tile qt reason) = (256, 256)"
  by (simp add: paints_def placeholder_tile_def Let_def)

text \<open>
  A tile is never a null image: for any request whose row computation does not overflow,
  malformed ones, missing tiles, undecodable data and a closed database included, the image
  returned is not null and the reported size is its size; it is the data stored for the tile,
  or a placeholder of 256 by 256 pixels.
\<close>

theorem tile_is_never_null:
  assumes "paints qt" and "request_image qt mb ident = Some (img, sz)"
  shows "\<not> is_null qt img \<and> sz = image_size qt img \<and>
         (sz = (256, 256) \<or> (\<exists>z x row bytes. mb_tiles mb z x row = Some bytes \<and> img = load_from_data qt bytes))"
proof -
  have stored: "mb_tiles mb z x row = Some bytes \<Longrightarrow>
      \<exists>z x row bytes'. mb_tiles mb z x row = Some bytes' \<and> load_from_data qt bytes = load_from_data qt bytes'"
    for z x row bytes by blast
  show ?thesis
    using assms(2) placeholder_painted [OF assms(1)] stored
    by (auto simp: request_image_def Let_def split: option.splits if_splits)
qed

text \<open>An instance of Qt's part: an image is a text and a size, and null when the size is empty.\<close>

definition read_dec :: "string \<Rightarrow> int option" where
  "read_dec s =
     (if s \<noteq> [] \<and> hd s = CHR ''-'' then Some (- int (digits_val (tl s))) else Some (int (digits_val s)))"

definition text_qt :: "(string \<times> int \<times> int) qt" where
  "text_qt =
     \<lparr>to_int = read_dec, to_longlong = read_dec,
      load_from_data = (\<lambda>bytes. (bytes, if bytes = [] then (0, 0) else (256, 256))),
      is_null = (\<lambda>(s, w, h). w \<le> 0 \<or> h \<le> 0), image_size = snd,
      new_image = (\<lambda>w h. ([], w, h)), fill = (\<lambda>c img. img), draw_rect = (\<lambda>p r img. img),
      draw_text = (\<lambda>p t (s, sz). (s @ t, sz))\<rparr>"

lemma text_qt_paints: "paints text_qt"
  by (auto simp: paints_def text_qt_def)

lemma read_dec_int: "read_dec (dec_int i) = Some i"
proof -
  have "is_digit (hd (dec_nat n))" for n
    using dec_nat_digits [of "hd (dec_nat n)" n] by simp
  moreover have "\<not> is_digit CHR ''-''" by (simp add: is_digit_def)
  ultimately have "hd (dec_nat n) \<noteq> CHR ''-''" for n by metis
  then show ?thesis by (simp add: read_dec_def dec_int_def)
qed

theorem tile_is_never_null_witness:
  "\<exists>img sz. request_image text_qt (mbtiles_provider False False (\<lambda>_ _ _. None) (\<lambda>_. None)) ''1/2'' = Some (img, sz) \<and>
            \<not> is_null text_qt img"
proof -
  define img where "img = placeholder_tile text_qt ''map data unavailable''"
  have req: "request_image text_qt (mbtiles_provider False False (\<lambda>_ _ _. None) (\<lambda>_. None)) ''1/2'' =
      Some (img, image_size text_qt img)"
    by (simp add: img_def request_image_def part_def mbtiles_provider_def Let_def split: option.splits)
  from tile_is_never_null [OF text_qt_paints req] req show ?thesis by blast
qed

lemma split_slash_plain: "CHR ''/'' \<notin> set s \<Longrightarrow> split_slash (s @ CHR ''/'' # r) = s # split_slash r"
  by (induction s) auto

lemma split_slash_end: "CHR ''/'' \<notin> set s \<Longrightarrow> split_slash s = [s]"
  by (induction s) auto

lemma dec_int_no_slash [simp]: "CHR ''/'' \<notin> set (dec_int i)"
  using dec_nat_digits [of "CHR ''/''"] by (auto simp: is_digit_def dec_int_def)

text \<open>
  A stored tile is found under its XYZ name: for an open database and a row of the zoom
  level, the request \<open>z/x/y\<close>, with anything after a further slash, returns the decoded data
  stored at column \<open>x\<close> and the flipped row, if it decodes; the parser is only required to read
  printed integers back.
\<close>

theorem stored_tile_is_served:
  assumes "\<forall>i. in_i64 i \<longrightarrow> to_longlong qt (dec_int i) = Some i" and "to_int qt (dec_int z) = Some z"
    and "in_i64 x" and "0 \<le> y" and "y < tiles_per_axis z" and "mb_open mb"
    and "mb_tiles mb z x (tiles_per_axis z - 1 - y) = Some bytes"
    and "\<not> is_null qt (load_from_data qt bytes)" and "extra = [] \<or> hd extra = CHR ''/''"
  shows "request_image qt mb (dec_int z @ ''/'' @ dec_int x @ ''/'' @ dec_int y @ extra) =
         Some (load_from_data qt bytes, image_size qt (load_from_data qt bytes))"
proof -
  have row: "xyz_to_tms_row y z = Some (tiles_per_axis z - 1 - y)" and "in_i64 y"
    using assms(4,5) tiles_per_axis_bounds [of z] by (auto simp: xyz_to_tms_row_def in_i64_def)
  obtain rest where "split_slash (dec_int y @ extra) = dec_int y # rest"
    using assms(9) by (cases extra) (auto simp: split_slash_plain split_slash_end)
  then have "split_slash (dec_int z @ ''/'' @ dec_int x @ ''/'' @ dec_int y @ extra) =
      dec_int z # dec_int x # dec_int y # rest"
    by (simp add: split_slash_plain)
  then show ?thesis
    using assms(1-3,6-8) row \<open>in_i64 y\<close> by (simp add: request_image_def part_def Let_def)
qed

theorem stored_tile_is_served_witness:
  "request_image text_qt (mbtiles_provider True True (\<lambda>z x row. Some ''data'') (\<lambda>_. None))
     (dec_int 2 @ ''/'' @ dec_int 1 @ ''/'' @ dec_int 3 @ []) = Some ((''data'', 256, 256), (256, 256))"
  using stored_tile_is_served
    [of text_qt 2 1 3 "mbtiles_provider True True (\<lambda>z x row. Some ''data'') (\<lambda>_. None)" "''data''" "[]"]
  by (simp add: text_qt_def read_dec_int mbtiles_provider_def tiles_per_axis_def in_i64_def)

text \<open>
  The row of a request is not bounded: a request for the smallest 64-bit row overflows
  the signed subtraction at every zoom level, which C++ leaves undefined.
\<close>

theorem unbounded_row_overflows:
  assumes "to_int qt (dec_int z) = Some z" and "to_longlong qt (dec_int x) = Some x"
    and "to_longlong qt (dec_int i64_min) = Some i64_min" and "mb_open mb"
  shows "request_image qt mb (dec_int z @ ''/'' @ dec_int x @ ''/'' @ dec_int i64_min) = None"
proof -
  have "xyz_to_tms_row i64_min z = None"
    using tiles_per_axis_bounds [of z] by (simp add: xyz_to_tms_row_def in_i64_def)
  moreover have "split_slash (dec_int z @ ''/'' @ dec_int x @ ''/'' @ dec_int i64_min) =
      [dec_int z, dec_int x, dec_int i64_min]"
    using split_slash_end [OF dec_int_no_slash] by (simp add: split_slash_plain)
  ultimately show ?thesis using assms by (simp add: request_image_def part_def Let_def)
qed

theorem unbounded_row_overflows_witness:
  "request_image text_qt (mbtiles_provider True True (\<lambda>z x row. None) (\<lambda>_. None))
     (dec_int 0 @ ''/'' @ dec_int 0 @ ''/'' @ dec_int i64_min) = None"
  by (rule unbounded_row_overflows) (simp_all add: text_qt_def read_dec_int mbtiles_provider_def)

end
