(* ===== verification/Gcs_Main.thy ===== *)
theory Gcs_Main
  imports Shell Gcs_Properties Slippy_Map
begin

text \<open>
  The program of the ground control station (src/frontend/qt-desktop-gcs/src/main.cpp): the
  bundled fonts, the objects wired together, the self check and the event loop. What Qt and
  the environment answer is an argument; the event loop is the list of the requests to exit
  that reach it, each with its time in milliseconds after the loop started.
\<close>

section \<open>Fonts\<close>

definition k_faces :: "string list" where
  "k_faces =
     ['':/fonts/Poppins-Light.ttf'', '':/fonts/Poppins-LightItalic.ttf'',
      '':/fonts/Poppins-Regular.ttf'', '':/fonts/Poppins-Italic.ttf'',
      '':/fonts/Poppins-Medium.ttf'', '':/fonts/Poppins-MediumItalic.ttf'',
      '':/fonts/Poppins-Bold.ttf'', '':/fonts/Poppins-BoldItalic.ttf'']"

text \<open>The warnings, from the answers of \<open>addApplicationFont\<close>.\<close>

fun load_faces :: "(string \<Rightarrow> int) \<Rightarrow> string list \<Rightarrow> string list" where
  "load_faces add_font [] = []"
| "load_faces add_font (path # paths) =
     (if add_font path = - 1 then (''failed to load bundled font: '' @ path) # load_faces add_font paths
      else load_faces add_font paths)"

definition load_bundled_fonts :: "(string \<Rightarrow> int) \<Rightarrow> string list" where
  "load_bundled_fonts add_font = load_faces add_font k_faces"

section \<open>The program\<close>

record gcs_env =
  qpa_platform :: "string option"          \<comment> \<open>the variable \<open>QT_QPA_PLATFORM\<close>\<close>
  add_application_font :: "string \<Rightarrow> int"
  root_created :: bool                     \<comment> \<open>whether loading Shell.qml creates the root object\<close>
  closed_at :: "nat option"                \<comment> \<open>when the last window is closed, if it is\<close>
  provider :: mbtiles                      \<comment> \<open>the tile provider made from the configured path\<close>
  app_exec :: "(nat \<times> int) list \<Rightarrow> int option"  \<comment> \<open>the event loop\<close>

record gcs_app =
  app_platform :: "string option"
  app_warnings :: "string list"
  app_telemetry :: telemetry
  app_panels :: "panel_definition list"
  app_workspaces :: workspace_manager
  app_provider :: mbtiles
  app_events :: "(nat \<times> int) list"        \<comment> \<open>requests to exit: time and code, in the order they are set up\<close>

definition wire_app :: "gcs_env \<Rightarrow> string list \<Rightarrow> gcs_app" where
  "wire_app env argv =
     (let selfcheck = has_flag argv ''--selfcheck'';
          platform = (if selfcheck \<and> qpa_platform env = None then Some ''offscreen'' else qpa_platform env);
          warnings = load_bundled_fonts (add_application_font env);
          panels = register_panels [];
          wm = register_workspaces new_workspace_manager;
          failed = (if root_created env then [] else [(0, 1)]);
          closed = (case closed_at env of Some t \<Rightarrow> [(t, 0)] | None \<Rightarrow> []);
          timer = (if selfcheck then [(1200, if root_created env then 0 else 1)] else [])
      in \<lparr>app_platform = platform, app_warnings = warnings, app_telemetry = new_telemetry,
          app_panels = panels, app_workspaces = wm, app_provider = provider env,
          app_events = failed @ timer @ closed\<rparr>)"

definition gcs_main :: "gcs_env \<Rightarrow> string list \<Rightarrow> int option" where
  "gcs_main env argv = app_exec env (app_events (wire_app env argv))"

section \<open>Properties\<close>

text \<open>
  What is documented of the event loop: it ends with the code of the earliest request, of two
  at the same time of the one set up first, and not at all without a request.
\<close>

fun earliest_exit :: "(nat \<times> int) list \<Rightarrow> int option" where
  "earliest_exit [] = None"
| "earliest_exit [(t, code)] = Some code"
| "earliest_exit ((t, code) # (t', code') # evs) =
     (if t \<le> t' then earliest_exit ((t, code) # evs) else earliest_exit ((t', code') # evs))"

lemma load_faces_warn: "load_faces f paths = map (\<lambda>p. ''failed to load bundled font: '' @ p) (filter (\<lambda>p. f p = - 1) paths)"
  by (induction paths) auto

lemma fonts_do_not_decide:
  "gcs_main (env\<lparr>add_application_font := f\<rparr>) argv = gcs_main env argv"
  by (simp add: gcs_main_def wire_app_def Let_def)

text \<open>
  The program ends with code 1 when the root object cannot be created, by itself, and with
  code 0 when it was and the window is closed or the self check's time is up; without a self
  check a created and never closed window keeps it running. Missing fonts change nothing.
\<close>

theorem exit_code_is_the_shell_loaded:
  assumes "app_exec env = earliest_exit"
  shows "gcs_main env argv =
     (if \<not> root_created env then Some 1
      else if has_flag argv ''--selfcheck'' \<or> closed_at env \<noteq> None then Some 0
      else None)"
  by (cases "closed_at env") (auto simp: gcs_main_def wire_app_def assms Let_def)

theorem exit_code_is_the_shell_loaded_witness:
  "gcs_main \<lparr>qpa_platform = None, add_application_font = (\<lambda>_. 0), root_created = False, closed_at = None,
      provider = mbtiles_provider False False (\<lambda>_ _ _. None) (\<lambda>_. None), app_exec = earliest_exit\<rparr>
     [''uaop-gcs'', ''--selfcheck''] = Some 1"
  by (subst exit_code_is_the_shell_loaded) simp_all

text \<open>The self check needs no display: it runs off screen unless a platform was chosen.\<close>

lemma selfcheck_platform:
  "has_flag argv ''--selfcheck'' \<Longrightarrow> app_platform (wire_app env argv) \<noteq> None"
  by (auto simp: wire_app_def Let_def)

end
