(* ===== verification/Slippy_Double.thy ===== *)
theory Slippy_Double
  imports Slippy_Map Dbl_Bounds
begin

text \<open>
  The map projection in the arithmetic the program uses (map/SlippyMath.h): \<open>double\<close> operations
  in the order of the source, without contraction. The C library's \<open>tan\<close>, \<open>asinh\<close>, \<open>atan\<close> and
  \<open>sinh\<close> are arguments. The column needs none of them, so its error, its range and the nesting
  of columns over zoom levels are proved for the code's arithmetic.
\<close>

section \<open>The projection\<close>

record libm =
  m_tan :: "double \<Rightarrow> double"
  m_asinh :: "double \<Rightarrow> double"
  m_atan :: "double \<Rightarrow> double"
  m_sinh :: "double \<Rightarrow> double"

record pixel_point =
  pp_x :: double
  pp_y :: double

definition kPi :: double where "kPi = 0x400921FB54442D18"

definition tile_count :: "int \<Rightarrow> double" where
  "tile_count z = dlit (nat (tiles_per_axis z)) 1"

definition lonLatToTileFrac :: "libm \<Rightarrow> double \<Rightarrow> double \<Rightarrow> int \<Rightarrow> pixel_point" where
  "lonLatToTileFrac lib lonDeg latDeg z =
     (let n = tile_count z;
          latRad = dbl_div (dbl_mul latDeg kPi) (dlit 180 1);
          x = dbl_mul (dbl_div (dbl_add lonDeg (dlit 180 1)) (dlit 360 1)) n;
          y = dbl_mul (dbl_div (dbl_sub (dlit 1 1) (dbl_div (m_asinh lib (m_tan lib latRad)) kPi)) (dlit 2 1)) n
      in \<lparr>pp_x = x, pp_y = y\<rparr>)"

definition tileFracToLonLat :: "libm \<Rightarrow> double \<Rightarrow> double \<Rightarrow> int \<Rightarrow> double \<times> double" where
  "tileFracToLonLat lib xFrac yFrac z =
     (let n = tile_count z;
          lonDeg = dbl_sub (dbl_mul (dbl_div xFrac n) (dlit 360 1)) (dlit 180 1);
          latRad = m_atan lib (m_sinh lib
                     (dbl_mul kPi (dbl_sub (dlit 1 1) (dbl_div (dbl_mul (dlit 2 1) yFrac) n))));
          latDeg = dbl_div (dbl_mul latRad (dlit 180 1)) kPi
      in (lonDeg, latDeg))"

section \<open>Constants\<close>

lemma dlit_degrees: "dlit 180 1 = 0x4066800000000000" "dlit 360 1 = 0x4076800000000000" "dlit 1 1 = 0x3FF0000000000000"
  by (simp_all add: dlit_def dbl_pack_def round_dbl_def floor_log_frac_def floor_log_nat.simps
      div_half_even_def Let_def)

lemma degrees [simp]:
  "dbl_finite (dlit 180 1)" "dbl_real (dlit 180 1) = 180"
  "dbl_finite (dlit 360 1)" "dbl_real (dlit 360 1) = 360"
  "dbl_finite (dlit 1 1)" "dbl_real (dlit 1 1) = 1" "\<not> dbl_sign (dlit 1 1)" "dbl_exponent (dlit 1 1) = 1023"
  unfolding dlit_degrees by (simp_all add: dbl_fields)

lemma zero_finite: "dbl_finite 0" "dbl_real 0 = 0"
  by (simp_all add: dbl_fields)

lemma tiles_per_axis_power: "tiles_per_axis z = 2 ^ nat (max 0 (min z 22))"
  by (simp add: tiles_per_axis_def)

lemma below_threshold: "\<bar>x\<bar> \<le> 2 ^ 23 \<Longrightarrow> \<bar>x\<bar> < overflow_threshold"
proof -
  have "(1 :: real) \<le> pow2 970" by (rule one_le_power_int) simp_all
  then have "18014398509481983 \<le> overflow_threshold" by (simp add: overflow_threshold_def)
  then show "\<bar>x\<bar> \<le> 2 ^ 23 \<Longrightarrow> \<bar>x\<bar> < overflow_threshold" by simp
qed

lemma dlit_nearest: "real n \<le> 2 ^ 23 \<Longrightarrow> dbl_nearest (dlit n 1) (real n)"
  using dbl_pack_nearest [of 1 n False] below_threshold [of "real n"] by (simp add: dlit_def)

lemma tile_count_value: "dbl_finite (tile_count z)" "dbl_real (tile_count z) = of_int (tiles_per_axis z)"
proof -
  define k where "k = nat (max 0 (min z 22))"
  have near: "dbl_nearest (tile_count z) (of_int (tiles_per_axis z))"
    using dlit_nearest [of "nat (tiles_per_axis z)"] tiles_per_axis_bounds [of z] by (simp add: tile_count_def)
  then show "dbl_finite (tile_count z)" by (rule nearest_finite)
  have "k \<le> 22" by (simp add: k_def)
  then have "dbl_exponent (dlit 1 1) + k < 2047" by (simp del: One_nat_def)
  from dbl_scale [OF degrees(5,7) this]
  obtain c where "dbl_finite c" "dbl_real c = 2 ^ k * dbl_real (dlit 1 1)" .
  then show "dbl_real (tile_count z) = of_int (tiles_per_axis z)"
    using nearest_exact [OF near] by (simp add: tiles_per_axis_power k_def del: One_nat_def)
qed

section \<open>The column\<close>

text \<open>The part of the axis east of the antimeridian, before scaling to the zoom level.\<close>

definition axis_part :: "double \<Rightarrow> double" where
  "axis_part lon = dbl_div (dbl_add lon (dlit 180 1)) (dlit 360 1)"

lemma column_eq: "pp_x (lonLatToTileFrac lib lon lat z) = dbl_mul (axis_part lon) (tile_count z)"
  by (simp add: lonLatToTileFrac_def axis_part_def Let_def)

lemma axis_part_bounds:
  assumes "dbl_finite lon" and "- 180 \<le> dbl_real lon" "dbl_real lon \<le> 180"
  shows "dbl_finite (axis_part lon)" "0 \<le> dbl_real (axis_part lon)" "dbl_real (axis_part lon) \<le> 1"
    "\<bar>dbl_real (axis_part lon) - (dbl_real lon + 180) / 360\<bar> \<le> 1 / 2 ^ 52"
proof -
  define s where "s = dbl_add lon (dlit 180 1)"
  have near_s: "dbl_nearest s (dbl_real lon + 180)"
    using dbl_add_nearest [OF assms(1) degrees(1)] below_threshold [of "dbl_real lon + 180"] assms(2,3)
    by (simp add: s_def del: One_nat_def)
  have s: "dbl_finite s" "0 \<le> dbl_real s" "dbl_real s \<le> 360"
    using nearest_finite [OF near_s] nearest_ge [OF near_s zero_finite(1)] nearest_le [OF near_s degrees(3)] assms(2,3)
    by (simp_all add: zero_finite del: One_nat_def)
  have near_q: "dbl_nearest (axis_part lon) (dbl_real s / 360)"
    using dbl_div_nearest [OF s(1) degrees(3)] below_threshold [of "dbl_real s / 360"] s(2,3)
    by (simp add: axis_part_def s_def [symmetric] del: One_nat_def)
  show "dbl_finite (axis_part lon)" "0 \<le> dbl_real (axis_part lon)" "dbl_real (axis_part lon) \<le> 1"
    using nearest_finite [OF near_q] nearest_ge [OF near_q zero_finite(1)] nearest_le [OF near_q degrees(5)] s(2,3)
    by (simp_all add: zero_finite del: One_nat_def)
  obtain v d where v: "0 < d" "dbl_real lon = of_int v / real d" using dbl_real_rational [OF assms(1)] by blast
  have "dbl_real lon + 180 = of_int (v + 180 * int d) / real d" using v by (simp add: field_simps)
  from nearest_error_rational [OF near_s this v(1), of 9]
  have err_s: "\<bar>dbl_real s - (dbl_real lon + 180)\<bar> \<le> 1 / 2 ^ 45"
    using assms(2,3) by (simp add: power_int_minus_divide)
  obtain w e where w: "0 < e" "dbl_real s = of_int w / real e" using dbl_real_rational [OF s(1)] by blast
  have "dbl_real s / 360 = of_int w / real (e * 360)" unfolding w(2) by simp
  from nearest_error_rational [OF near_q this, of 1] w(1)
  have err_q: "\<bar>dbl_real (axis_part lon) - dbl_real s / 360\<bar> \<le> 1 / 2 ^ 53"
    using s(2,3) by (simp add: power_int_minus_divide)
  have "\<bar>dbl_real s / 360 - (dbl_real lon + 180) / 360\<bar> \<le> 1 / 2 ^ 45 / 360"
    using err_s by (simp add: abs_le_iff field_simps)
  moreover have "(1 :: real) / 2 ^ 53 + 1 / 2 ^ 45 / 360 \<le> 1 / 2 ^ 52" by simp
  ultimately show "\<bar>dbl_real (axis_part lon) - (dbl_real lon + 180) / 360\<bar> \<le> 1 / 2 ^ 52"
    using err_q by linarith
qed

lemma column_exact:
  assumes "dbl_finite lon" and "- 180 \<le> dbl_real lon" "dbl_real lon \<le> 180"
  shows "dbl_finite (pp_x (lonLatToTileFrac lib lon lat z)) \<and>
         dbl_real (pp_x (lonLatToTileFrac lib lon lat z)) = dbl_real (axis_part lon) * of_int (tiles_per_axis z)"
proof -
  define q where "q = (if dbl_sign (axis_part lon) then dbl_neg (axis_part lon) else axis_part lon)"
  define k where "k = nat (max 0 (min z 22))"
  note b = axis_part_bounds [OF assms]
  have "dbl_real (axis_part lon) * of_int (tiles_per_axis z) \<le> 1 * of_int (tiles_per_axis z)"
    by (rule mult_right_mono) (use b(3) tiles_per_axis_bounds [of z] in simp_all)
  moreover have "(of_int (tiles_per_axis z) :: real) \<le> 4194304"
    using tiles_per_axis_bounds [of z] by simp
  ultimately have "dbl_real (axis_part lon) * of_int (tiles_per_axis z) \<le> 2 ^ 23" by simp
  moreover have "0 \<le> dbl_real (axis_part lon) * of_int (tiles_per_axis z)"
    using b(2) tiles_per_axis_bounds [of z] by simp
  ultimately have "\<bar>dbl_real (axis_part lon) * dbl_real (tile_count z)\<bar> \<le> 2 ^ 23"
    unfolding tile_count_value(2) by linarith
  from dbl_mul_nearest [OF b(1) tile_count_value(1) below_threshold [OF this]]
  have near: "dbl_nearest (pp_x (lonLatToTileFrac lib lon lat z)) (dbl_real (axis_part lon) * of_int (tiles_per_axis z))"
    by (simp add: column_eq tile_count_value)
  have "dbl_sign (axis_part lon) \<Longrightarrow> dbl_real (axis_part lon) \<le> 0"
    unfolding dbl_real_finite [OF b(1)] by simp
  then have "dbl_sign (axis_part lon) \<Longrightarrow> dbl_real (axis_part lon) = 0" using b(2) by linarith
  then have q: "dbl_finite q" "\<not> dbl_sign q" "dbl_real q = dbl_real (axis_part lon)"
    using b(1) dbl_neg_real [OF b(1)] by (auto simp: q_def neg_fields)
  have "dbl_exponent q \<le> 1023"
  proof (rule ccontr)
    assume "\<not> dbl_exponent q \<le> 1023"
    then have e: "1024 \<le> scale q" "significand q \<ge> 2 ^ 52" by (simp_all add: scale_def significand_def)
    have "(2 :: real) = 4503599627370496 * pow2 (- 51)" by (simp add: power_int_minus_divide)
    also have "\<dots> \<le> real (significand q) * pow2 (int (scale q) - 1075)"
      by (rule mult_mono) (use e pow2_mono [of "- 51" "int (scale q) - 1075"] in simp_all)
    also have "\<dots> = dbl_real q" unfolding dbl_real_finite [OF q(1)] using q(2) by simp
    finally show False using b(3) q(3) by simp
  qed
  then have "dbl_exponent q + k < 2047" by (simp add: k_def)
  from dbl_scale [OF q(1,2) this] obtain c where "dbl_finite c" "dbl_real c = 2 ^ k * dbl_real q" by blast
  then have "dbl_real c = dbl_real (axis_part lon) * of_int (tiles_per_axis z)"
    by (simp add: q(3) tiles_per_axis_power k_def)
  with nearest_exact [OF near \<open>dbl_finite c\<close> this] nearest_finite [OF near] show ?thesis by blast
qed

text \<open>
  The column of a longitude, computed with rounding, lies on the axis and differs from the
  exact projection by at most one part in \<open>2 ^ 52\<close> of the axis.
\<close>

theorem tile_column_error:
  fixes lib :: libm and lon lat :: double and lat' :: real and z :: int
  assumes "dbl_finite lon" and "- 180 \<le> dbl_real lon" "dbl_real lon \<le> 180"
  defines "x \<equiv> dbl_real (pp_x (lonLatToTileFrac lib lon lat z))" and "n \<equiv> of_int (tiles_per_axis z) :: real"
  shows "0 \<le> x \<and> x \<le> n \<and>
         \<bar>x - fst (lon_lat_to_tile_frac (dbl_real lon) lat' z)\<bar> \<le> n / 2 ^ 52"
proof -
  note b = axis_part_bounds [OF assms(1-3)]
  have x: "x = dbl_real (axis_part lon) * n" unfolding x_def n_def using column_exact [OF assms(1-3)] by blast
  have n: "0 < n" using tiles_per_axis_bounds [of z] by (simp add: n_def)
  have "x - fst (lon_lat_to_tile_frac (dbl_real lon) lat' z) = (dbl_real (axis_part lon) - (dbl_real lon + 180) / 360) * n"
    unfolding x by (simp add: lon_lat_to_tile_frac_def Let_def n_def left_diff_distrib)
  then have "\<bar>x - fst (lon_lat_to_tile_frac (dbl_real lon) lat' z)\<bar> =
      \<bar>dbl_real (axis_part lon) - (dbl_real lon + 180) / 360\<bar> * n"
    using n by (simp add: abs_mult)
  also have "\<dots> \<le> 1 / 2 ^ 52 * n" using b(4) n by (intro mult_right_mono) simp_all
  finally show ?thesis using b(2,3) n mult_right_mono [OF b(3), of n] by (simp add: x)
qed

text \<open>
  Columns nest exactly, rounding or not: the tile of a longitude at one zoom level is a half
  of the tile that holds it at the level above.
\<close>

theorem tile_columns_nest:
  assumes "dbl_finite lon" and "- 180 \<le> dbl_real lon" "dbl_real lon \<le> 180" and "0 \<le> z" "z < 22"
  shows "\<lfloor>dbl_real (pp_x (lonLatToTileFrac lib lon lat z))\<rfloor> =
         \<lfloor>dbl_real (pp_x (lonLatToTileFrac lib lon lat (z + 1)))\<rfloor> div 2"
proof -
  have "nat (z + 1) = Suc (nat z)" using assms(4) by simp
  then have "tiles_per_axis (z + 1) = 2 * tiles_per_axis z"
    using assms(4,5) by (simp add: tiles_per_axis_power)
  then have "dbl_real (pp_x (lonLatToTileFrac lib lon lat z)) =
      dbl_real (pp_x (lonLatToTileFrac lib lon lat (z + 1))) / of_int 2"
    using column_exact [OF assms(1-3)] by simp
  then show ?thesis by (simp only: floor_divide_real_eq_div)
qed

lemma east_90: "dbl_finite (dlit 90 1)" "dbl_real (dlit 90 1) = 90"
proof -
  have "dlit 90 1 = 0x4056800000000000"
    by (simp add: dlit_def dbl_pack_def round_dbl_def floor_log_frac_def floor_log_nat.simps
        div_half_even_def Let_def)
  then show "dbl_finite (dlit 90 1)" "dbl_real (dlit 90 1) = 90" by (simp_all add: dbl_fields)
qed

definition plain_libm :: libm where
  "plain_libm = \<lparr>m_tan = \<lambda>x. x, m_asinh = \<lambda>x. x, m_atan = \<lambda>x. x, m_sinh = \<lambda>x. x\<rparr>"

theorem tile_column_error_witness:
  "\<bar>dbl_real (pp_x (lonLatToTileFrac plain_libm (dlit 90 1) 0 10)) - 768\<bar> \<le> 1024 / 2 ^ 52"
  using tile_column_error [OF east_90(1), of plain_libm 0 10 0] east_90
  by (simp add: lon_lat_to_tile_frac_def tiles_per_axis_def Let_def del: One_nat_def)

theorem tile_columns_nest_witness:
  "\<lfloor>dbl_real (pp_x (lonLatToTileFrac plain_libm (dlit 90 1) 0 3))\<rfloor> =
   \<lfloor>dbl_real (pp_x (lonLatToTileFrac plain_libm (dlit 90 1) 0 4))\<rfloor> div 2"
  using tile_columns_nest [OF east_90(1), of 3 plain_libm 0] east_90 by (simp del: One_nat_def)

text \<open>The largest double below 180.\<close>

definition just_below_180 :: double where "just_below_180 = 0x40667FFFFFFFFFFF"

lemma just_below_180_sum: "dbl_add just_below_180 (dlit 180 1) = dlit 360 1"
  unfolding dlit_degrees just_below_180_def
  by (simp add: dbl_add_def dbl_fields with_sign_def dbl_pack_def round_dbl_def floor_log_frac_def
      floor_log_nat.simps div_half_even_def)

lemma just_below_180_part: "dbl_real (axis_part just_below_180) = 1"
proof -
  have "dbl_nearest (axis_part just_below_180) 1"
    using dbl_div_nearest [OF degrees(3,3)] below_threshold [of 1]
    by (simp add: axis_part_def just_below_180_sum del: One_nat_def)
  then show ?thesis using nearest_exact degrees(5,6) by blast
qed

text \<open>
  The last longitude below the antimeridian falls off the axis: adding 180 rounds it up to 360,
  so its column is the number of tiles, one past the last column, at every zoom level.
\<close>

theorem last_longitude_falls_off_the_axis:
  "dbl_finite just_below_180 \<and> dbl_real just_below_180 < 180 \<and>
   dbl_real (pp_x (lonLatToTileFrac lib just_below_180 lat z)) = of_int (tiles_per_axis z)"
proof -
  have lon: "dbl_finite just_below_180" "dbl_real just_below_180 < 180" "- 180 \<le> dbl_real just_below_180"
    by (simp_all add: just_below_180_def dbl_fields)
  then show ?thesis
    using column_exact [of just_below_180 lib lat z] by (simp add: just_below_180_part del: One_nat_def)
qed

end
