(* ===== verification/Slippy_Roundtrip.thy ===== *)
theory Slippy_Roundtrip
  imports Slippy_Double Dbl_Range
begin

text \<open>
  A longitude through \<open>lonLatToTileFrac\<close> and back through \<open>tileFracToLonLat\<close>
  (src/frontend/qt-desktop-gcs/src/map/SlippyMath.h), in \<open>double\<close> arithmetic.
\<close>

lemma back_eq:
  "fst (tileFracToLonLat lib x y z) = dbl_sub (dbl_mul (dbl_div x (tile_count z)) (dlit 360 1)) (dlit 180 1)"
  by (simp add: tileFracToLonLat_def Let_def)

text \<open>Dividing by the number of tiles undoes the scaling exactly.\<close>

lemma column_unscaled:
  assumes "dbl_finite lon" and "- 180 \<le> dbl_real lon" "dbl_real lon \<le> 180"
  shows "dbl_finite (dbl_div (pp_x (lonLatToTileFrac lib lon lat z)) (tile_count z))"
    and "dbl_real (dbl_div (pp_x (lonLatToTileFrac lib lon lat z)) (tile_count z)) = dbl_real (axis_part lon)"
proof -
  let ?x = "pp_x (lonLatToTileFrac lib lon lat z)"
  note b = axis_part_bounds [OF assms]
  have n: "(0 :: real) < of_int (tiles_per_axis z)" using tiles_per_axis_bounds [of z] by simp
  have x: "dbl_finite ?x" "dbl_real ?x / dbl_real (tile_count z) = dbl_real (axis_part lon)"
    using column_exact [OF assms, of lib lat z] n by (simp_all add: tile_count_value)
  have "\<bar>dbl_real ?x / dbl_real (tile_count z)\<bar> < overflow_threshold"
    unfolding x(2) by (rule dbl_finite_below_threshold [OF b(1)])
  from dbl_div_nearest [OF x(1) tile_count_value(1) _ this] n
  have near: "dbl_nearest (dbl_div ?x (tile_count z)) (dbl_real (axis_part lon))"
    by (simp add: tile_count_value(2) x(2) [unfolded tile_count_value(2)])
  then show "dbl_finite (dbl_div ?x (tile_count z))" by (rule nearest_finite)
  show "dbl_real (dbl_div ?x (tile_count z)) = dbl_real (axis_part lon)"
    using nearest_exact [OF near b(1)] by simp
qed

lemma degrees_is_dbl: "is_dbl 360" "is_dbl 180"
  using is_dblI [OF degrees(3)] is_dblI [OF degrees(1)] by (simp_all del: One_nat_def)

text \<open>
  C38. A longitude survives the projection: projected to a column at any zoom level and back it
  is again a longitude and off by at most \<open>2 ^ -42\<close> degrees, less than a tenth of a micrometre
  on the ground.
\<close>

theorem longitude_survives_the_projection:
  assumes "dbl_finite lon" and "- 180 \<le> dbl_real lon" "dbl_real lon \<le> 180"
  shows "dbl_within (- 180) 180 (fst (tileFracToLonLat lib (pp_x (lonLatToTileFrac lib lon lat z)) y z)) \<and>
         \<bar>dbl_real (fst (tileFracToLonLat lib (pp_x (lonLatToTileFrac lib lon lat z)) y z)) - dbl_real lon\<bar> \<le> 1 / 2 ^ 42"
proof -
  define q where "q = dbl_div (pp_x (lonLatToTileFrac lib lon lat z)) (tile_count z)"
  define p where "p = dbl_mul q (dlit 360 1)"
  define r where "r = dbl_sub p (dlit 180 1)"
  note b = axis_part_bounds [OF assms]
  have q: "dbl_finite q" "0 \<le> dbl_real q" "dbl_real q \<le> 1" "\<bar>dbl_real q * 360 - (dbl_real lon + 180)\<bar> \<le> 360 / 2 ^ 52"
    using column_unscaled [OF assms, of lib lat z] b by (simp_all add: q_def abs_le_iff field_simps)
  have "dbl_within 0 360 p"
    unfolding p_def using q degrees_is_dbl by (intro mul_within) (simp_all del: One_nat_def)
  then have p: "dbl_finite p" "0 \<le> dbl_real p" "dbl_real p \<le> 360" by (simp_all add: dbl_within_def)
  have "\<bar>dbl_real p - dbl_real q * dbl_real (dlit 360 1)\<bar> \<le> pow2 (9 - 54)"
    unfolding p_def using q within_bounds_threshold [of 0 360 "dbl_real q * 360"] degrees_is_dbl
    by (intro mul_error) (simp_all del: One_nat_def)
  then have e1: "\<bar>dbl_real p - dbl_real q * 360\<bar> \<le> 1 / 2 ^ 45" by (simp del: One_nat_def)
  have within: "dbl_within (- 180) 180 r"
    unfolding r_def using p degrees_is_dbl is_dbl_minus [of 180] by (intro sub_within) (simp_all del: One_nat_def)
  have "\<bar>dbl_real r - (dbl_real p - dbl_real (dlit 180 1))\<bar> \<le> pow2 (8 - 54)"
    unfolding r_def using p within_bounds_threshold [of "- 180" 180 "dbl_real p - 180"] degrees_is_dbl is_dbl_minus [of 180]
    by (intro sub_error) (simp_all del: One_nat_def)
  then have e2: "\<bar>dbl_real r - (dbl_real p - 180)\<bar> \<le> 1 / 2 ^ 46" by (simp del: One_nat_def)
  have "\<bar>dbl_real r - dbl_real lon\<bar> \<le> 1 / 2 ^ 46 + 1 / 2 ^ 45 + 360 / 2 ^ 52" using e1 e2 q(4) by linarith
  also have "\<dots> \<le> 1 / 2 ^ 42" by simp
  finally show ?thesis using within by (simp add: back_eq q_def p_def r_def)
qed

theorem longitude_survives_the_projection_witness:
  "\<bar>dbl_real (fst (tileFracToLonLat plain_libm (pp_x (lonLatToTileFrac plain_libm (dlit 90 1) 0 10)) 0 10)) - 90\<bar> \<le> 1 / 2 ^ 42"
  using longitude_survives_the_projection [OF east_90(1), of plain_libm 0 10 0] east_90 by (simp del: One_nat_def)

end
