(* ===== verification/Mercator.thy ===== *)
theory Mercator
  imports Complex_Main
begin

text \<open>
  Real analysis for the map projection: how far the functions it is made of spread an error of
  their argument, and \<open>pi\<close> to eighteen decimals. Nothing here mentions the program.
\<close>

section \<open>Spread of an error\<close>

lemma spread:
  fixes f f' :: "real \<Rightarrow> real"
  assumes "\<And>x. \<bar>x\<bar> \<le> r \<Longrightarrow> (f has_field_derivative f' x) (at x)" "\<And>x. \<bar>x\<bar> \<le> r \<Longrightarrow> \<bar>f' x\<bar> \<le> k"
    and "\<bar>a\<bar> \<le> r" "\<bar>b\<bar> \<le> r"
  shows "\<bar>f b - f a\<bar> \<le> k * \<bar>b - a\<bar>"
proof -
  have le: "\<bar>f v - f u\<bar> \<le> k * \<bar>v - u\<bar>" if uv: "u < v" "\<bar>u\<bar> \<le> r" "\<bar>v\<bar> \<le> r" for u v
  proof -
    have "\<And>x. u \<le> x \<Longrightarrow> x \<le> v \<Longrightarrow> (f has_field_derivative f' x) (at x)" using uv by (intro assms(1)) auto
    from MVT2 [OF uv(1) this] obtain z where z: "u < z" "z < v" "f v - f u = (v - u) * f' z" by blast
    then have "\<bar>f' z\<bar> \<le> k" using uv by (intro assms(2)) auto
    then show ?thesis using uv(1) by (simp add: z(3) abs_mult mult.commute [of k] mult_left_mono)
  qed
  show ?thesis using le [of a b] le [of b a] assms(3,4) by (cases a b rule: linorder_cases) (auto simp: abs_minus_commute)
qed

lemma arsinh_spread: "\<bar>arsinh b - arsinh a\<bar> \<le> \<bar>b - a\<bar>" for a b :: real
proof -
  have "\<bar>1 / sqrt (x\<^sup>2 + 1)\<bar> \<le> 1" for x :: real
  proof -
    have "1 \<le> sqrt (x\<^sup>2 + 1)" by simp
    then show ?thesis unfolding inverse_eq_divide [symmetric] by (simp add: inverse_le_1_iff)
  qed
  then have "\<bar>arsinh b - arsinh a\<bar> \<le> 1 * \<bar>b - a\<bar>"
    by (intro spread [where r = "max \<bar>a\<bar> \<bar>b\<bar>" and f' = "\<lambda>x. 1 / sqrt (x\<^sup>2 + 1)"]
        arsinh_real_has_field_derivative) auto
  then show ?thesis by simp
qed

lemma abs_arsinh_le: "\<bar>arsinh x\<bar> \<le> \<bar>x\<bar>" for x :: real
  using arsinh_spread [of x 0] by simp

text \<open>A relative error of the argument, whatever its size.\<close>

lemma spread_relative:
  fixes f f' :: "real \<Rightarrow> real"
  assumes deriv: "\<And>x. (f has_field_derivative f' x) (at x)" "\<And>x. \<bar>x\<bar> * \<bar>f' x\<bar> \<le> k"
    and near: "\<bar>b - a\<bar> \<le> e * \<bar>a\<bar>" "0 \<le> e" "e \<le> 1 / 2"
  shows "\<bar>f b - f a\<bar> \<le> 2 * k * e"
proof -
  have "\<exists>z. f b - f a = (b - a) * f' z \<and> \<bar>a\<bar> \<le> 2 * \<bar>z\<bar>"
  proof (cases a b rule: linorder_cases)
    case less
    from MVT2 [OF this deriv(1)] obtain z where z: "a < z" "z < b" "f b - f a = (b - a) * f' z" by blast
    have "e * \<bar>a\<bar> \<le> 1 / 2 * \<bar>a\<bar>" using near(3) by (rule mult_right_mono) simp
    then show ?thesis using near(1) z by (intro exI [of _ z]) auto
  next
    case equal
    then show ?thesis by (intro exI [of _ a]) simp
  next
    case greater
    from MVT2 [OF this deriv(1)] obtain z where z: "b < z" "z < a" "f a - f b = (a - b) * f' z" by blast
    have "e * \<bar>a\<bar> \<le> 1 / 2 * \<bar>a\<bar>" using near(3) by (rule mult_right_mono) simp
    then show ?thesis using near(1) z by (intro exI [of _ z]) (auto simp: algebra_simps)
  qed
  then obtain z where z: "f b - f a = (b - a) * f' z" "\<bar>a\<bar> \<le> 2 * \<bar>z\<bar>" by blast
  have "\<bar>f b - f a\<bar> \<le> e * \<bar>a\<bar> * \<bar>f' z\<bar>" unfolding z(1) abs_mult using near(1) by (rule mult_right_mono) simp
  also have "\<dots> \<le> e * (2 * \<bar>z\<bar>) * \<bar>f' z\<bar>" using z(2) near(2) by (intro mult_right_mono mult_left_mono) auto
  also have "\<dots> = 2 * e * (\<bar>z\<bar> * \<bar>f' z\<bar>)" by simp
  also have "\<dots> \<le> 2 * e * k" using deriv(2) near(2) by (intro mult_left_mono) auto
  finally show ?thesis by (simp add: mult.commute mult.left_commute)
qed

lemma arctan_relative:
  assumes "\<bar>b - a\<bar> \<le> e * \<bar>a\<bar>" "0 \<le> e" "e \<le> 1 / 2"
  shows "\<bar>arctan b - arctan a\<bar> \<le> e"
proof -
  have "\<bar>x\<bar> * \<bar>inverse (1 + x\<^sup>2)\<bar> \<le> 1 / 2" for x :: real
  proof -
    have "0 \<le> (\<bar>x\<bar> - 1)\<^sup>2" by simp
    then have "2 * \<bar>x\<bar> \<le> 1 + x\<^sup>2" by (simp add: power2_eq_square algebra_simps)
    moreover have "0 < 1 + x\<^sup>2" by (simp add: add_pos_nonneg)
    ultimately show ?thesis by (simp add: field_simps)
  qed
  from spread_relative [OF DERIV_arctan this assms] show ?thesis by simp
qed

lemma arsinh_relative:
  fixes a b e :: real
  assumes "\<bar>b - a\<bar> \<le> e * \<bar>a\<bar>" "0 \<le> e" "e \<le> 1 / 2"
  shows "\<bar>arsinh b - arsinh a\<bar> \<le> 2 * e"
proof -
  have "\<bar>x\<bar> * \<bar>1 / sqrt (x\<^sup>2 + 1)\<bar> \<le> 1" for x :: real
  proof -
    have "\<bar>x\<bar> \<le> sqrt (x\<^sup>2 + 1)" by (rule real_le_rsqrt) simp
    moreover have "0 < sqrt (x\<^sup>2 + 1)" by (simp add: add_nonneg_pos)
    ultimately show ?thesis by simp
  qed
  from spread_relative [OF arsinh_real_has_field_derivative this assms] show ?thesis by simp
qed

text \<open>The Gudermannian function, the latitude of a height on the map, contracts.\<close>

lemma gudermannian_spread: "\<bar>arctan (sinh b) - arctan (sinh a)\<bar> \<le> \<bar>b - a\<bar>" for a b :: real
proof -
  have deriv: "((\<lambda>x. arctan (sinh x)) has_field_derivative 1 / cosh x) (at x)" for x :: real
  proof -
    have "((\<lambda>x. arctan (sinh x)) has_field_derivative inverse (1 + (sinh x)\<^sup>2) * cosh x) (at x)"
      by (auto intro!: derivative_eq_intros)
    moreover have "1 + (sinh x)\<^sup>2 = (cosh x)\<^sup>2" by (simp add: cosh_square_eq)
    ultimately show ?thesis by (simp add: power2_eq_square field_simps)
  qed
  have "\<bar>arctan (sinh b) - arctan (sinh a)\<bar> \<le> 1 * \<bar>b - a\<bar>"
    by (rule spread [where r = "max \<bar>a\<bar> \<bar>b\<bar>" and f = "\<lambda>x. arctan (sinh x)" and f' = "\<lambda>x. 1 / cosh x"])
      (auto intro: deriv simp: cosh_real_ge_1)
  then show ?thesis by simp
qed

section \<open>Close to the pole\<close>

lemma sin_ge_cubic: "0 \<le> x \<Longrightarrow> x - x ^ 3 / 6 \<le> sin x" for x :: real
proof -
  assume "0 \<le> x"
  have "\<bar>sin x - x\<bar> \<le> x ^ 3 / 6"
    using Maclaurin_sin_bound [of x 3] \<open>0 \<le> x\<close>
    by (simp add: sin_coeff_def lessThan_Suc numeral_eq_Suc field_simps)
  then show ?thesis by linarith
qed

lemma cos_away_from_pole: "1 / 16 \<le> cos x" if "\<bar>x\<bar> \<le> pi / 2 - 1 / 15" for x :: real
proof -
  have "1 / 16 \<le> sin (1 / 15 :: real)" using sin_ge_cubic [of "1 / 15"] by (simp add: power_divide)
  also have "\<dots> = cos (pi / 2 - 1 / 15)" by (simp add: sin_cos_eq)
  also have "\<dots> \<le> cos \<bar>x\<bar>" using that pi_gt_zero by (intro cos_monotone_0_pi_le) auto
  finally show ?thesis by simp
qed

text \<open>The height of a latitude on the map, and the slope that grows towards the poles.\<close>

definition mercator :: "real \<Rightarrow> real" where
  "mercator lat = arsinh (tan lat)"

lemma mercator_spread:
  assumes "\<bar>a\<bar> \<le> pi / 2 - 1 / 15" "\<bar>b\<bar> \<le> pi / 2 - 1 / 15"
  shows "\<bar>mercator b - mercator a\<bar> \<le> 16 * \<bar>b - a\<bar>"
proof (rule spread [OF _ _ assms])
  fix x :: real assume x: "\<bar>x\<bar> \<le> pi / 2 - 1 / 15"
  have cos: "1 / 16 \<le> cos x" by (rule cos_away_from_pole [OF x])
  then have "0 < cos x" by linarith
  have "(tan x)\<^sup>2 + 1 = inverse ((cos x)\<^sup>2)" using \<open>0 < cos x\<close> tan_sec [of x] by (simp add: add.commute power_inverse)
  then have "sqrt ((tan x)\<^sup>2 + 1) = inverse (cos x)" using \<open>0 < cos x\<close> by (simp add: real_sqrt_inverse)
  moreover have "(mercator has_field_derivative 1 / sqrt ((tan x)\<^sup>2 + 1) * inverse ((cos x)\<^sup>2)) (at x)"
    unfolding mercator_def [abs_def] using \<open>0 < cos x\<close>
    by (intro DERIV_chain2 [OF arsinh_real_has_field_derivative] DERIV_tan) simp
  ultimately show "(mercator has_field_derivative inverse (cos x)) (at x)"
    using \<open>0 < cos x\<close> by (simp add: power2_eq_square)
  show "\<bar>inverse (cos x)\<bar> \<le> 16" using cos le_imp_inverse_le [OF cos] by simp
qed

lemma tan_away_from_pole: "\<bar>tan x\<bar> \<le> 16" if "\<bar>x\<bar> \<le> pi / 2 - 1 / 15" for x :: real
proof -
  have cos: "1 / 16 \<le> cos x" by (rule cos_away_from_pole [OF that])
  have "\<bar>sin x\<bar> \<le> 16 * cos x" using cos abs_sin_le_one [of x] by linarith
  then show ?thesis using cos by (simp add: tan_def field_simps)
qed

section \<open>The value of pi\<close>

text \<open>Machin's formula with twelve and four terms of the series.\<close>

lemma arctan_partial_sums:
  assumes "0 \<le> x" "x \<le> 1"
  shows "(\<Sum>i<2 * n. (- 1) ^ i * (1 / real (i * 2 + 1) * x ^ (i * 2 + 1))) \<le> arctan x"
    and "arctan x \<le> (\<Sum>i<2 * n + 1. (- 1) ^ i * (1 / real (i * 2 + 1) * x ^ (i * 2 + 1)))"
proof -
  let ?a = "\<lambda>i. 1 / real (i * 2 + 1) * x ^ (i * 2 + 1)"
  have x: "\<bar>x\<bar> \<le> 1" using assms by simp
  have zero: "?a \<longlonglongrightarrow> 0" by (rule zeroseq_arctan_series [OF x])
  have pos: "0 \<le> ?a i" for i using assms by simp
  have mono: "?a (Suc i) \<le> ?a i" for i
    using assms by (intro mult_mono divide_left_mono power_decreasing) auto
  show "(\<Sum>i<2 * n. (- 1) ^ i * ?a i) \<le> arctan x" "arctan x \<le> (\<Sum>i<2 * n + 1. (- 1) ^ i * ?a i)"
    unfolding arctan_series [OF x] by (rule summable_Leibniz' [OF zero pos mono])+
qed

lemma arctan_fifth: "0.197395559849880758 \<le> arctan (1 / 5)" "arctan (1 / 5) \<le> 0.197395559849880759"
  using arctan_partial_sums [of "1 / 5" 6]
  by (simp_all add: lessThan_Suc numeral_eq_Suc field_simps)

lemma arctan_machin: "0.004184076002074723 \<le> arctan (1 / 239)" "arctan (1 / 239) \<le> 0.004184076002074724"
  using arctan_partial_sums [of "1 / 239" 2]
  by (simp_all add: lessThan_Suc numeral_eq_Suc field_simps)

lemma pi_value: "\<bar>pi - 3.141592653589793238\<bar> \<le> 2 / 10 ^ 17"
proof -
  have pi: "pi = 16 * arctan (1 / 5) - 4 * arctan (1 / 239)" using machin by simp
  have "16 * 0.197395559849880758 - 4 * 0.004184076002074724 \<le> pi"
    "pi \<le> 16 * 0.197395559849880759 - 4 * (0.004184076002074723 :: real)"
    unfolding pi using arctan_fifth arctan_machin by (intro diff_mono mult_left_mono; simp)+
  then show ?thesis unfolding abs_le_iff by simp
qed

end
