(* ===== verification/Dbl_Error.thy ===== *)
theory Dbl_Error
  imports Dbl_Range
begin

text \<open>
  The error of one multiplication, division or subtraction of finite numbers, from a power of
  two above the size of its exact value.
\<close>

lemma small_threshold: "\<bar>x\<bar> < 2 ^ k \<Longrightarrow> k \<le> 53 \<Longrightarrow> \<bar>x\<bar> < overflow_threshold"
proof -
  assume x: "\<bar>x\<bar> < 2 ^ k" "k \<le> 53"
  have "(1 :: real) \<le> pow2 970" by (rule one_le_power_int) simp_all
  then have "18014398509481983 \<le> overflow_threshold" by (simp add: overflow_threshold_def)
  moreover have "(2 :: real) ^ k \<le> 2 ^ 53" using x(2) by (intro power_increasing) simp_all
  ultimately show ?thesis using x(1) by simp
qed

lemma pow2_half_unit: "pow2 (int k - 54) = 2 ^ k / 2 ^ 54"
  by (simp add: power_int_diff)

text \<open>
  A computed value with the exact value it stands for and a bound on its distance from it.
\<close>

definition approx :: "double \<Rightarrow> real \<Rightarrow> real \<Rightarrow> bool" where
  "approx d v e \<longleftrightarrow> dbl_finite d \<and> \<bar>dbl_real d - v\<bar> \<le> e"

lemma approxI: "dbl_finite d \<Longrightarrow> \<bar>dbl_real d - v\<bar> \<le> e \<Longrightarrow> approx d v e"
  by (simp add: approx_def)

lemma approx_trans: "approx d v e \<Longrightarrow> \<bar>v - w\<bar> \<le> e' \<Longrightarrow> e + e' \<le> e'' \<Longrightarrow> approx d w e''"
  unfolding approx_def by linarith

lemma approx_abs: "approx d v e \<Longrightarrow> \<bar>v\<bar> \<le> b \<Longrightarrow> \<bar>dbl_real d\<bar> \<le> b + e"
  unfolding approx_def by linarith

lemma nearest_computed:
  assumes "\<bar>x\<bar> < overflow_threshold \<Longrightarrow> dbl_nearest d x" "x = of_int v / real c" "0 < c" "\<bar>x\<bar> < 2 ^ k" "k \<le> 53"
  shows "approx d x (2 ^ k / 2 ^ 54)"
proof -
  have near: "dbl_nearest d x" using assms(1) small_threshold [OF assms(4,5)] by blast
  have "\<bar>dbl_real d - x\<bar> \<le> pow2 (int k - 54)"
    using nearest_error_rational [OF near assms(2,3), of "int k"] assms(4,5) by simp
  then show ?thesis using nearest_finite [OF near] by (simp add: approx_def pow2_half_unit)
qed

lemma mul_computed:
  assumes "dbl_finite a" "dbl_finite b" "\<bar>dbl_real a * dbl_real b\<bar> < 2 ^ k" "k \<le> 53"
  shows "approx (dbl_mul a b) (dbl_real a * dbl_real b) (2 ^ k / 2 ^ 54)"
proof -
  obtain v c where a: "0 < c" "dbl_real a = of_int v / real c" using dbl_real_rational [OF assms(1)] by blast
  obtain w e where b: "0 < e" "dbl_real b = of_int w / real e" using dbl_real_rational [OF assms(2)] by blast
  show ?thesis
    by (rule nearest_computed [OF dbl_mul_nearest, of _ _ "v * w" "c * e"]) (use a b assms in simp_all)
qed

lemma div_computed:
  assumes "dbl_finite a" "dbl_finite b" "0 < dbl_real b" "\<bar>dbl_real a / dbl_real b\<bar> < 2 ^ k" "k \<le> 53"
  shows "approx (dbl_div a b) (dbl_real a / dbl_real b) (2 ^ k / 2 ^ 54)"
proof -
  obtain v c where a: "0 < c" "dbl_real a = of_int v / real c" using dbl_real_rational [OF assms(1)] by blast
  obtain w e where b: "0 < e" "dbl_real b = of_int w / real e" using dbl_real_rational [OF assms(2)] by blast
  have "0 < w" using assms(3) b by (simp add: zero_less_divide_iff)
  then have "dbl_real a / dbl_real b = of_int (v * int e) / real (c * nat w)" using a b by simp
  from nearest_computed [OF _ this] show ?thesis
    using dbl_div_nearest [OF assms(1,2)] a(1) \<open>0 < w\<close> assms(3-5) by simp
qed

lemma sub_computed:
  assumes "dbl_finite a" "dbl_finite b" "\<bar>dbl_real a - dbl_real b\<bar> < 2 ^ k" "k \<le> 53"
  shows "approx (dbl_sub a b) (dbl_real a - dbl_real b) (2 ^ k / 2 ^ 54)"
proof -
  obtain v c where a: "0 < c" "dbl_real a = of_int v / real c" using dbl_real_rational [OF assms(1)] by blast
  obtain w e where b: "0 < e" "dbl_real b = of_int w / real e" using dbl_real_rational [OF assms(2)] by blast
  have "dbl_real a - dbl_real b = of_int (v * int e - w * int c) / real (c * e)"
    using a b by (simp add: diff_frac_eq)
  from nearest_computed [OF _ this] show ?thesis
    using dbl_sub_nearest [OF assms(1,2)] a(1) b(1) assms(3,4) by simp
qed

end
