(* ===== verification/Slippy_Row.thy ===== *)
theory Slippy_Row
  imports Slippy_Roundtrip Mercator Dbl_Error
begin

text \<open>
  The row of a latitude and the way back (src/frontend/qt-desktop-gcs/src/map/SlippyMath.h), in
  \<open>double\<close> arithmetic. The row goes through the C library's \<open>tan\<close> and \<open>asinh\<close>, the way back
  through \<open>sinh\<close> and \<open>atan\<close>; they are arguments, and each is asked, at the one argument it is
  called with, to be within two units in the last place, as glibc's manual documents for them.
\<close>

section \<open>Constants\<close>

lemma kPi_value: "dbl_finite kPi" "dbl_real kPi = 884279719003555 / 2 ^ 48"
  by (simp_all add: kPi_def dbl_fields)

lemma kPi_accurate: "\<bar>dbl_real kPi - pi\<bar> \<le> 1 / 2 ^ 52" "3 \<le> dbl_real kPi" "dbl_real kPi \<le> 22 / 7"
proof -
  have "\<bar>884279719003555 / 2 ^ 48 - 3.141592653589793238\<bar> \<le> (13 :: real) / 10 ^ 17" by simp
  moreover have "(13 :: real) / 10 ^ 17 + 2 / 10 ^ 17 \<le> 1 / 2 ^ 52" by simp
  ultimately show "\<bar>dbl_real kPi - pi\<bar> \<le> 1 / 2 ^ 52" unfolding kPi_value(2) using pi_value by argo
qed (simp_all add: kPi_value)

lemma pi_range: "31 / 10 \<le> pi" "pi \<le> 22 / 7"
  using pi_value [unfolded abs_le_iff] by simp_all

section \<open>The row\<close>

definition radians :: "double \<Rightarrow> double" where
  "radians lat = dbl_div (dbl_mul lat kPi) (dlit 180 1)"

lemma row_eq: "pp_y (lonLatToTileFrac lib lon lat z) =
    dbl_mul (dbl_div (dbl_sub (dlit 1 1) (dbl_div (m_asinh lib (m_tan lib (radians lat))) kPi)) (dlit 2 1)) (tile_count z)"
  by (simp add: lonLatToTileFrac_def radians_def Let_def)

lemma two: "dbl_finite (dlit 2 1)" "dbl_real (dlit 2 1) = 2"
proof -
  have "dlit 2 1 = 0x4000000000000000"
    by (simp add: dlit_def dbl_pack_def round_dbl_def floor_log_frac_def floor_log_nat.simps
        div_half_even_def Let_def)
  then show "dbl_finite (dlit 2 1)" "dbl_real (dlit 2 1) = 2" by (simp_all add: dbl_fields)
qed

text \<open>Multiplying and dividing by the rounded \<open>pi\<close> instead of \<open>pi\<close>.\<close>

lemma times_kPi:
  assumes "\<bar>x - v\<bar> \<le> e" "\<bar>v\<bar> \<le> b"
  shows "\<bar>x * dbl_real kPi - v * pi\<bar> \<le> 22 / 7 * e + b / 2 ^ 52"
proof -
  have "x * dbl_real kPi - v * pi = (x - v) * dbl_real kPi + v * (dbl_real kPi - pi)" by (simp add: algebra_simps)
  moreover have "\<bar>(x - v) * dbl_real kPi\<bar> \<le> e * (22 / 7)"
    unfolding abs_mult using assms(1) kPi_accurate(2,3) by (intro mult_mono) auto
  moreover have "\<bar>v * (dbl_real kPi - pi)\<bar> \<le> b * (1 / 2 ^ 52)"
    unfolding abs_mult using assms(2) kPi_accurate(1) by (intro mult_mono) auto
  ultimately show ?thesis using abs_add [of "(x - v) * dbl_real kPi" "e * (22 / 7)"] by simp
qed

lemma over_kPi:
  assumes "\<bar>x - v\<bar> \<le> e" "\<bar>v\<bar> \<le> b"
  shows "\<bar>x / dbl_real kPi - v / pi\<bar> \<le> (e + b / 2 ^ 53) / 3"
proof -
  have pos: "0 < dbl_real kPi" using kPi_accurate(2) by linarith
  have "x / dbl_real kPi - v / pi = ((x - v) + v / pi * (pi - dbl_real kPi)) / dbl_real kPi"
    using pos pi_gt_zero by (simp add: field_simps)
  moreover have "\<bar>v / pi\<bar> \<le> b / 2" unfolding abs_divide using assms(2) pi_range by (intro frac_le) auto
  then have "\<bar>v / pi * (pi - dbl_real kPi)\<bar> \<le> b / 2 * (1 / 2 ^ 52)"
    unfolding abs_mult using kPi_accurate(1) assms(2) by (intro mult_mono) (auto simp: abs_minus_commute)
  from abs_add [OF assms(1) this]
  have "\<bar>(x - v) + v / pi * (pi - dbl_real kPi)\<bar> \<le> e + b / 2 ^ 53" by simp
  then have "\<bar>(x - v) + v / pi * (pi - dbl_real kPi)\<bar> / dbl_real kPi \<le> (e + b / 2 ^ 53) / 3"
    using pos kPi_accurate(2) by (intro frac_le) auto
  ultimately show ?thesis using pos by simp
qed

lemma radians_computed:
  assumes "dbl_finite lat" "\<bar>dbl_real lat\<bar> \<le> 86"
  shows "approx (radians lat) (dbl_real lat * pi / 180) (1 / 2 ^ 51)"
proof -
  define p where "p = dbl_mul lat kPi"
  have prod: "\<bar>dbl_real lat * dbl_real kPi\<bar> \<le> 86 * (22 / 7)"
    unfolding abs_mult using assms(2) kPi_accurate(2,3) by (intro mult_mono) auto
  have "approx p (dbl_real lat * dbl_real kPi) (2 ^ 9 / 2 ^ 54)"
    unfolding p_def using assms(1) kPi_value(1) prod by (intro mul_computed) simp_all
  then have p: "dbl_finite p" "\<bar>dbl_real p - dbl_real lat * dbl_real kPi\<bar> \<le> 64 / 2 ^ 51"
    by (simp_all add: approx_def)
  have "\<bar>dbl_real lat * dbl_real kPi - dbl_real lat * pi\<bar> \<le> 43 / 2 ^ 51"
    using times_kPi [of "dbl_real lat" "dbl_real lat" 0 86] assms(2) by simp
  from abs_le_trans [OF p(2) this] have err: "\<bar>dbl_real p / 180 - dbl_real lat * pi / 180\<bar> \<le> 107 / 180 / 2 ^ 51"
    by (simp add: abs_le_iff field_simps)
  have "\<bar>dbl_real p / 180\<bar> < 2" using abs_near [OF p(2) prod] by simp
  then have "approx (radians lat) (dbl_real p / 180) (2 ^ 1 / 2 ^ 54)"
    using div_computed [OF p(1) degrees(1), of 1] unfolding degrees(2) radians_def p_def by simp
  from approx_trans [OF this err] show ?thesis by simp
qed

text \<open>What the C library owes: a value of a function, within two units in the last place.\<close>

definition faithful :: "real \<Rightarrow> double \<Rightarrow> bool" where
  "faithful v d \<longleftrightarrow> approx d v (\<bar>v\<bar> / 2 ^ 51)"

text \<open>\<open>tan\<close> and \<open>asinh\<close> at the arguments the projection gives them.\<close>

definition libm_forward :: "libm \<Rightarrow> double \<Rightarrow> bool" where
  "libm_forward lib lat \<longleftrightarrow>
     faithful (tan (dbl_real (radians lat))) (m_tan lib (radians lat)) \<and>
     faithful (arsinh (dbl_real (m_tan lib (radians lat)))) (m_asinh lib (m_tan lib (radians lat)))"

lemma latitude_range:
  assumes "\<bar>lat\<bar> \<le> 86"
  shows "\<bar>lat * pi / 180\<bar> \<le> pi / 2 - 1 / 15 - 1 / 2 ^ 51"
proof -
  have "\<bar>lat * pi / 180\<bar> \<le> 86 * pi / 180"
    using mult_right_mono [OF assms, of pi] pi_gt_zero by (simp add: abs_mult)
  then show ?thesis using pi_range by (simp add: field_simps)
qed

lemma mercator_bound: "\<bar>x\<bar> \<le> pi / 2 - 1 / 15 \<Longrightarrow> \<bar>mercator x\<bar> \<le> 16"
  using abs_arsinh_le [of "tan x"] tan_away_from_pole [of x] by (simp add: mercator_def)

lemma height_computed:
  assumes "dbl_finite lat" "\<bar>dbl_real lat\<bar> \<le> 86" "libm_forward lib lat"
  shows "approx (m_asinh lib (m_tan lib (radians lat))) (mercator (dbl_real lat * pi / 180)) (35 / 2 ^ 51)"
proof -
  define t where "t = m_tan lib (radians lat)"
  note r = radians_computed [OF assms(1,2)]
  note range = latitude_range [OF assms(2)]
  have rr: "\<bar>dbl_real (radians lat)\<bar> \<le> pi / 2 - 1 / 15" using approx_abs [OF r range] by simp
  have t: "dbl_finite t" "\<bar>dbl_real t - tan (dbl_real (radians lat))\<bar> \<le> 1 / 2 ^ 51 * \<bar>tan (dbl_real (radians lat))\<bar>"
    using assms(3) by (simp_all add: libm_forward_def faithful_def approx_def t_def)
  have "\<bar>dbl_real t\<bar> \<le> 16 + 16 / 2 ^ 51"
    using abs_near [OF t(2) tan_away_from_pole [OF rr]] tan_away_from_pole [OF rr] by simp
  then have size: "\<bar>arsinh (dbl_real t)\<bar> \<le> 17" using abs_arsinh_le [of "dbl_real t"] by simp
  have e1: "\<bar>arsinh (dbl_real t) - mercator (dbl_real (radians lat))\<bar> \<le> 2 / 2 ^ 51"
    unfolding mercator_def using arsinh_relative [OF t(2)] by simp
  have "\<bar>mercator (dbl_real (radians lat)) - mercator (dbl_real lat * pi / 180)\<bar> \<le>
      16 * \<bar>dbl_real (radians lat) - dbl_real lat * pi / 180\<bar>"
    by (rule mercator_spread [OF _ rr]) (use range in simp)
  then have e2: "\<bar>mercator (dbl_real (radians lat)) - mercator (dbl_real lat * pi / 180)\<bar> \<le> 16 / 2 ^ 51"
    using r by (simp add: approx_def)
  have "approx (m_asinh lib t) (arsinh (dbl_real t)) (17 / 2 ^ 51)"
    using assms(3) size by (simp add: libm_forward_def faithful_def approx_def t_def)
  from approx_trans [OF this abs_le_trans [OF e1 e2]] show ?thesis by (simp add: t_def)
qed

lemma height_over_pi: "\<bar>m\<bar> \<le> 16 \<Longrightarrow> \<bar>m / pi\<bar> \<le> 6"
  using pi_range by (simp add: divide_le_eq)

lemma row_part_computed:
  assumes "dbl_finite lat" "\<bar>dbl_real lat\<bar> \<le> 86" "libm_forward lib lat"
  defines "m \<equiv> mercator (dbl_real lat * pi / 180)"
  shows "approx (dbl_div (dbl_sub (dlit 1 1) (dbl_div (m_asinh lib (m_tan lib (radians lat))) kPi)) (dlit 2 1))
    ((1 - m / pi) / 2) (8 / 2 ^ 51)"
proof -
  define a where "a = m_asinh lib (m_tan lib (radians lat))"
  define q where "q = dbl_div a kPi"
  define d where "d = dbl_sub (dlit 1 1) q"
  have a: "dbl_finite a" "\<bar>dbl_real a - m\<bar> \<le> 35 / 2 ^ 51"
    using height_computed [OF assms(1-3)] by (simp_all add: approx_def a_def m_def)
  have m: "\<bar>m\<bar> \<le> 16" unfolding m_def using mercator_bound latitude_range [OF assms(2)] by simp
  have mp: "\<bar>m / pi\<bar> \<le> 6" by (rule height_over_pi [OF m])
  have e: "\<bar>dbl_real a / dbl_real kPi - m / pi\<bar> \<le> 13 / 2 ^ 51" using over_kPi [OF a(2) m] by simp
  have size: "\<bar>dbl_real a / dbl_real kPi\<bar> < 2 ^ 3" by (rule le_less_trans [OF abs_near [OF e mp]]) simp
  have "approx q (dbl_real a / dbl_real kPi) (2 ^ 3 / 2 ^ 54)"
    unfolding q_def using a(1) kPi_value(1) kPi_accurate(2) size by (intro div_computed) simp_all
  from approx_trans [OF this e, of "14 / 2 ^ 51"] have q: "approx q (m / pi) (14 / 2 ^ 51)" by simp
  have "\<bar>dbl_real q\<bar> < 7" using approx_abs [OF q mp] by (rule le_less_trans) simp
  then have "\<bar>1 - dbl_real q\<bar> < 2 ^ 3" by (simp add: abs_less_iff)
  then have "approx d (1 - dbl_real q) (2 ^ 3 / 2 ^ 54)"
    unfolding d_def using q sub_computed [of "dlit 1 1" q 3] by (simp add: approx_def del: One_nat_def)
  moreover have "\<bar>(1 - dbl_real q) - (1 - m / pi)\<bar> \<le> 14 / 2 ^ 51" using q by (simp add: approx_def abs_minus_commute)
  ultimately have d: "approx d (1 - m / pi) (15 / 2 ^ 51)" by (rule approx_trans) simp
  have mp1: "\<bar>1 - m / pi\<bar> \<le> 7" using mp by linarith
  have "approx (dbl_div d (dlit 2 1)) (dbl_real d / 2) (2 ^ 2 / 2 ^ 54)"
    using d div_computed [of d "dlit 2 1" 2] approx_abs [OF d mp1] by (simp add: approx_def two del: One_nat_def)
  moreover have "\<bar>dbl_real d / 2 - (1 - m / pi) / 2\<bar> \<le> 15 / 2 / 2 ^ 51"
    using d by (simp add: approx_def abs_le_iff field_simps)
  ultimately show ?thesis unfolding a_def q_def d_def by (rule approx_trans) simp
qed

lemma axis_power: obtains k where "k \<le> 22" "(of_int (tiles_per_axis z) :: real) = 2 ^ k"
  using tiles_per_axis_power [of z] that [of "nat (max 0 (min z 22))"] by simp

lemma row_computed:
  assumes "dbl_finite lat" "\<bar>dbl_real lat\<bar> \<le> 86" "libm_forward lib lat"
  shows "approx (pp_y (lonLatToTileFrac lib lon lat z)) (snd (lon_lat_to_tile_frac lon' (dbl_real lat) z))
    (of_int (tiles_per_axis z) / 2 ^ 47)"
proof -
  define m where "m = mercator (dbl_real lat * pi / 180)"
  define h where "h = dbl_div (dbl_sub (dlit 1 1) (dbl_div (m_asinh lib (m_tan lib (radians lat))) kPi)) (dlit 2 1)"
  obtain k where k: "k \<le> 22" "(of_int (tiles_per_axis z) :: real) = 2 ^ k" by (rule axis_power)
  have h: "approx h ((1 - m / pi) / 2) (8 / 2 ^ 51)"
    unfolding h_def m_def by (rule row_part_computed [OF assms])
  have "\<bar>m\<bar> \<le> 16" unfolding m_def using mercator_bound latitude_range [OF assms(2)] by simp
  from height_over_pi [OF this] have "\<bar>1 - m / pi\<bar> \<le> 7" by linarith
  then have "\<bar>(1 - m / pi) / 2\<bar> \<le> 3.6" by simp
  from approx_abs [OF h this] have "\<bar>dbl_real h\<bar> < 4" by simp
  then have "\<bar>dbl_real h * 2 ^ k\<bar> < 2 ^ (k + 2)" by (simp add: abs_mult)
  then have "approx (dbl_mul h (tile_count z)) (dbl_real h * 2 ^ k) (2 ^ (k + 2) / 2 ^ 54)"
    using h mul_computed [of h "tile_count z" "k + 2"] k tile_count_value [of z] by (simp add: approx_def)
  moreover have "\<bar>dbl_real h * 2 ^ k - (1 - m / pi) / 2 * 2 ^ k\<bar> \<le> 8 / 2 ^ 51 * 2 ^ k"
    unfolding left_diff_distrib [symmetric] abs_mult using h by (intro mult_mono) (auto simp: approx_def)
  ultimately have "approx (dbl_mul h (tile_count z)) ((1 - m / pi) / 2 * 2 ^ k) (2 ^ k / 2 ^ 47)"
    by (rule approx_trans) simp
  then show ?thesis
    by (simp add: row_eq lon_lat_to_tile_frac_def Let_def h_def m_def mercator_def k(2))
qed

text \<open>
  C40. The row of a latitude of the map, computed with rounding, differs from the exact projection by
  at most one part in \<open>2 ^ 47\<close> of the axis: at zoom level 22, with 256 pixels to the tile, by less
  than a hundred-thousandth of a pixel.
\<close>

theorem tile_row_error:
  fixes lib :: libm and lon lat :: double and lon' :: real and z :: int
  assumes "dbl_finite lat" "\<bar>dbl_real lat\<bar> \<le> 86" "libm_forward lib lat"
  shows "dbl_finite (pp_y (lonLatToTileFrac lib lon lat z)) \<and>
         \<bar>dbl_real (pp_y (lonLatToTileFrac lib lon lat z)) - snd (lon_lat_to_tile_frac lon' (dbl_real lat) z)\<bar>
           \<le> of_int (tiles_per_axis z) / 2 ^ 47"
  using row_computed [OF assms, where lon' = lon'] by (simp add: approx_def)

section \<open>The way back\<close>

text \<open>The height on the map the way back recovers from a row.\<close>

definition map_height :: "double \<Rightarrow> int \<Rightarrow> double" where
  "map_height y z = dbl_mul kPi (dbl_sub (dlit 1 1) (dbl_div (dbl_mul (dlit 2 1) y) (tile_count z)))"

text \<open>\<open>sinh\<close> and \<open>atan\<close> at the arguments the way back gives them.\<close>

definition libm_back :: "libm \<Rightarrow> double \<Rightarrow> int \<Rightarrow> bool" where
  "libm_back lib y z \<longleftrightarrow>
     faithful (sinh (dbl_real (map_height y z))) (m_sinh lib (map_height y z)) \<and>
     faithful (arctan (dbl_real (m_sinh lib (map_height y z)))) (m_atan lib (m_sinh lib (map_height y z)))"

lemma latitude_eq: "snd (tileFracToLonLat lib x y z) =
    dbl_div (dbl_mul (m_atan lib (m_sinh lib (map_height y z))) (dlit 180 1)) kPi"
  by (simp add: tileFracToLonLat_def map_height_def Let_def)

lemma map_height_computed:
  assumes "approx y ((1 - m / pi) / 2 * of_int (tiles_per_axis z)) (of_int (tiles_per_axis z) / 2 ^ 47)" "\<bar>m\<bar> \<le> 16"
  shows "approx (map_height y z) m (128 / 2 ^ 51)"
proof -
  define n :: real where "n = of_int (tiles_per_axis z)"
  define w where "w = dbl_mul (dlit 2 1) y"
  define v where "v = dbl_div w (tile_count z)"
  define d where "d = dbl_sub (dlit 1 1) v"
  obtain k where k: "k \<le> 22" "n = 2 ^ k" unfolding n_def by (rule axis_power)
  then have n: "0 < n" by simp
  note mp = height_over_pi [OF assms(2)]
  have w: "dbl_finite w" "\<bar>dbl_real w / n - (1 - m / pi)\<bar> \<le> 34 / 2 ^ 51"
  proof -
    have "\<bar>1 - m / pi\<bar> \<le> 7" using mp by linarith
    then have "\<bar>(1 - m / pi) / 2 * n\<bar> \<le> 7 / 2 * n" using n by (simp add: abs_mult)
    from approx_abs [OF assms(1) [folded n_def] this] have "\<bar>2 * dbl_real y\<bar> \<le> (7 + 32 / 2 ^ 51) * n" by simp
    also have "\<dots> < 2 ^ (k + 3)" unfolding k(2) by (simp add: power_add)
    finally have "approx w (2 * dbl_real y) (2 ^ (k + 3) / 2 ^ 54)"
      unfolding w_def using assms(1) mul_computed [of "dlit 2 1" y "k + 3"] k(1) by (simp add: two approx_def del: One_nat_def)
    moreover have "\<bar>2 * dbl_real y - (1 - m / pi) * n\<bar> \<le> 32 / 2 ^ 51 * n"
      using assms(1) by (simp add: approx_def n_def abs_le_iff field_simps)
    ultimately have "approx w ((1 - m / pi) * n) (34 / 2 ^ 51 * n)"
      by (rule approx_trans) (simp add: k(2) power_add)
    then show "dbl_finite w" "\<bar>dbl_real w / n - (1 - m / pi)\<bar> \<le> 34 / 2 ^ 51"
      using n by (simp_all add: approx_def abs_le_iff field_simps)
  qed
  have mp1: "\<bar>1 - m / pi\<bar> \<le> 7" using mp by linarith
  have "\<bar>dbl_real w / n\<bar> < 2 ^ 3" by (rule le_less_trans [OF abs_near [OF w(2) mp1]]) simp
  then have "approx v (dbl_real w / n) (2 ^ 3 / 2 ^ 54)"
    unfolding v_def using w(1) n div_computed [of w "tile_count z" 3] by (simp add: tile_count_value n_def)
  from approx_trans [OF this w(2), of "35 / 2 ^ 51"] have v: "approx v (1 - m / pi) (35 / 2 ^ 51)" by simp
  have "\<bar>dbl_real v\<bar> < 8" using approx_abs [OF v mp1] by (rule le_less_trans) simp
  then have "\<bar>1 - dbl_real v\<bar> < 2 ^ 4" by (simp add: abs_less_iff)
  then have "approx d (1 - dbl_real v) (2 ^ 4 / 2 ^ 54)"
    unfolding d_def using v sub_computed [of "dlit 1 1" v 4] by (simp add: approx_def del: One_nat_def)
  moreover have "\<bar>(1 - dbl_real v) - m / pi\<bar> \<le> 35 / 2 ^ 51" using v unfolding approx_def by linarith
  ultimately have d: "approx d (m / pi) (37 / 2 ^ 51)" by (rule approx_trans) simp
  have e: "\<bar>dbl_real d * dbl_real kPi - m\<bar> \<le> 120 / 2 ^ 51"
    using times_kPi [of "dbl_real d" "m / pi" "37 / 2 ^ 51" 6] d mp by (simp add: approx_def)
  have "\<bar>dbl_real d * dbl_real kPi\<bar> < 2 ^ 5" by (rule le_less_trans [OF abs_near [OF e assms(2)]]) simp
  then have "approx (map_height y z) (dbl_real d * dbl_real kPi) (2 ^ 5 / 2 ^ 54)"
    using d kPi_value(1) mul_computed [of kPi d 5] by (simp add: approx_def map_height_def d_def v_def w_def mult.commute)
  from this e show ?thesis by (rule approx_trans) simp
qed

text \<open>
  C39. A latitude of the map survives the projection: projected to a row at any zoom level and back
  it is off by at most \<open>2 ^ -38\<close> degrees, less than half a micrometre on the ground.
\<close>

theorem latitude_survives_the_projection:
  fixes lib :: libm and lon lat x :: double and z :: int
  defines "y \<equiv> pp_y (lonLatToTileFrac lib lon lat z)"
  assumes "dbl_finite lat" "\<bar>dbl_real lat\<bar> \<le> 86" "libm_forward lib lat" "libm_back lib y z"
  shows "dbl_finite (snd (tileFracToLonLat lib x y z)) \<and>
         \<bar>dbl_real (snd (tileFracToLonLat lib x y z)) - dbl_real lat\<bar> \<le> 1 / 2 ^ 38"
proof -
  define a where "a = dbl_real lat * pi / 180"
  define s where "s = map_height y z"
  define v where "v = m_sinh lib s"
  define g where "g = m_atan lib v"
  define l where "l = dbl_mul g (dlit 180 1)"
  have a: "\<bar>a\<bar> \<le> pi / 2 - 1 / 15" "\<bar>a\<bar> < pi / 2" unfolding a_def using latitude_range [OF assms(3)] by simp_all
  have "approx y ((1 - mercator a / pi) / 2 * of_int (tiles_per_axis z)) (of_int (tiles_per_axis z) / 2 ^ 47)"
    using row_computed [OF assms(2-4)] by (simp add: y_def lon_lat_to_tile_frac_def Let_def mercator_def a_def)
  from map_height_computed [OF this mercator_bound [OF a(1)]]
  have s: "approx s (mercator a) (128 / 2 ^ 51)" by (simp add: s_def)
  have "arctan (sinh (mercator a)) = a"
    using a(2) by (simp add: mercator_def abs_less_iff arctan_tan)
  with gudermannian_spread [of "dbl_real s" "mercator a"] s
  have e1: "\<bar>arctan (sinh (dbl_real s)) - a\<bar> \<le> 128 / 2 ^ 51" by (simp add: approx_def)
  have "\<bar>dbl_real v - sinh (dbl_real s)\<bar> \<le> 1 / 2 ^ 51 * \<bar>sinh (dbl_real s)\<bar>"
    using assms(5) by (simp add: libm_back_def faithful_def approx_def v_def s_def)
  from arctan_relative [OF this] have e2: "\<bar>arctan (dbl_real v) - arctan (sinh (dbl_real s))\<bar> \<le> 1 / 2 ^ 51" by simp
  have "\<bar>arctan (dbl_real v)\<bar> \<le> 2"
    using arctan_bounded [of "dbl_real v"] pi_range by (simp add: abs_le_iff)
  then have "approx g (arctan (dbl_real v)) (2 / 2 ^ 51)"
    using assms(5) by (simp add: libm_back_def faithful_def approx_def g_def v_def s_def)
  from approx_trans [OF this abs_le_trans [OF e2 e1], of "131 / 2 ^ 51"]
  have g: "approx g a (131 / 2 ^ 51)" by simp
  have a2: "\<bar>a\<bar> \<le> 2" using a(1) pi_range by simp
  have "\<bar>dbl_real g * 180\<bar> < 2 ^ 9" using approx_abs [OF g a2] by simp
  then have "approx l (dbl_real g * 180) (2 ^ 9 / 2 ^ 54)"
    unfolding l_def using g mul_computed [of g "dlit 180 1" 9] by (simp add: approx_def del: One_nat_def)
  moreover have e3: "\<bar>dbl_real g * 180 - dbl_real lat * pi\<bar> \<le> 131 * 180 / 2 ^ 51"
    using g by (simp add: approx_def a_def abs_le_iff field_simps)
  ultimately have l: "approx l (dbl_real lat * pi) (131 * 180 / 2 ^ 51 + 64 / 2 ^ 51)" by (rule approx_trans) simp
  have "\<bar>dbl_real lat * pi\<bar> \<le> 360" using a2 by (simp add: a_def)
  with l have e4: "\<bar>dbl_real l / dbl_real kPi - dbl_real lat\<bar> \<le> 7950 / 2 ^ 51"
    using over_kPi [of "dbl_real l" "dbl_real lat * pi" "131 * 180 / 2 ^ 51 + 64 / 2 ^ 51" 360] by (simp add: approx_def)
  have "\<bar>dbl_real l / dbl_real kPi\<bar> < 2 ^ 7" by (rule le_less_trans [OF abs_near [OF e4 assms(3)]]) simp
  then have "approx (dbl_div l kPi) (dbl_real l / dbl_real kPi) (2 ^ 7 / 2 ^ 54)"
    using l kPi_value(1) kPi_accurate(2) by (intro div_computed) (simp_all add: approx_def)
  from approx_trans [OF this e4, of "1 / 2 ^ 38"] show ?thesis
    by (simp add: approx_def latitude_eq l_def g_def v_def s_def)
qed

section \<open>A library that meets its part\<close>

text \<open>
  Close to the equator the identity is within two units in the last place of all four
  functions: they differ from it by the third power of the argument.
\<close>

lemma tan_small: "\<bar>tan x - x\<bar> \<le> 256 * x\<^sup>2 * \<bar>x\<bar>" if "\<bar>x\<bar> \<le> 1" for x :: real
proof -
  have small: "\<bar>z\<bar> \<le> pi / 2 - 1 / 15" "0 < cos z" if "\<bar>z\<bar> \<le> \<bar>x\<bar>" for z
  proof -
    show "\<bar>z\<bar> \<le> pi / 2 - 1 / 15" using that \<open>\<bar>x\<bar> \<le> 1\<close> pi_range by simp
    from cos_away_from_pole [OF this] show "0 < cos z" by simp
  qed
  have "\<bar>(tan x - x) - (tan 0 - 0)\<bar> \<le> 256 * x\<^sup>2 * \<bar>x - 0\<bar>"
  proof (rule spread [where f = "\<lambda>z. tan z - z" and f' = "\<lambda>z. (tan z)\<^sup>2" and r = "\<bar>x\<bar>"])
    fix z assume z: "\<bar>z\<bar> \<le> \<bar>x\<bar>"
    show "((\<lambda>z. tan z - z) has_field_derivative (tan z)\<^sup>2) (at z)"
      using small(2) [OF z] tan_sec [of z] by (auto intro!: derivative_eq_intros simp: power_inverse)
    have "1 / 16 \<le> cos z" by (rule cos_away_from_pole [OF small(1) [OF z]])
    then have "1 \<le> 16 * cos z" by simp
    then have "\<bar>z\<bar> * 1 \<le> \<bar>z\<bar> * (16 * cos z)" by (intro mult_left_mono) auto
    then have "\<bar>sin z\<bar> \<le> 16 * \<bar>z\<bar> * cos z" using abs_sin_x_le_abs_x [of z] by simp
    then have "\<bar>tan z\<bar> \<le> 16 * \<bar>z\<bar>" using small(2) [OF z] by (simp add: tan_def divide_le_eq)
    then have "\<bar>tan z\<bar> \<le> \<bar>16 * x\<bar>" using z by simp
    then have "(tan z)\<^sup>2 \<le> (16 * x)\<^sup>2" by (simp only: abs_le_square_iff)
    then show "\<bar>(tan z)\<^sup>2\<bar> \<le> 256 * x\<^sup>2" by (simp add: power_mult_distrib)
  qed simp_all
  then show ?thesis by simp
qed

lemma arsinh_small: "\<bar>arsinh x - x\<bar> \<le> 256 * x\<^sup>2 * \<bar>x\<bar>" for x :: real
proof -
  have "\<bar>(arsinh x - x) - (arsinh 0 - 0)\<bar> \<le> 256 * x\<^sup>2 * \<bar>x - 0\<bar>"
  proof (rule spread [where f = "\<lambda>z. arsinh z - z" and f' = "\<lambda>z. 1 / sqrt (z\<^sup>2 + 1) - 1" and r = "\<bar>x\<bar>"])
    fix z assume z: "\<bar>z\<bar> \<le> \<bar>x\<bar>"
    show "((\<lambda>z. arsinh z - z) has_field_derivative 1 / sqrt (z\<^sup>2 + 1) - 1) (at z)"
      by (intro DERIV_diff arsinh_real_has_field_derivative DERIV_ident)
    define w where "w = sqrt (z\<^sup>2 + 1)"
    have "z\<^sup>2 + 1 \<le> (z\<^sup>2 + 1)\<^sup>2" by (rule self_le_power) simp_all
    then have w: "1 \<le> w" "w \<le> z\<^sup>2 + 1" unfolding w_def by (auto intro: real_le_lsqrt)
    have "1 - 1 / w = (w - 1) / w" using w(1) by (simp add: field_simps)
    also have "\<dots> \<le> (z\<^sup>2 + 1 - 1) / 1" using w by (intro frac_le) auto
    finally have "1 - 1 / w \<le> z\<^sup>2" by simp
    moreover have "0 \<le> 1 - 1 / w" using w(1) by simp
    moreover have "z\<^sup>2 \<le> x\<^sup>2" using z by (simp only: abs_le_square_iff)
    moreover have "0 \<le> x\<^sup>2" by simp
    ultimately show "\<bar>1 / sqrt (z\<^sup>2 + 1) - 1\<bar> \<le> 256 * x\<^sup>2" unfolding w_def [symmetric] abs_le_iff by linarith
  qed simp_all
  then show ?thesis by simp
qed

lemma sinh_le_double: "\<bar>sinh x\<bar> \<le> 2 * \<bar>x\<bar>" if "\<bar>x\<bar> \<le> 1" for x :: real
proof -
  have "\<bar>sinh x - sinh 0\<bar> \<le> 2 * \<bar>x - 0\<bar>"
  proof (rule spread [where r = 1 and f' = cosh])
    fix z :: real assume z: "\<bar>z\<bar> \<le> 1"
    show "(sinh has_field_derivative cosh z) (at z)" by (auto intro!: derivative_eq_intros)
    have "exp z \<le> exp 1" "exp (- z) \<le> exp (1 :: real)" using z by (auto simp: abs_le_iff)
    then have "exp z \<le> 3" "exp (- z) \<le> 3" using exp_le by linarith+
    moreover have "z \<le> 0 \<Longrightarrow> exp z \<le> 1" "0 \<le> z \<Longrightarrow> exp (- z) \<le> 1" by simp_all
    ultimately have "exp z + exp (- z) \<le> 4" by linarith
    then show "\<bar>cosh z\<bar> \<le> 2" by (simp add: cosh_field_def)
  qed (use that in auto)
  then show ?thesis by simp
qed

definition equator_edge :: double where "equator_edge = 0x3DF0000000000000"

lemma equator_edge_value: "dbl_finite equator_edge" "dbl_real equator_edge = 1 / 2 ^ 32"
  by (simp_all add: equator_edge_def dbl_fields)

lemma faithful_small:
  assumes "\<bar>v - dbl_real d\<bar> \<le> 256 * x\<^sup>2 * \<bar>x\<bar>" "x = v \<or> x = dbl_real d" "\<bar>x\<bar> \<le> 1 / 2 ^ 31" "dbl_finite d"
  shows "faithful v d"
proof -
  have "\<bar>x\<bar>\<^sup>2 \<le> (1 / 2 ^ 31)\<^sup>2" using assms(3) by (intro power_mono) auto
  then have "256 * x\<^sup>2 \<le> 1 / 2 ^ 54" by (simp add: power_divide)
  then have "256 * x\<^sup>2 * \<bar>x\<bar> \<le> 1 / 2 ^ 54 * \<bar>x\<bar>" by (rule mult_right_mono) simp
  then have err: "\<bar>v - dbl_real d\<bar> \<le> \<bar>x\<bar> / 2 ^ 54" using assms(1) by simp
  then have "\<bar>v - dbl_real d\<bar> \<le> \<bar>x\<bar> / 2" by simp
  then have "\<bar>x\<bar> \<le> 2 * \<bar>v\<bar>" if "x = dbl_real d" unfolding that by linarith
  then have "\<bar>x\<bar> \<le> 2 * \<bar>v\<bar>" using assms(2) by auto
  with err assms(4) show ?thesis by (simp add: faithful_def approx_def abs_minus_commute)
qed

lemma plain_forward:
  assumes "dbl_finite (radians lat)" "\<bar>dbl_real (radians lat)\<bar> \<le> 1 / 2 ^ 31"
  shows "libm_forward plain_libm lat"
  using assms tan_small [of "dbl_real (radians lat)"] arsinh_small [of "dbl_real (radians lat)"]
  by (auto simp: libm_forward_def plain_libm_def intro!: faithful_small [where x = "dbl_real (radians lat)"])

lemma plain_back:
  assumes "dbl_finite (map_height y z)" "\<bar>dbl_real (map_height y z)\<bar> \<le> 1 / 2 ^ 32"
  shows "libm_back plain_libm y z"
proof -
  define x where "x = dbl_real (map_height y z)"
  have x: "\<bar>x\<bar> \<le> 1 / 2 ^ 32" using assms(2) by (simp add: x_def)
  have s: "\<bar>sinh x\<bar> \<le> 1 / 2 ^ 31" using sinh_le_double [of x] x by simp
  have a: "\<bar>arctan x\<bar> \<le> 1 / 2 ^ 31" "\<bar>arctan x\<bar> \<le> 1"
    using gudermannian_spread [of "arsinh x" 0] abs_arsinh_le [of x] x by simp_all
  have "\<bar>sinh x - x\<bar> \<le> 256 * (sinh x)\<^sup>2 * \<bar>sinh x\<bar>"
    using arsinh_small [of "sinh x"] by (simp add: arsinh_sinh_real abs_minus_commute)
  from faithful_small [OF _ _ s assms(1)] this have "faithful (sinh x) (map_height y z)" by (simp add: x_def)
  moreover have "\<bar>arctan x - x\<bar> \<le> 256 * (arctan x)\<^sup>2 * \<bar>arctan x\<bar>"
    using tan_small [OF a(2)] by (simp add: tan_arctan abs_minus_commute)
  from faithful_small [OF _ _ a(1) assms(1)] this have "faithful (arctan x) (map_height y z)" by (simp add: x_def)
  ultimately show ?thesis by (simp add: libm_back_def plain_libm_def x_def)
qed

text \<open>A latitude of about a fortieth of a millimetre north of the equator.\<close>

lemma edge_angle: "\<bar>dbl_real equator_edge * pi / 180\<bar> \<le> 1 / 2 ^ 37"
  using pi_range by (simp add: equator_edge_value)

lemma edge_forward: "libm_forward plain_libm equator_edge"
proof (rule plain_forward)
  have c: "approx (radians equator_edge) (dbl_real equator_edge * pi / 180) (1 / 2 ^ 51)"
    by (rule radians_computed) (simp_all add: equator_edge_value)
  then show "dbl_finite (radians equator_edge)" by (simp add: approx_def)
  show "\<bar>dbl_real (radians equator_edge)\<bar> \<le> 1 / 2 ^ 31" using approx_abs [OF c edge_angle] by simp
qed

lemma edge_back: "libm_back plain_libm (pp_y (lonLatToTileFrac plain_libm 0 equator_edge 10)) 10"
proof (rule plain_back)
  define a where "a = dbl_real equator_edge * pi / 180"
  have a: "\<bar>a\<bar> \<le> 1 / 2 ^ 37" unfolding a_def by (rule edge_angle)
  then have range: "\<bar>a\<bar> \<le> pi / 2 - 1 / 15" using pi_range by simp
  have "mercator 0 = 0" by (simp add: mercator_def)
  with mercator_spread [of 0 a] range pi_range have m: "\<bar>mercator a\<bar> \<le> 16 / 2 ^ 37" using a by simp
  have c: "approx (pp_y (lonLatToTileFrac plain_libm 0 equator_edge 10))
      ((1 - mercator a / pi) / 2 * of_int (tiles_per_axis 10)) (of_int (tiles_per_axis 10) / 2 ^ 47)"
    using row_computed [of equator_edge plain_libm 0 10 0] edge_forward
    by (simp add: equator_edge_value lon_lat_to_tile_frac_def Let_def mercator_def a_def)
  have h: "approx (map_height (pp_y (lonLatToTileFrac plain_libm 0 equator_edge 10)) 10) (mercator a) (128 / 2 ^ 51)"
    by (rule map_height_computed [OF c]) (use m in simp)
  then show "dbl_finite (map_height (pp_y (lonLatToTileFrac plain_libm 0 equator_edge 10)) 10)"
    by (simp add: approx_def)
  show "\<bar>dbl_real (map_height (pp_y (lonLatToTileFrac plain_libm 0 equator_edge 10)) 10)\<bar> \<le> 1 / 2 ^ 32"
    using approx_abs [OF h m] by simp
qed

theorem tile_row_error_witness:
  "\<bar>dbl_real (pp_y (lonLatToTileFrac plain_libm 0 equator_edge 10)) -
    snd (lon_lat_to_tile_frac 0 (1 / 2 ^ 32) 10)\<bar> \<le> 1 / 2 ^ 37"
  using tile_row_error [OF _ _ edge_forward, where lon = 0 and lon' = 0 and z = 10]
  by (simp add: equator_edge_value tiles_per_axis_def)

theorem latitude_survives_the_projection_witness:
  "\<bar>dbl_real (snd (tileFracToLonLat plain_libm 0 (pp_y (lonLatToTileFrac plain_libm 0 equator_edge 10)) 10)) -
    1 / 2 ^ 32\<bar> \<le> 1 / 2 ^ 38"
  using latitude_survives_the_projection [OF _ _ edge_forward edge_back, where x = 0]
  by (simp add: equator_edge_value)

end
