(* ===== verification/Spec2Isabelle.thy ===== *)
theory Spec2Isabelle
  imports
    Supervise_Link
    Sequence
    Uuid_Rng
    Concurrent_Consumer
    Stream_Port
    Jet_Delivery
    Config_Double
    Logger_Threads
    Json_Reader
    Metric_Headers
    Metric_Scrape
    Http_Server
    Accept_Hangup
    Accept_Timing
    Telemetry_Position
    Gcs_Main
    Slippy_Row
begin

text \<open>
  A model of the C++ code of UAOP, a platform for operating unmanned aircraft, and the
  theorems that make it correct. Paths are under src/.

  The program. The services share a library, backend/services/common: error values, layered
  configuration, health and metric registries with the HTTP endpoint that serves them, a
  structured logger, sequence counters, identifiers, a dedup set and the JetStream port with
  its in-memory adapter. tools/service-template is the service every other one is copied
  from: a link monitor (domain), a use case that publishes its transitions through a port,
  an adapter and the wiring. frontend/qt-desktop-gcs is the ground control station: the
  telemetry controller, the panel and workspace shell, and the map.

  The theories, in the order of use.

  \<^item> Prelude: machine words, C-locale characters, decimal numbers, \<open>std::map\<close> as a sorted and
    \<open>std::unordered_map\<close> as a distinct association list, both interpretations of the locale
    \<open>dictionary\<close>. Encoding: self-delimiting encodings (locales \<open>prefix_code\<close>, \<open>stopped_code\<close>,
    \<open>separated_code\<close>), interpreted on the JSON renderers of Health and Logger.
  \<^item> Result_Error: result.h and error.h. A result is \<open>Ok\<close> or \<open>Err\<close>; reading the wrong
    alternative, which ends the process, is \<open>None\<close>.
  \<^item> Link_Monitor: domain/link_monitor.h on 64-bit words, and the abstract supervisor over
    natural numbers it refines while the clock is monotone. Supervise_Link: app/, adapters/
    and main.cpp of the template; the port is the locale \<open>event_publisher\<close>, extended by
    \<open>reliable_publisher\<close>, which the standard output adapter interprets.
  \<^item> Sequence: sequence.h; the locale \<open>monotone_source\<close> is interpreted on the plain and the keyed
    counter and, in Jet_Stream, on publication. Uuid: the layout and text of uuid.h, for any
    random words. Uuid_Rng: the 64-bit Mersenne Twister of the language standard, its seeding
    and the UUIDs of a thread.
  \<^item> Dedup: dedup.h, providing the locale \<open>novelty_filter\<close>. Jet_Stream: jetstream.h and
    in_memory_jetstream; every locked section is an atomic step, the relation \<open>js_steps\<close> is any
    interleaving of them, and handlers are values an interpreter runs outside the lock.
    Idempotent_Consumer: both composed as the port's documentation prescribes. Jet_Delivery:
    the calls of the handlers, which happen outside the lock, interleaved between threads and
    nested where a handler publishes, with subscriptions and acknowledgements at any moment.
    Concurrent_Consumer: the consumer under all of them.
    Stream_Port: the port's two classes as records of operations, their contract as the locale
    \<open>stream_contract\<close>, the in-memory adapter its interpretation.
  \<^item> Dbl and Dbl_Arith: binary64 bit patterns, rounding to nearest even, printing with six
    significant digits, arithmetic and comparison. Dbl_Round: the real value of a pattern and
    the proof that rounding and addition give the nearest pattern, ties to even. Dbl_Bounds:
    the same for products and quotients, error bounds, exact scaling by powers of two.
    Dbl_Range: comparison, monotone rounding, and operations that stay between representable
    bounds. Dbl_Error: the rounding error of single operations.
  \<^item> Config_Line and Config: config.h and config.cpp, the line syntax, files, the environment
    layer and the typed accessors; Config_Double: \<open>get_double\<close>, with \<open>std::from_chars\<close> as the
    standard describes it.
  \<^item> Metrics: metrics.h and metrics.cpp; shared counters and gauges live in stores, a handle is
    a position or the null pointer. Metric_Threads: increments, sets and adds of concurrent
    threads, where \<open>Gauge::add\<close> is a load and a later store. Metric_Spec: the table of keyed
    cells the registry implements, with the view that hides entries, index and handles.
    Metric_Scrape: \<open>render_prometheus\<close>, entry by entry, beside the updates of other threads.
    Metric_Exposition: a reader of the Prometheus text and what it gets back. Metric_Headers: how
    often a metric is announced.
  \<^item> Health: health.h and health.cpp. Timestamp and Logger: logger.h and logger.cpp.
    Logger_Threads: threads that emit at once, character by character, as the logger has no
    lock. Json_Reader: a reader of JSON documents, and what it gets back from log records and
    from the health document; the locale \<open>json_members\<close> is what a writer of members owes it,
    interpreted on the three the library has.
  \<^item> Http_Server: health_metrics_server, the responses, one connection, \<open>start\<close> and \<open>stop\<close>, with
    the answers of the operating system as arguments. Accept_Loop: the accept thread running
    beside \<open>stop\<close> and the connected peer, as an inductive step relation over program
    counters; \<open>recv\<close> and \<open>send\<close> block until the peer acts. Accept_Timing: the same with a clock
    that advances in \<open>select\<close> and while the peer is awaited. Accept_Hangup: the same with clients
    that hang up before they are answered, and the signal \<open>send\<close> then raises.
  \<^item> Shell: panels, workspaces and what main.cpp registers. Telemetry: TelemetryController.cpp;
    Telemetry_Envelope: the ranges its simulation keeps, the battery and the climb of a flight;
    Telemetry_Position: how far the displayed position moves.
    Gcs_Properties: the \<open>Q_PROPERTY\<close> table of TelemetryController.h as typed reads and writes,
    the locale \<open>observable_property\<close> interpreted on all of them. Slippy_Map: the ideal
    projection over the reals and the tile provider; Slippy_Double: SlippyMath.h in \<open>double\<close>
    arithmetic; Slippy_Roundtrip: a longitude projected and back; Mercator and Slippy_Row: the
    real analysis and the rounding of the row, and a latitude projected and back. Gcs_Main: the
    rest of main.cpp.

  What is shown. Refinement: the link monitor implements its abstract supervisor, and the
  supervised link publishes exactly its event log; the metric registry implements a table of
  keyed cells. Exactly-once processing: a stream that may
  redeliver anything, and a consumer with a dedup set, also when threads interleave; how often each handler is called under
  any interleaving. Equivalence: \<open>get_double\<close> and correct rounding, a gauge with one writer and
  its sequential run, health probes and the last reports. Types: a property write reaches a
  setter only with a value of its type and touches nothing else. Invariants: the stream's log, the
  metric index, the descriptors the server owns, the wired layouts, the ranges of the numbers the
  ground station displays (its position is bounded by the number of ticks), what concurrent threads leave in the log. Round trips: written
  configuration files, log records and the health document through a JSON reader, the metrics through a reader of
  the Prometheus text, UUIDs, time stamps, the map
  projection, every finite double through the configuration. Bounds: the column of a longitude, the row of a latitude,
  the counter samples of a scrape, the discharge of the battery and the climb within their
  rounding errors.
  Termination and liveness: the accept loop ends within six steps of its own once \<open>stop\<close> has
  cleared the flag, \<open>stop\<close> waits for at most one poll timeout besides the peer, and it returns in
  every run that is fair to both threads and in which the connected peer acts in the end; every loop, by the definitions' termination proofs; no
  definition of code uses fuel, and the readers' only bound is the depth objects nest to in
  \<open>read_json\<close>, one for a record and three for the health document, the depth they have. Errors: the malformed line, absent keys, the
  failed publication, the mismatched metric kind. Where the code falls short of what its
  comments say, the theorem states what it does: a tick before the last heartbeat, the
  unescaped metric labels, help texts and control characters, metrics announced twice, counters above a million, the descriptor
  closed under the accept loop, the probe that arrives in two pieces, the start whose thread cannot
  be created, the client whose hanging up kills the service, log records torn
  between threads, the two altitudes that disagree after landing, the silent client that blocks \<open>stop\<close>, messages handed over out
  of order, the gauge update lost between threads, 32 bits of randomness behind every UUID,
  the green message on a jammed vehicle, displays that go stale, the longitude off the axis.

  Conventions. Clocks, random draws, the environment, files, sockets, and Qt's and SQLite's
  answers are arguments. Unbounded integers stand for 64-bit time points only where a lemma
  bounds them (\<open>dedup_deadlines_fit\<close>). Mutexes appear as the atomicity of a locked section.
  Strings are byte strings, Qt's strings in UTF-8.

  The interleavings are those of sequentially consistent memory; the atomics of the metrics
  are relaxed, but each theorem about them concerns one location, except for the scrape, whose
  executions are taken to be sequentially consistent.

  The accuracy of the C library's \<open>tan\<close>, \<open>asinh\<close>, \<open>atan\<close> and \<open>sinh\<close>, two units in the last place
  as glibc's manual documents it, is a hypothesis (\<open>libm_forward\<close>, \<open>libm_back\<close>) of the theorems on
  rows, at the arguments the code passes; the smallest angles show that it can hold.

  Not modelled: Qt itself (its parser, painter, codec, event loop and font data base are
  arguments) and SQLite; the Windows branches of the socket code; \<open>TileId\<close>, which no code uses;
  the Node.js gateway, the schemas, migrations, QML and Python tools, which are not C++.
\<close>

section \<open>Across components\<close>

text \<open>
  C28. A health probe tells exactly the last reports: two services, with any histories of reports,
  any metrics and any further text of the request, answer a probe with the same bytes if and
  only if every check they know was last reported with the same state and reason.
\<close>

theorem probe_tells_exactly_the_last_reports:
  "fst (handle_connection (health_set_all calls []) mets client (Some (''GET /healthz'' @ r)) srv) =
   fst (handle_connection (health_set_all calls' []) mets' client' (Some (''GET /healthz'' @ r')) srv') \<longleftrightarrow>
   map_of (rev (reported calls)) = map_of (rev (reported calls'))"
proof -
  have "health_set_all calls [] = health_set_all calls' [] \<longleftrightarrow>
      map_of (rev (reported calls)) = map_of (rev (reported calls'))"
    using health_set_all_lookup [OF om_sorted_Nil, of calls] health_set_all_lookup [OF om_sorted_Nil, of calls']
      om_ext [OF health_set_all_sorted [OF om_sorted_Nil, of calls] health_set_all_sorted [OF om_sorted_Nil, of calls']]
    by auto
  moreover have "http_response 200 ''OK'' ''application/json'' b = http_response 200 ''OK'' ''application/json'' b' \<longleftrightarrow> b = b'"
    for b b' by (rule http_response_inject) simp_all
  ultimately show ?thesis
    unfolding healthz_response fst_conv option.inject
    by (simp only: render_json_inject)
qed



end
